(* ===== verification/CPrelude.thy ===== *)
theory CPrelude
  imports Main "HOL-Library.Word"
begin

text \<open>
  The prelude of the development: the part of the C language and its standard library that
  the modelled programs share.
  \<^item> \<open>ub\<close> and \<open>res\<close>: undefined behaviour is a value, so that "this code never runs into
    undefined behaviour" is a statement of the logic; \<open>bind_res\<close> sequences two steps.
  \<^item> \<open>heap\<close>: the allocator. A block is known by a number, the set \<open>live\<close> holds the blocks
    that are allocated, and \<open>grants\<close> decides, for each request in turn, whether there is memory
    for it; every theorem quantifies over \<open>grants\<close>, so over every way memory can run out.
    A request of 2 ^ 63 bytes or more (PTRDIFF_MAX) is always refused, as glibc does.
  \<^item> \<open>memval\<close>: a byte of memory: indeterminate, a character, or a byte of a pointer.
  \<^item> C strings: the characters before the terminating NUL.
\<close>

section \<open>Undefined behaviour as a value\<close>

datatype ub = Null_Deref | Out_Of_Bounds | Bad_Free | Uninit_Read | Int_Overflow | Div_By_Zero

type_synonym 'a res = "ub + 'a"

definition bind_res :: "'a res \<Rightarrow> ('a \<Rightarrow> 'b res) \<Rightarrow> 'b res" where
  "bind_res r f = (case r of Inl e \<Rightarrow> Inl e | Inr a \<Rightarrow> f a)"

named_theorems res_simps \<open>evaluation of sequenced steps\<close>

lemma bind_res_Inl [simp]: "bind_res (Inl e) f = Inl e"
  by (simp add: bind_res_def)

lemma bind_res_Inr [simp]: "bind_res (Inr a) f = f a"
  by (simp add: bind_res_def)

lemma bind_res_eq_Inr [res_simps]:
  "bind_res r f = Inr b \<longleftrightarrow> (\<exists>a. r = Inr a \<and> f a = Inr b)"
  by (cases r) auto

lemma bind_res_cong [fundef_cong]:
  "r = r' \<Longrightarrow> (\<And>a. r' = Inr a \<Longrightarrow> f a = g a) \<Longrightarrow> bind_res r f = bind_res r' g"
  by (cases r') auto

text \<open>For evaluation: do not look into the continuation before the first step has a value.\<close>

lemma bind_res_weak_cong: "r = r' \<Longrightarrow> bind_res r f = bind_res r' f"
  by simp

lemma bind_res_assoc: "bind_res (bind_res r f) g = bind_res r (\<lambda>x. bind_res (f x) g)"
  by (cases r) auto

section \<open>The allocator\<close>

record heap =
  live :: "nat set"
  fresh :: nat
  grants :: "nat \<Rightarrow> nat \<Rightarrow> bool"

definition granted :: "nat \<Rightarrow> heap \<Rightarrow> bool" where
  "granted n h \<longleftrightarrow> n < 2 ^ 63 \<and> grants h (fresh h) n"

definition malloc :: "nat \<Rightarrow> heap \<Rightarrow> nat option \<times> heap" where
  "malloc n h =
     (if granted n h
      then (Some (fresh h), h\<lparr>live := insert (fresh h) (live h), fresh := Suc (fresh h)\<rparr>)
      else (None, h\<lparr>fresh := Suc (fresh h)\<rparr>))"

definition mfree :: "nat option \<Rightarrow> heap \<Rightarrow> heap res" where
  "mfree p h =
     (case p of
        None \<Rightarrow> Inr h
      | Some a \<Rightarrow> (if a \<in> live h then Inr (h\<lparr>live := live h - {a}\<rparr>) else Inl Bad_Free))"

text \<open>
  \<open>realloc\<close> of a live block: a granted request moves the block to a fresh address; a refused
  one leaves it; a request of 0 bytes frees it and answers NULL (glibc).
\<close>

definition crealloc :: "nat \<Rightarrow> nat \<Rightarrow> heap \<Rightarrow> (nat option \<times> heap) res" where
  "crealloc a n h =
     (if a \<notin> live h then Inl Bad_Free
      else if n = 0 then Inr (None, h\<lparr>live := live h - {a}\<rparr>)
      else if granted n h
      then Inr (Some (fresh h),
                h\<lparr>live := insert (fresh h) (live h - {a}), fresh := Suc (fresh h)\<rparr>)
      else Inr (None, h\<lparr>fresh := Suc (fresh h)\<rparr>))"

text \<open>
  A heap is well formed when every live block is older than the next address, and generous when
  it grants every request the allocator may grant.
\<close>

definition heap_ok :: "heap \<Rightarrow> bool" where
  "heap_ok h \<longleftrightarrow> (\<forall>a \<in> live h. a < fresh h)"

definition generous :: "heap \<Rightarrow> bool" where
  "generous h \<longleftrightarrow> grants h = (\<lambda>k n. True)"

definition new_heap :: "(nat \<Rightarrow> nat \<Rightarrow> bool) \<Rightarrow> heap" where
  "new_heap g = \<lparr>live = {}, fresh = 0, grants = g\<rparr>"

lemma heap_ok_new [simp]: "heap_ok (new_heap g)"
  by (simp add: heap_ok_def new_heap_def)

lemma generous_new [simp]: "generous (new_heap (\<lambda>k n. True))"
  by (simp add: generous_def new_heap_def)

lemma live_new [simp]: "live (new_heap g) = {}"
  by (simp add: new_heap_def)

lemma fresh_not_live [simp]: "heap_ok h \<Longrightarrow> fresh h \<notin> live h"
  by (auto simp: heap_ok_def)

lemma granted_generous [simp]: "generous h \<Longrightarrow> granted n h \<longleftrightarrow> n < 2 ^ 63"
  by (simp add: granted_def generous_def)

text \<open>
  \<open>heap_le h h'\<close>: the program has moved from \<open>h\<close> to \<open>h'\<close>, keeping the allocator's oracle and
  the well-formedness of the heap. It is what every operation keeps, whatever it allocates.
\<close>

definition heap_le :: "heap \<Rightarrow> heap \<Rightarrow> bool" where
  "heap_le h h' \<longleftrightarrow> grants h' = grants h \<and> fresh h \<le> fresh h' \<and> (heap_ok h \<longrightarrow> heap_ok h')"

lemma heap_le_refl [simp, intro]: "heap_le h h"
  by (simp add: heap_le_def)

lemma heap_le_trans [trans]: "heap_le h h' \<Longrightarrow> heap_le h' h'' \<Longrightarrow> heap_le h h''"
  by (auto simp: heap_le_def)

lemma heap_le_ok: "heap_le h h' \<Longrightarrow> heap_ok h \<Longrightarrow> heap_ok h'"
  by (simp add: heap_le_def)

lemma heap_le_generous: "heap_le h h' \<Longrightarrow> generous h' = generous h"
  by (simp add: heap_le_def generous_def)

lemma heap_le_fresh: "heap_le h h' \<Longrightarrow> fresh h \<le> fresh h'"
  by (simp add: heap_le_def)

lemma malloc_Some:
  assumes "malloc n h = (Some a, h')"
  shows "a = fresh h" "live h' = insert a (live h)" "heap_le h h'" "fresh h' = Suc (fresh h)"
  using assms by (auto simp: malloc_def heap_le_def heap_ok_def less_SucI split: if_splits)

lemma malloc_None:
  assumes "malloc n h = (None, h')"
  shows "live h' = live h" "heap_le h h'" "fresh h' = Suc (fresh h)" "\<not> granted n h"
  using assms by (auto simp: malloc_def heap_le_def heap_ok_def less_SucI split: if_splits)

lemma malloc_None_generous: "malloc n h = (None, h') \<Longrightarrow> n < 2 ^ 63 \<Longrightarrow> \<not> generous h"
  by (auto simp: malloc_def)

lemma malloc_generous:
  "generous h \<Longrightarrow> n < 2 ^ 63 \<Longrightarrow>
     malloc n h = (Some (fresh h), h\<lparr>live := insert (fresh h) (live h), fresh := Suc (fresh h)\<rparr>)"
  by (simp add: malloc_def)

lemma mfree_None [simp]: "mfree None h = Inr h"
  by (simp add: mfree_def)

lemma mfree_live [simp]:
  "a \<in> live h \<Longrightarrow> mfree (Some a) h = Inr (h\<lparr>live := live h - {a}\<rparr>)"
  by (simp add: mfree_def)

lemma heap_le_free [simp]: "heap_le h (h\<lparr>live := live h - A\<rparr>)"
  by (auto simp: heap_le_def heap_ok_def)

lemma heap_ok_free [simp]: "heap_ok h \<Longrightarrow> heap_ok (h\<lparr>live := live h - A\<rparr>)"
  by (auto simp: heap_ok_def)

text \<open>
  \<open>own_rel o1 h o2 h'\<close>: a data structure that owned the blocks \<open>o1\<close> in \<open>h\<close> owns \<open>o2\<close> in \<open>h'\<close>. Its
  blocks are live, the blocks of everybody else are still live and still not its own, new blocks
  are fresh; and when memory is granted, nothing else has become live, that is, nothing leaked.
\<close>

definition own_rel :: "nat set \<Rightarrow> heap \<Rightarrow> nat set \<Rightarrow> heap \<Rightarrow> bool" where
  "own_rel o1 h o2 h' \<longleftrightarrow>
     heap_le h h' \<and> o2 \<subseteq> live h' \<and> live h - o1 \<subseteq> live h' - o2 \<and>
     (generous h \<longrightarrow> live h' - o2 \<subseteq> live h - o1)"

lemma own_rel_refl [simp]: "o1 \<subseteq> live h \<Longrightarrow> own_rel o1 h o1 h"
  by (simp add: own_rel_def)

lemma own_rel_trans:
  assumes "own_rel o1 h o2 h'" "own_rel o2 h' o3 h''"
  shows "own_rel o1 h o3 h''"
proof -
  have "heap_le h h''" "generous h' = generous h"
    using assms heap_le_trans heap_le_generous by (auto simp: own_rel_def)
  with assms show ?thesis by (auto simp: own_rel_def)
qed

text \<open>The frame rule: blocks \<open>F\<close> of another structure can be added on both sides.\<close>

lemma own_rel_frame:
  assumes "own_rel o1 h o2 h'" "F \<subseteq> live h - o1"
  shows "own_rel (F \<union> o1) h (F \<union> o2) h'" and "F \<inter> o2 = {}" and "F \<subseteq> live h'"
  using assms by (auto simp: own_rel_def)

text \<open>Taking more blocks keeps the ones already owned, and they are different.\<close>

lemma own_rel_extend:
  assumes "own_rel o1 h o2 h'" "own_rel {} h' o3 h''"
  shows "own_rel o1 h (o2 \<union> o3) h''" and "o2 \<inter> o3 = {}"
proof -
  have "o2 \<subseteq> live h' - {}" using assms(1) by (simp add: own_rel_def)
  note f = own_rel_frame [OF assms(2) this]
  show "o2 \<inter> o3 = {}" by (rule f(2))
  show "own_rel o1 h (o2 \<union> o3) h''"
    using own_rel_trans [OF assms(1)] f(1) by simp
qed

lemma own_rel_ok: "own_rel o1 h o2 h' \<Longrightarrow> heap_ok h \<Longrightarrow> heap_ok h'"
  using heap_le_ok by (auto simp: own_rel_def)

lemma own_rel_generous: "own_rel o1 h o2 h' \<Longrightarrow> generous h' = generous h"
  by (simp add: own_rel_def heap_le_generous)

lemma own_rel_live: "own_rel o1 h o2 h' \<Longrightarrow> o2 \<subseteq> live h'"
  by (simp add: own_rel_def)

lemma own_rel_exact: "own_rel o1 h o2 h' \<Longrightarrow> generous h \<Longrightarrow> live h' - o2 = live h - o1"
  by (auto simp: own_rel_def)

lemma own_rel_malloc:
  "malloc n h = (Some a, h') \<Longrightarrow> heap_ok h \<Longrightarrow> own_rel {} h {a} h'"
  using malloc_Some [of n h a h'] fresh_not_live [of h] by (auto simp: own_rel_def)

lemma own_rel_malloc_None:
  "malloc n h = (None, h') \<Longrightarrow> own_rel {} h {} h'"
  using malloc_None [of n h h'] by (auto simp: own_rel_def)

lemma own_rel_free:
  "A \<subseteq> live h \<Longrightarrow> own_rel A h {} (h\<lparr>live := live h - A\<rparr>)"
  by (auto simp: own_rel_def)

section \<open>Bytes of memory\<close>

datatype 'p memval = Undef | Byte char | Frag 'p nat

text \<open>A pointer is eight bytes (LP64), each a fragment of it.\<close>

definition enc_ptr :: "'p \<Rightarrow> 'p memval list" where
  "enc_ptr p = map (Frag p) [0..<8]"

definition dec_ptr :: "'p memval list \<Rightarrow> 'p res" where
  "dec_ptr bs =
     (case bs of Frag p _ # _ \<Rightarrow> (if bs = enc_ptr p then Inr p else Inl Uninit_Read)
      | _ \<Rightarrow> Inl Uninit_Read)"

definition enc_char :: "char \<Rightarrow> 'p memval list" where
  "enc_char c = [Byte c]"

definition dec_char :: "'p memval \<Rightarrow> char res" where
  "dec_char b = (case b of Byte c \<Rightarrow> Inr c | _ \<Rightarrow> Inl Uninit_Read)"

lemma dec_char_Byte [simp]: "dec_char (Byte c) = Inr c"
  by (simp add: dec_char_def)

lemma length_enc_ptr [simp]: "length (enc_ptr p) = 8"
  by (simp add: enc_ptr_def)

lemma length_enc_char [simp]: "length (enc_char c) = 1"
  by (simp add: enc_char_def)

lemma dec_enc_ptr [simp]: "dec_ptr (enc_ptr p) = Inr p"
  by (simp add: dec_ptr_def enc_ptr_def upt_rec)

text \<open>An n-byte integer, little endian.\<close>

fun enc_le :: "nat \<Rightarrow> nat \<Rightarrow> 'p memval list" where
  "enc_le 0 n = []"
| "enc_le (Suc k) n = Byte (char_of (n mod 256)) # enc_le k (n div 256)"

fun dec_le :: "'p memval list \<Rightarrow> nat res" where
  "dec_le [] = Inr 0"
| "dec_le (b # bs) = bind_res (dec_char b) (\<lambda>c. bind_res (dec_le bs) (\<lambda>n. Inr (of_char c + 256 * n)))"

lemma length_enc_le [simp]: "length (enc_le k n) = k"
  by (induction k arbitrary: n) auto

lemma dec_enc_le [simp]: "dec_le (enc_le k n) = Inr (n mod 256 ^ k)"
  by (induction k arbitrary: n) (auto simp: mod_mult2_eq)

text \<open>
  Reading a pointer array up to its NULL (the array \<open>execvp\<close> gets): eight bytes at a time;
  the end of the block before a NULL is a read out of bounds.
\<close>

function read_ptrs :: "'p option memval list \<Rightarrow> 'p list res" where
  "read_ptrs bs =
     (if length bs < 8 then Inl Out_Of_Bounds
      else bind_res (dec_ptr (take 8 bs)) (\<lambda>p.
        case p of None \<Rightarrow> Inr []
        | Some q \<Rightarrow> bind_res (read_ptrs (drop 8 bs)) (\<lambda>qs. Inr (q # qs))))"
  by pat_completeness auto
termination
  by (relation "measure length") auto

declare read_ptrs.simps [simp del]

lemma read_ptrs_NULL [simp]: "read_ptrs (enc_ptr None @ bs) = Inr []"
  by (subst read_ptrs.simps) simp

lemma read_ptrs_enc [simp]:
  "read_ptrs (enc_ptr (Some q) @ bs) = bind_res (read_ptrs bs) (\<lambda>qs. Inr (q # qs))"
  by (subst read_ptrs.simps) simp

lemma read_ptrs_array:
  "read_ptrs (concat (map (\<lambda>q. enc_ptr (Some q)) qs) @ enc_ptr None @ bs) = Inr qs"
  by (induction qs) auto

section \<open>Machine words\<close>

lemma unat_Suc_less:
  assumes "i < (n :: 'a::len word)"
  shows "unat (i + 1) = Suc (unat i)"
proof -
  have a: "unat i < unat n" using assms by (simp add: word_less_nat_alt)
  have b: "unat n < 2 ^ LENGTH('a)" by (rule unsigned_less)
  from a b have c: "Suc (unat i) < 2 ^ LENGTH('a)" by linarith
  have "unat (i + 1) = (unat i + unat (1 :: 'a word)) mod 2 ^ LENGTH('a)"
    by (simp only: unat_word_ariths)
  with c show ?thesis by simp
qed

section \<open>Parts of lists\<close>

lemma take_drop_append_left [simp]:
  "a + n \<le> length xs \<Longrightarrow> take n (drop a (xs @ ys)) = take n (drop a xs)"
  by simp

lemma take_drop_take [simp]: "a + n \<le> b \<Longrightarrow> take n (drop a (take b xs)) = take n (drop a xs)"
  by (simp add: drop_take min_def)

section \<open>C strings\<close>

definition NUL :: char where
  "NUL = CHR 0x00"

definition c_string :: "string \<Rightarrow> bool" where
  "c_string s \<longleftrightarrow> NUL \<notin> set s"

text \<open>\<open>s[i]\<close> of a C string: its characters, its NUL, and nothing after it.\<close>

definition str_at :: "string \<Rightarrow> nat \<Rightarrow> char res" where
  "str_at s i = (if i < length s then Inr (s ! i) else if i = length s then Inr NUL else Inl Out_Of_Bounds)"

text \<open>\<open>strcmp(s, t) == 0\<close>: the two strings agree up to their NULs.\<close>

definition cstr :: "string \<Rightarrow> string" where
  "cstr s = takeWhile (\<lambda>c. c \<noteq> NUL) s"

definition strcmp_eq :: "string \<Rightarrow> string \<Rightarrow> bool" where
  "strcmp_eq s t \<longleftrightarrow> cstr s = cstr t"

lemma cstr_c_string [simp]: "c_string s \<Longrightarrow> cstr s = s"
  by (auto simp: cstr_def c_string_def takeWhile_eq_all_conv)

lemma c_string_Nil [simp]: "c_string []"
  by (simp add: c_string_def)

lemma c_string_Cons [simp]: "c_string (c # s) \<longleftrightarrow> c \<noteq> NUL \<and> c_string s"
  by (auto simp: c_string_def)

end
