(* ===== verification/Growable.thy ===== *)
theory Growable
  imports CPrelude
begin

text \<open>
  The contract of a growable array, as the clients of the dynamic arrays use it: an operation
  that appends one element and reports 0 or -1, the list of the elements held, and the blocks
  of memory the array owns. The laws say that appending never runs into undefined behaviour,
  that it appends exactly on 0 and changes nothing on -1, that it touches no block of anybody
  else, and that it succeeds as long as memory is granted and the contents stay small.

  The clients push several elements: \<open>push_all\<close> ignores the result of each append, as
  \<open>readInput\<close> does, and \<open>push_checked\<close> stops at the first failure, as \<open>tokenise\<close> does.
\<close>

fun push_all :: "('s \<Rightarrow> 'e \<Rightarrow> heap \<Rightarrow> (int \<times> 's \<times> heap) res) \<Rightarrow> 's \<Rightarrow> 'e list \<Rightarrow> heap
    \<Rightarrow> ('s \<times> heap) res" where
  "push_all add s [] h = Inr (s, h)"
| "push_all add s (e # es) h = bind_res (add s e h) (\<lambda>(r, s', h'). push_all add s' es h')"

fun push_checked :: "('s \<Rightarrow> 'e \<Rightarrow> heap \<Rightarrow> (int \<times> 's \<times> heap) res) \<Rightarrow> 's \<Rightarrow> 'e list \<Rightarrow> heap
    \<Rightarrow> (bool \<times> 's \<times> heap) res" where
  "push_checked add s [] h = Inr (True, s, h)"
| "push_checked add s (e # es) h =
     bind_res (add s e h) (\<lambda>(r, s', h').
       if r < 0 then Inr (False, s', h') else push_checked add s' es h')"

lemma push_all_append:
  "push_all add s (xs @ ys) h =
     bind_res (push_all add s xs h) (\<lambda>(s', h'). push_all add s' ys h')"
  by (induction xs arbitrary: s h) (auto simp: bind_res_assoc split_def)

text \<open>
  \<open>own_step s h s' h'\<close>: from \<open>s\<close> in heap \<open>h\<close> to \<open>s'\<close> in \<open>h'\<close> only the blocks of the array
  itself have changed hands; the blocks of everybody else are live exactly as before.
\<close>

definition own_step :: "nat set \<Rightarrow> heap \<Rightarrow> nat set \<Rightarrow> heap \<Rightarrow> bool" where
  "own_step o1 h o2 h' \<longleftrightarrow>
     heap_le h h' \<and> o2 \<subseteq> live h' \<and> live h' - o2 = live h - o1 \<and> o2 - o1 \<subseteq> {a. fresh h \<le> a}"

lemma own_step_refl: "o1 \<subseteq> live h \<Longrightarrow> own_step o1 h o1 h"
  by (simp add: own_step_def)

lemma own_step_trans:
  assumes "own_step o1 h o2 h'" "own_step o2 h' o3 h''"
  shows "own_step o1 h o3 h''"
proof -
  have le: "heap_le h h''" and f: "fresh h \<le> fresh h'"
    using assms heap_le_trans heap_le_fresh by (auto simp: own_step_def)
  have "x \<in> o3 - o1 \<Longrightarrow> fresh h \<le> x" for x
    using assms f by (cases "x \<in> o2") (auto simp: own_step_def subset_iff)
  with le assms show ?thesis by (auto simp: own_step_def)
qed

lemma own_step_le: "own_step o1 h o2 h' \<Longrightarrow> heap_le h h'"
  by (simp add: own_step_def)

lemma own_step_owned: "own_step o1 h o2 h' \<Longrightarrow> o2 \<subseteq> live h'"
  by (simp add: own_step_def)

lemma own_step_live: "own_step o1 h o2 h' \<Longrightarrow> live h' = live h - o1 \<union> o2"
  by (auto simp: own_step_def)

locale growable =
  fixes add :: "'s \<Rightarrow> 'e \<Rightarrow> heap \<Rightarrow> (int \<times> 's \<times> heap) res"
    and contents :: "'s \<Rightarrow> 'e list"
    and owned :: "'s \<Rightarrow> nat set"
    and fits :: "'s \<Rightarrow> 'e \<Rightarrow> bool"
    and small :: "'s \<Rightarrow> nat \<Rightarrow> bool"
    and invar :: "'s \<Rightarrow> bool"
  assumes add_total: "invar s \<Longrightarrow> fits s e \<Longrightarrow> heap_ok h \<Longrightarrow> owned s \<subseteq> live h \<Longrightarrow>
        \<exists>r s' h'. add s e h = Inr (r, s', h') \<and> (r = 0 \<or> r = -1)"
    and add_invar: "add s e h = Inr (r, s', h') \<Longrightarrow> invar s \<Longrightarrow> fits s e \<Longrightarrow> heap_ok h \<Longrightarrow>
        owned s \<subseteq> live h \<Longrightarrow> invar s' \<and> fits s' = fits s \<and> small s' = small s"
    and add_contents: "add s e h = Inr (r, s', h') \<Longrightarrow> invar s \<Longrightarrow> fits s e \<Longrightarrow> heap_ok h \<Longrightarrow>
        owned s \<subseteq> live h \<Longrightarrow> contents s' = (if r = 0 then contents s @ [e] else contents s)"
    and add_own: "add s e h = Inr (r, s', h') \<Longrightarrow> invar s \<Longrightarrow> fits s e \<Longrightarrow> heap_ok h \<Longrightarrow>
        owned s \<subseteq> live h \<Longrightarrow> own_step (owned s) h (owned s') h'"
    and add_generous: "add s e h = Inr (r, s', h') \<Longrightarrow> invar s \<Longrightarrow> fits s e \<Longrightarrow> heap_ok h \<Longrightarrow>
        owned s \<subseteq> live h \<Longrightarrow> generous h \<Longrightarrow> small s (length (contents s)) \<Longrightarrow> r = 0"
    and small_mono: "small s n \<Longrightarrow> m \<le> n \<Longrightarrow> small s m"
begin

lemmas add_laws = add_invar add_contents add_own

text \<open>
  One append, as a rule: it returns, and what it returns satisfies all the laws. Every client
  lemma below applies this once per element.
\<close>

lemma addE:
  assumes "invar s" "fits s e" "heap_ok h" "owned s \<subseteq> live h"
  obtains r s' h' where "add s e h = Inr (r, s', h')" "r = 0 \<or> r = -1"
    "invar s'" "fits s' = fits s" "small s' = small s"
    "contents s' = (if r = 0 then contents s @ [e] else contents s)"
    "own_step (owned s) h (owned s') h'" "heap_ok h'" "owned s' \<subseteq> live h'"
    "generous h' = generous h"
    "generous h \<Longrightarrow> small s (length (contents s)) \<Longrightarrow> r = 0"
proof -
  obtain r s' h' where a: "add s e h = Inr (r, s', h')" "r = 0 \<or> r = -1"
    using add_total [OF assms] by blast
  have own: "own_step (owned s) h (owned s') h'"
    by (rule add_own [OF a(1) assms])
  then have "heap_ok h'" "owned s' \<subseteq> live h'" "generous h' = generous h"
    using assms(3) by (auto simp: own_step_def heap_le_ok heap_le_generous)
  with a own show thesis
    using that add_invar [OF a(1) assms] add_contents [OF a(1) assms]
      add_generous [OF a(1) assms] by blast
qed

text \<open>Pushing never goes wrong, whatever memory does, and what is held grows at the end.\<close>

lemma push_all_safe:
  assumes "invar s" "\<And>e. e \<in> set es \<Longrightarrow> fits s e" "heap_ok h" "owned s \<subseteq> live h"
  shows "\<exists>s' h'. push_all add s es h = Inr (s', h') \<and> invar s' \<and> heap_ok h' \<and>
           own_step (owned s) h (owned s') h' \<and> fits s' = fits s \<and> small s' = small s \<and>
           (\<exists>ys. contents s' = contents s @ ys \<and> length ys \<le> length es)"
  using assms
proof (induction es arbitrary: s h)
  case Nil
  then show ?case by (simp add: own_step_refl)
next
  case (Cons e es)
  obtain r s1 h1 where s1: "add s e h = Inr (r, s1, h1)" "invar s1" "fits s1 = fits s"
      "small s1 = small s" "contents s1 = (if r = 0 then contents s @ [e] else contents s)"
      "own_step (owned s) h (owned s1) h1" "heap_ok h1" "owned s1 \<subseteq> live h1"
    using Cons.prems by (auto elim: addE [of s e h])
  have "\<And>x. x \<in> set es \<Longrightarrow> fits s1 x" using Cons.prems s1 by simp
  then obtain s' h' ys where "push_all add s1 es h1 = Inr (s', h')" "invar s'" "heap_ok h'"
      "own_step (owned s1) h1 (owned s') h'" "fits s' = fits s1" "small s' = small s1"
      "contents s' = contents s1 @ ys" "length ys \<le> length es"
    using Cons.IH [OF s1(2) _ s1(7,8)] by blast
  moreover have "own_step (owned s) h (owned s') h'"
    using s1(6) calculation(4) by (rule own_step_trans)
  ultimately have "push_all add s (e # es) h = Inr (s', h') \<and> invar s' \<and> heap_ok h' \<and>
      own_step (owned s) h (owned s') h' \<and> fits s' = fits s \<and> small s' = small s \<and>
      contents s' = contents s @ ((if r = 0 then [e] else []) @ ys) \<and>
      length ((if r = 0 then [e] else []) @ ys) \<le> length (e # es)"
    using s1 by simp
  then show ?case by blast
qed

text \<open>With memory granted, pushing appends everything.\<close>

lemma push_all_generous:
  assumes "invar s" "\<And>e. e \<in> set es \<Longrightarrow> fits s e" "heap_ok h" "owned s \<subseteq> live h" "generous h"
    "small s (length (contents s) + length es)"
  shows "\<exists>s' h'. push_all add s es h = Inr (s', h') \<and> contents s' = contents s @ es \<and>
           invar s' \<and> heap_ok h' \<and> own_step (owned s) h (owned s') h'"
  using assms
proof (induction es arbitrary: s h)
  case Nil
  then show ?case by (simp add: own_step_refl)
next
  case (Cons e es)
  obtain r s1 h1 where s1: "add s e h = Inr (r, s1, h1)" "invar s1" "fits s1 = fits s"
      "small s1 = small s" "contents s1 = (if r = 0 then contents s @ [e] else contents s)"
      "own_step (owned s) h (owned s1) h1" "heap_ok h1" "owned s1 \<subseteq> live h1"
      "generous h1 = generous h"
      "generous h \<Longrightarrow> small s (length (contents s)) \<Longrightarrow> r = 0"
    using Cons.prems by (auto elim: addE [of s e h])
  have r: "r = 0" using s1(10) Cons.prems small_mono by auto
  have "\<And>x. x \<in> set es \<Longrightarrow> fits s1 x" using Cons.prems s1 by simp
  then obtain s' h' where "push_all add s1 es h1 = Inr (s', h')" "contents s' = contents s1 @ es"
      "invar s'" "heap_ok h'" "own_step (owned s1) h1 (owned s') h'"
    using Cons.IH [OF s1(2) _ s1(7,8)] Cons.prems s1 r by auto
  moreover have "own_step (owned s) h (owned s') h'"
    using s1(6) calculation(5) by (rule own_step_trans)
  ultimately show ?case
    using s1 r by auto
qed

text \<open>
  The checked push succeeds exactly when everything is stored, and a failure keeps a prefix.
\<close>

lemma push_checked_cases:
  assumes "invar s" "\<And>e. e \<in> set es \<Longrightarrow> fits s e" "heap_ok h" "owned s \<subseteq> live h"
  shows "\<exists>b s' h'. push_checked add s es h = Inr (b, s', h') \<and> invar s' \<and> heap_ok h' \<and>
           own_step (owned s) h (owned s') h' \<and> (b \<longrightarrow> contents s' = contents s @ es) \<and>
           (generous h \<and> small s (length (contents s) + length es) \<longrightarrow> b)"
  using assms
proof (induction es arbitrary: s h)
  case Nil
  then show ?case by (auto simp: own_step_refl intro: exI [of _ True])
next
  case (Cons e es)
  obtain r s1 h1 where s1: "add s e h = Inr (r, s1, h1)" "r = 0 \<or> r = -1"
      "invar s1" "fits s1 = fits s"
      "small s1 = small s" "contents s1 = (if r = 0 then contents s @ [e] else contents s)"
      "own_step (owned s) h (owned s1) h1" "heap_ok h1" "owned s1 \<subseteq> live h1"
      "generous h1 = generous h"
      "generous h \<Longrightarrow> small s (length (contents s)) \<Longrightarrow> r = 0"
    using Cons.prems by (auto elim: addE [of s e h])
  show ?case
  proof (cases "r = 0")
    case False
    moreover have "small s (length (contents s) + length (e # es)) \<Longrightarrow> small s (length (contents s))"
      by (rule small_mono) auto
    ultimately show ?thesis using s1 by auto
  next
    case True
    have "\<And>x. x \<in> set es \<Longrightarrow> fits s1 x" using Cons.prems s1 by simp
    then obtain b s' h' where "push_checked add s1 es h1 = Inr (b, s', h')" "invar s'" "heap_ok h'"
        "own_step (owned s1) h1 (owned s') h'" "b \<longrightarrow> contents s' = contents s1 @ es"
        "generous h1 \<and> small s1 (length (contents s1) + length es) \<longrightarrow> b"
      using Cons.IH [OF s1(3) _ s1(8,9)] by blast
    moreover have "own_step (owned s) h (owned s') h'"
      using s1(7) calculation(4) by (rule own_step_trans)
    ultimately show ?thesis using s1 True by auto
  qed
qed

end

end
