(* ===== verification/DynamicByteArray.thy ===== *)
theory DynamicByteArray
  imports Growable
begin

text \<open>
  The dynamic byte array of the iwish shell (Lab2/iwish/src/DynamicByteArray.c): an array of
  elements of \<open>type_size\<close> bytes each, kept in one block of memory that doubles when it is full.
  \<open>size_t\<close> is a 64-bit word and its arithmetic wraps, as in the code; an access outside the
  block is \<open>Out_Of_Bounds\<close>. The lemmas show that the array is a growable array in the sense
  of theory Growable: in particular no size computation ever wraps and no access leaves the
  block, whatever requests the allocator refuses.
\<close>

type_synonym size_t = "64 word"

record 'p DynamicByteArray =
  dba_block :: nat
  type_size :: size_t
  nr_of_elements :: size_t
  capacity :: size_t
  elements_block :: nat
  elements :: "'p memval list"

definition DBA_INITSIZE :: size_t where
  "DBA_INITSIZE = 16"

definition sizeof_DynamicByteArray :: nat where
  "sizeof_DynamicByteArray = 32"

definition DBA_makeNewDynamicByteArray ::
    "size_t \<Rightarrow> heap \<Rightarrow> ('p DynamicByteArray option \<times> heap) res" where
  "DBA_makeNewDynamicByteArray ts h =
     (case malloc sizeof_DynamicByteArray h of
        (None, h1) \<Rightarrow> Inr (None, h1)
      | (Some a, h1) \<Rightarrow>
          (case malloc (unat (DBA_INITSIZE * ts)) h1 of
             (None, h2) \<Rightarrow> bind_res (mfree (Some a) h2) (\<lambda>h3. Inr (None, h3))
           | (Some b, h2) \<Rightarrow>
               Inr (Some \<lparr>dba_block = a, type_size = ts, nr_of_elements = 0,
                          capacity = DBA_INITSIZE, elements_block = b,
                          elements = replicate (unat (DBA_INITSIZE * ts)) Undef\<rparr>, h2)))"

text \<open>\<open>realloc\<close> keeps the old bytes, as many as fit, and leaves the new ones indeterminate.\<close>

definition resize_block :: "nat \<Rightarrow> 'p memval list \<Rightarrow> 'p memval list" where
  "resize_block n bs = take n bs @ replicate (n - length bs) Undef"

definition DBA_resizeArr ::
    "'p DynamicByteArray \<Rightarrow> size_t \<Rightarrow> heap \<Rightarrow> (int \<times> 'p DynamicByteArray \<times> heap) res" where
  "DBA_resizeArr arr n h =
     bind_res (crealloc (elements_block arr) (unat (n * type_size arr)) h) (\<lambda>(p, h1).
       case p of
         None \<Rightarrow> Inr (-1, arr, h1)
       | Some b \<Rightarrow>
           Inr (0, arr\<lparr>elements_block := b,
                       elements := resize_block (unat (n * type_size arr)) (elements arr),
                       capacity := n\<rparr>, h1))"

text \<open>The byte loop of \<open>DBA_addElemToArr\<close>: \<open>elements[nr * type_size + i] = bytestring[i]\<close>.\<close>

function DBA_copyBytes :: "size_t \<Rightarrow> size_t \<Rightarrow> 'p memval list \<Rightarrow> 'p memval list \<Rightarrow> size_t
    \<Rightarrow> 'p memval list res" where
  "DBA_copyBytes ts nr src dst i =
     (if i < ts
      then (if unat i < length src \<and> unat (nr * ts + i) < length dst
            then DBA_copyBytes ts nr src (dst[unat (nr * ts + i) := src ! unat i]) (i + 1)
            else Inl Out_Of_Bounds)
      else Inr dst)"
  by pat_completeness auto
termination
proof (relation "measure (\<lambda>(ts, nr, src, dst, i). unat ts - unat i)", goal_cases)
  case (2 ts nr src dst i)
  from 2(1) have "unat (i + 1) = Suc (unat i)"
    by (rule unat_Suc_less)
  then show ?case using 2 by (simp add: word_less_nat_alt)
qed simp

declare DBA_copyBytes.simps [simp del]

definition DBA_addElemToArr :: "'p DynamicByteArray \<Rightarrow> 'p memval list \<Rightarrow> heap
    \<Rightarrow> (int \<times> 'p DynamicByteArray \<times> heap) res" where
  "DBA_addElemToArr arr bytestring h =
     bind_res
       (if nr_of_elements arr = capacity arr
        then DBA_resizeArr arr (2 * capacity arr) h
        else Inr (0, arr, h)) (\<lambda>(r, arr1, h1).
     if r < 0 then Inr (-1, arr1, h1)
     else bind_res (DBA_copyBytes (type_size arr1) (nr_of_elements arr1) bytestring (elements arr1) 0)
       (\<lambda>es. Inr (0, arr1\<lparr>elements := es, nr_of_elements := nr_of_elements arr1 + 1\<rparr>, h1)))"

text \<open>\<open>DBA_getElem\<close> answers the address of an element; here its offset in the block.\<close>

definition DBA_getElem :: "'p DynamicByteArray \<Rightarrow> size_t \<Rightarrow> nat" where
  "DBA_getElem arr index = unat (index * type_size arr)"

definition read_bytes :: "'p memval list \<Rightarrow> nat \<Rightarrow> nat \<Rightarrow> 'p memval list res" where
  "read_bytes bs off n =
     (if off + n \<le> length bs then Inr (take n (drop off bs)) else Inl Out_Of_Bounds)"

definition DBA_getElem_CHAR :: "'p DynamicByteArray \<Rightarrow> size_t \<Rightarrow> char res" where
  "DBA_getElem_CHAR arr index =
     bind_res (read_bytes (elements arr) (DBA_getElem arr index) 1) (\<lambda>bs. dec_char (hd bs))"

definition DBA_getElem_INT :: "'p DynamicByteArray \<Rightarrow> size_t \<Rightarrow> 32 word res" where
  "DBA_getElem_INT arr index =
     bind_res (read_bytes (elements arr) (DBA_getElem arr index) 4) (\<lambda>bs.
       bind_res (dec_le bs) (\<lambda>n. Inr (word_of_nat n)))"

definition DBA_getElem_LONG :: "'p DynamicByteArray \<Rightarrow> size_t \<Rightarrow> 64 word res" where
  "DBA_getElem_LONG arr index =
     bind_res (read_bytes (elements arr) (DBA_getElem arr index) 8) (\<lambda>bs.
       bind_res (dec_le bs) (\<lambda>n. Inr (word_of_nat n)))"

text \<open>A \<open>float\<close> and a \<open>double\<close> are the words of their bits.\<close>

definition DBA_getElem_FLOAT :: "'p DynamicByteArray \<Rightarrow> size_t \<Rightarrow> 32 word res" where
  "DBA_getElem_FLOAT arr index =
     bind_res (read_bytes (elements arr) (DBA_getElem arr index) 4) (\<lambda>bs.
       bind_res (dec_le bs) (\<lambda>n. Inr (word_of_nat n)))"

definition DBA_getElem_DOUBLE :: "'p DynamicByteArray \<Rightarrow> size_t \<Rightarrow> 64 word res" where
  "DBA_getElem_DOUBLE arr index =
     bind_res (read_bytes (elements arr) (DBA_getElem arr index) 8) (\<lambda>bs.
       bind_res (dec_le bs) (\<lambda>n. Inr (word_of_nat n)))"

definition DBA_getElem_VOIDPTR :: "'p DynamicByteArray \<Rightarrow> size_t \<Rightarrow> 'p res" where
  "DBA_getElem_VOIDPTR arr index =
     bind_res (read_bytes (elements arr) (DBA_getElem arr index) 8) dec_ptr"

definition DBA_getInternalArray :: "'p DynamicByteArray \<Rightarrow> nat \<times> 'p memval list" where
  "DBA_getInternalArray arr = (elements_block arr, elements arr)"

section \<open>The invariant and what the array holds\<close>

definition dba_inv :: "'p DynamicByteArray \<Rightarrow> bool" where
  "dba_inv arr \<longleftrightarrow>
     0 < type_size arr \<and> 0 < capacity arr \<and> nr_of_elements arr \<le> capacity arr \<and>
     unat (capacity arr) * unat (type_size arr) < 2 ^ 63 \<and>
     length (elements arr) = unat (capacity arr) * unat (type_size arr) \<and>
     dba_block arr \<noteq> elements_block arr"

definition dba_elem :: "'p DynamicByteArray \<Rightarrow> nat \<Rightarrow> 'p memval list" where
  "dba_elem arr i = take (unat (type_size arr)) (drop (i * unat (type_size arr)) (elements arr))"

definition dba_contents :: "'p DynamicByteArray \<Rightarrow> 'p memval list list" where
  "dba_contents arr = map (dba_elem arr) [0..<unat (nr_of_elements arr)]"

definition dba_owned :: "'p DynamicByteArray \<Rightarrow> nat set" where
  "dba_owned arr = {dba_block arr, elements_block arr}"

definition dba_fits :: "'p DynamicByteArray \<Rightarrow> 'p memval list \<Rightarrow> bool" where
  "dba_fits arr e \<longleftrightarrow> length e = unat (type_size arr)"

definition dba_small :: "'p DynamicByteArray \<Rightarrow> nat \<Rightarrow> bool" where
  "dba_small arr n \<longleftrightarrow> n * unat (type_size arr) < 2 ^ 62"

lemma length_dba_contents [simp]: "length (dba_contents arr) = unat (nr_of_elements arr)"
  by (simp add: dba_contents_def)

lemma unat_mult_exact: "unat a * unat b < 2 ^ 64 \<Longrightarrow> unat (a * b :: size_t) = unat a * unat b"
  by (simp add: unat_word_ariths)

lemma unat_add_exact: "unat a + unat b < 2 ^ 64 \<Longrightarrow> unat (a + b :: size_t) = unat a + unat b"
  by (simp add: unat_word_ariths)

lemma unat_double_exact: "unat a < 2 ^ 63 \<Longrightarrow> unat (2 * a :: size_t) = 2 * unat a"
  by (subst unat_mult_exact) auto

text \<open>The byte loop, when it stays inside both blocks, overwrites one element.\<close>

lemma DBA_copyBytes_from:
  assumes "unat nr * unat ts + unat ts \<le> length dst" "length dst < 2 ^ 64"
    "unat ts \<le> length src" "unat i \<le> unat ts"
    "take (unat i) (drop (unat nr * unat ts) dst) = take (unat i) src"
  shows "DBA_copyBytes ts nr src dst i =
     Inr (take (unat nr * unat ts) dst @ take (unat ts) src @ drop (unat nr * unat ts + unat ts) dst)"
  using assms
proof (induction ts nr src dst i rule: DBA_copyBytes.induct)
  case (1 ts nr src dst i)
  let ?o = "unat nr * unat ts"
  show ?case
  proof (cases "i < ts")
    case False
    then have "unat i = unat ts" using 1 by (simp add: word_less_nat_alt)
    then have "take ?o dst @ take (unat ts) src @ drop (?o + unat ts) dst = dst"
      using 1 by (metis add.commute append_take_drop_id drop_drop)
    then show ?thesis using False by (simp add: DBA_copyBytes.simps [of ts nr src dst i])
  next
    case True
    then have i: "unat i < unat ts" by (simp add: word_less_nat_alt)
    have off: "unat (nr * ts + i) = ?o + unat i"
      using 1 i by (subst unat_add_exact; subst unat_mult_exact) auto
    have Suc: "unat (i + 1) = Suc (unat i)"
      using True by (rule unat_Suc_less)
    let ?d = "dst[?o + unat i := src ! unat i]"
    have prefix: "take (unat (i + 1)) (drop ?o ?d) = take (unat (i + 1)) src"
      using 1 i Suc by (simp add: take_Suc_conv_app_nth drop_update_swap)
    have "DBA_copyBytes ts nr src ?d (i + 1) =
        Inr (take ?o ?d @ take (unat ts) src @ drop (?o + unat ts) ?d)"
      using "1.IH" True 1 i Suc off prefix by simp
    then show ?thesis
      using True i off 1 by (simp add: DBA_copyBytes.simps [of ts nr src dst i])
  qed
qed

lemma DBA_copyBytes_elem:
  assumes "unat nr * unat ts + unat ts \<le> length dst" "length dst < 2 ^ 64" "length src = unat ts"
  shows "DBA_copyBytes ts nr src dst 0 =
     Inr (take (unat nr * unat ts) dst @ src @ drop (unat nr * unat ts + unat ts) dst)"
  using DBA_copyBytes_from [of nr ts dst src 0] assms by simp

section \<open>The laws of a growable array\<close>

text \<open>Element i lies inside the block as long as i is below the capacity.\<close>

lemma elem_in_block:
  assumes "dba_inv arr" "i < unat (capacity arr)"
  shows "i * unat (type_size arr) + unat (type_size arr) \<le> length (elements arr)"
proof -
  have "Suc i * unat (type_size arr) \<le> unat (capacity arr) * unat (type_size arr)"
    using assms(2) by (intro mult_le_mono1) simp
  then show ?thesis using assms(1) by (simp add: dba_inv_def add.commute)
qed

lemma dba_inv_capacity: "dba_inv arr \<Longrightarrow> unat (capacity arr) < 2 ^ 63"
proof -
  assume inv: "dba_inv arr"
  then have "1 \<le> unat (type_size arr)"
    by (simp add: dba_inv_def word_less_nat_alt)
  then have "unat (capacity arr) * 1 \<le> unat (capacity arr) * unat (type_size arr)"
    by (rule mult_le_mono2)
  also have "\<dots> < 2 ^ 63" using inv by (simp add: dba_inv_def)
  finally show ?thesis by simp
qed

text \<open>Doubling the capacity computes the number of bytes exactly: neither product wraps.\<close>

lemma resize_bytes_exact:
  assumes "dba_inv arr"
  shows "unat (2 * capacity arr) = 2 * unat (capacity arr)"
    and "unat (2 * capacity arr * type_size arr) = 2 * (unat (capacity arr) * unat (type_size arr))"
proof -
  show d: "unat (2 * capacity arr) = 2 * unat (capacity arr)"
    using dba_inv_capacity [OF assms] by (rule unat_double_exact)
  show "unat (2 * capacity arr * type_size arr) = 2 * (unat (capacity arr) * unat (type_size arr))"
    using assms by (subst unat_mult_exact) (simp_all add: d dba_inv_def mult.assoc)
qed

lemma dba_elem_resize:
  assumes "i * unat (type_size arr) + unat (type_size arr) \<le> length (elements arr)"
    "length (elements arr) \<le> n"
  shows "take (unat (type_size arr)) (drop (i * unat (type_size arr)) (resize_block n (elements arr)))
       = dba_elem arr i"
  using assms by (simp add: resize_block_def dba_elem_def)

lemma DBA_resizeArr_double:
  assumes inv: "dba_inv arr" and ok: "heap_ok h" and own: "dba_owned arr \<subseteq> live h"
  obtains (refused) h' where "DBA_resizeArr arr (2 * capacity arr) h = Inr (-1, arr, h')"
      "own_step (dba_owned arr) h (dba_owned arr) h'"
      "\<not> granted (2 * (unat (capacity arr) * unat (type_size arr))) h"
  | (stored) arr' h' where "DBA_resizeArr arr (2 * capacity arr) h = Inr (0, arr', h')" "dba_inv arr'"
      "dba_contents arr' = dba_contents arr" "type_size arr' = type_size arr"
      "nr_of_elements arr' = nr_of_elements arr" "nr_of_elements arr' < capacity arr'"
      "own_step (dba_owned arr) h (dba_owned arr') h'"
proof -
  let ?bytes = "2 * (unat (capacity arr) * unat (type_size arr))"
  have bl: "elements_block arr \<in> live h" "dba_block arr \<in> live h" "dba_block arr \<noteq> elements_block arr"
    using own inv by (auto simp: dba_owned_def dba_inv_def)
  have pos: "?bytes \<noteq> 0"
    using inv by (simp add: dba_inv_def word_less_nat_alt)
  note bytes = resize_bytes_exact [OF inv]
  show thesis
  proof (cases "granted ?bytes h")
    case False
    then have "DBA_resizeArr arr (2 * capacity arr) h = Inr (-1, arr, h\<lparr>fresh := Suc (fresh h)\<rparr>)"
      using bl pos by (simp add: DBA_resizeArr_def crealloc_def bytes)
    moreover have "own_step (dba_owned arr) h (dba_owned arr) (h\<lparr>fresh := Suc (fresh h)\<rparr>)"
      using own by (auto simp: own_step_def heap_le_def heap_ok_def less_SucI)
    ultimately show thesis using refused False by blast
  next
    case True
    let ?arr = "arr\<lparr>elements_block := fresh h, elements := resize_block ?bytes (elements arr),
                    capacity := 2 * capacity arr\<rparr>"
    let ?h = "h\<lparr>live := insert (fresh h) (live h - {elements_block arr}), fresh := Suc (fresh h)\<rparr>"
    have r: "DBA_resizeArr arr (2 * capacity arr) h = Inr (0, ?arr, ?h)"
      using True bl pos by (simp add: DBA_resizeArr_def crealloc_def bytes)
    have small: "?bytes < 2 ^ 63" using True by (simp add: granted_def)
    have len: "length (elements arr) \<le> ?bytes" using inv by (simp add: dba_inv_def)
    have "dba_elem ?arr i = dba_elem arr i" if "i < unat (nr_of_elements arr)" for i
    proof -
      have "i < unat (capacity arr)" using that inv by (simp add: dba_inv_def word_le_nat_alt)
      from dba_elem_resize [OF elem_in_block [OF inv this] len]
      show ?thesis by (simp add: dba_elem_def)
    qed
    then have c: "dba_contents ?arr = dba_contents arr"
      by (simp add: dba_contents_def)
    have cap: "nr_of_elements arr < 2 * capacity arr"
      using inv bytes(1) by (simp add: dba_inv_def word_less_nat_alt word_le_nat_alt)
    have fresh: "fresh h \<noteq> dba_block arr" using ok bl by (auto simp: heap_ok_def)
    have inv': "dba_inv ?arr"
      using inv small cap fresh bytes less_imp_le [OF cap]
      by (simp add: dba_inv_def resize_block_def mult.assoc word_less_nat_alt)
    have "own_step (dba_owned arr) h (dba_owned ?arr) ?h"
      using bl ok by (auto simp: own_step_def heap_le_def heap_ok_def dba_owned_def less_SucI)
    then show thesis using stored [OF r inv' c] cap by simp
  qed
qed

text \<open>Storing into a free slot of the block.\<close>

lemma DBA_store:
  assumes inv: "dba_inv arr" and room: "nr_of_elements arr < capacity arr"
    and fits: "dba_fits arr e"
  obtains es where
    "DBA_copyBytes (type_size arr) (nr_of_elements arr) e (elements arr) 0 = Inr es"
    "dba_inv (arr\<lparr>elements := es, nr_of_elements := nr_of_elements arr + 1\<rparr>)"
    "dba_contents (arr\<lparr>elements := es, nr_of_elements := nr_of_elements arr + 1\<rparr>) =
       dba_contents arr @ [e]"
proof -
  let ?ts = "unat (type_size arr)" and ?n = "unat (nr_of_elements arr)"
  let ?es = "take (?n * ?ts) (elements arr) @ e @ drop (?n * ?ts + ?ts) (elements arr)"
  let ?arr = "arr\<lparr>elements := ?es, nr_of_elements := nr_of_elements arr + 1\<rparr>"
  have n: "?n < unat (capacity arr)" using room by (simp add: word_less_nat_alt)
  have in_block: "?n * ?ts + ?ts \<le> length (elements arr)" by (rule elem_in_block [OF inv n])
  have len_e: "length e = ?ts" using fits by (simp add: dba_fits_def)
  have Suc: "unat (nr_of_elements arr + 1) = Suc ?n" using room by (rule unat_Suc_less)
  have copy: "DBA_copyBytes (type_size arr) (nr_of_elements arr) e (elements arr) 0 = Inr ?es"
    using in_block len_e inv by (intro DBA_copyBytes_elem) (auto simp: dba_inv_def)
  have "dba_elem ?arr i = dba_elem arr i" if "i < ?n" for i
  proof -
    have "Suc i * ?ts \<le> ?n * ?ts" using that by (intro mult_le_mono1) simp
    then have "i * ?ts + ?ts \<le> ?n * ?ts" by simp
    then have "i * ?ts + ?ts \<le> length (take (?n * ?ts) (elements arr))" using in_block by simp
    then show ?thesis
      using \<open>i * ?ts + ?ts \<le> ?n * ?ts\<close> unfolding dba_elem_def by (simp del: length_take)
  qed
  moreover have "dba_elem ?arr ?n = e"
    using in_block len_e by (simp add: dba_elem_def)
  ultimately have "dba_contents ?arr = dba_contents arr @ [e]"
    using Suc by (simp add: dba_contents_def)
  moreover have "dba_inv ?arr"
    using inv in_block len_e n Suc by (simp add: dba_inv_def word_le_nat_alt)
  ultimately show thesis using that copy by blast
qed

text \<open>
  \<open>DBA_addElemToArr\<close>, branch by branch: either the block is full and the allocator refuses to
  double it, and nothing changes; or the element is appended.
\<close>

lemma DBA_add_cases:
  assumes inv: "dba_inv arr" and fits: "dba_fits arr e" and ok: "heap_ok h"
    and own: "dba_owned arr \<subseteq> live h"
  obtains (refused) h' where "DBA_addElemToArr arr e h = Inr (-1, arr, h')"
      "own_step (dba_owned arr) h (dba_owned arr) h'" "nr_of_elements arr = capacity arr"
      "\<not> granted (2 * (unat (capacity arr) * unat (type_size arr))) h"
  | (stored) arr' h' where "DBA_addElemToArr arr e h = Inr (0, arr', h')" "dba_inv arr'"
      "dba_contents arr' = dba_contents arr @ [e]" "type_size arr' = type_size arr"
      "own_step (dba_owned arr) h (dba_owned arr') h'"
proof (cases "nr_of_elements arr = capacity arr")
  case False
  then have room: "nr_of_elements arr < capacity arr"
    using inv by (simp add: dba_inv_def order_less_le)
  obtain es where "DBA_copyBytes (type_size arr) (nr_of_elements arr) e (elements arr) 0 = Inr es"
    "dba_inv (arr\<lparr>elements := es, nr_of_elements := nr_of_elements arr + 1\<rparr>)"
    "dba_contents (arr\<lparr>elements := es, nr_of_elements := nr_of_elements arr + 1\<rparr>) =
       dba_contents arr @ [e]"
    using DBA_store [OF inv room fits] .
  then show thesis
    using False own
    by (intro stored [of "arr\<lparr>elements := es, nr_of_elements := nr_of_elements arr + 1\<rparr>" h])
      (auto simp: DBA_addElemToArr_def dba_owned_def own_step_refl)
next
  case True
  from inv ok own show thesis
  proof (cases rule: DBA_resizeArr_double)
    case (refused h')
    then show thesis using True by (intro that(1)) (simp_all add: DBA_addElemToArr_def)
  next
    case (stored arr1 h1)
    have "dba_fits arr1 e" using fits stored by (simp add: dba_fits_def)
    then obtain es where
      es: "DBA_copyBytes (type_size arr1) (nr_of_elements arr1) e (elements arr1) 0 = Inr es"
      "dba_inv (arr1\<lparr>elements := es, nr_of_elements := nr_of_elements arr1 + 1\<rparr>)"
      "dba_contents (arr1\<lparr>elements := es, nr_of_elements := nr_of_elements arr1 + 1\<rparr>) =
         dba_contents arr1 @ [e]"
      using DBA_store [OF stored(2,6)] by blast
    then show thesis
      using True stored
      by (intro that(2) [of "arr1\<lparr>elements := es, nr_of_elements := nr_of_elements arr1 + 1\<rparr>" h1])
        (auto simp: DBA_addElemToArr_def dba_owned_def)
  qed
qed

lemma dba_small_granted:
  assumes "dba_inv arr" "nr_of_elements arr = capacity arr" "generous h"
    "dba_small arr (length (dba_contents arr))"
  shows "granted (2 * (unat (capacity arr) * unat (type_size arr))) h"
  using assms by (simp add: dba_small_def)

interpretation dba: growable DBA_addElemToArr dba_contents dba_owned dba_fits dba_small dba_inv
proof (unfold_locales, goal_cases)
  case (1 s e h)
  then show ?case by (rule DBA_add_cases) auto
next
  case (2 s e h r s' h')
  from 2(2-5) show ?case
    by (rule DBA_add_cases) (use 2(1,2) in \<open>auto simp: dba_fits_def dba_small_def fun_eq_iff\<close>)
next
  case (3 s e h r s' h')
  from 3(2-5) show ?case by (rule DBA_add_cases) (use 3(1) in auto)
next
  case (4 s e h r s' h')
  from 4(2-5) show ?case by (rule DBA_add_cases) (use 4(1) in auto)
next
  case (5 s e h r s' h')
  from 5(2-5) show ?case
  proof (cases rule: DBA_add_cases)
    case (refused h1)
    then show ?thesis using dba_small_granted [OF 5(2) _ 5(6,7)] by blast
  next
    case (stored arr' h1)
    then show ?thesis using 5(1) by simp
  qed
next
  case (6 s n m)
  from 6(2) have "m * unat (type_size s) \<le> n * unat (type_size s)" by (rule mult_le_mono1)
  with 6(1) show ?case unfolding dba_small_def by linarith
qed

section \<open>Making an array and reading elements back\<close>

lemma DBA_make_cases:
  assumes "0 < ts" "unat ts < 2 ^ 58" "heap_ok h"
  obtains (none) h' where
      "DBA_makeNewDynamicByteArray ts h = Inr (None :: 'p DynamicByteArray option, h')" "live h' = live h"
      "heap_le h h'" "\<not> generous h"
  | (made) arr :: "'p DynamicByteArray" and h' where
      "DBA_makeNewDynamicByteArray ts h = Inr (Some arr, h')" "dba_inv arr"
      "dba_contents arr = []" "type_size arr = ts" "own_step {} h (dba_owned arr) h'"
proof -
  have bytes: "unat (DBA_INITSIZE * ts) = 16 * unat ts"
    using assms(2) by (subst unat_mult_exact) (auto simp: DBA_INITSIZE_def)
  obtain p h1 where m1: "malloc sizeof_DynamicByteArray h = (p, h1)" by fastforce
  show thesis
  proof (cases p)
    case None
    then show thesis using m1 malloc_None [of sizeof_DynamicByteArray h h1]
      by (intro none [of h1])
        (auto simp: DBA_makeNewDynamicByteArray_def sizeof_DynamicByteArray_def)
  next
    case (Some a)
    note a = malloc_Some [OF m1 [unfolded Some]]
    obtain q h2 where m2: "malloc (16 * unat ts) h1 = (q, h2)" by fastforce
    show thesis
    proof (cases q)
      case None
      note n = malloc_None [OF m2 [unfolded None]]
      have "a \<in> live h2" "live h2 - {a} = live h"
        using a n assms(3) by (auto simp: heap_ok_def)
      moreover have "heap_le h (h2\<lparr>live := live h2 - {a}\<rparr>)"
        using a(3) n(2) heap_le_trans heap_le_free by blast
      moreover have "\<not> generous h"
        using n(4) a(3) assms(2) heap_le_generous by fastforce
      ultimately show thesis using m1 m2 Some None
        by (intro none [of "h2\<lparr>live := live h2 - {a}\<rparr>"])
          (auto simp: DBA_makeNewDynamicByteArray_def bytes)
    next
      case (Some b)
      note b = malloc_Some [OF m2 [unfolded Some]]
      let ?arr = "\<lparr>dba_block = a, type_size = ts, nr_of_elements = 0, capacity = DBA_INITSIZE,
                   elements_block = b, elements = replicate (16 * unat ts) Undef\<rparr>"
      have "DBA_makeNewDynamicByteArray ts h = Inr (Some ?arr, h2)"
        using m1 m2 \<open>p = Some a\<close> Some by (simp add: DBA_makeNewDynamicByteArray_def bytes)
      moreover have "dba_inv ?arr"
        using assms(1,2) a b by (simp add: dba_inv_def DBA_INITSIZE_def)
      moreover have "own_step {} h (dba_owned ?arr) h2"
        using a b assms(3) heap_le_trans [OF a(3) b(3)]
        by (auto simp: own_step_def dba_owned_def heap_ok_def)
      ultimately show thesis by (intro made) (auto simp: dba_contents_def)
    qed
  qed
qed

text \<open>The bytes of element i, at the address \<open>DBA_getElem\<close> computes.\<close>

lemma DBA_getElem_read:
  assumes inv: "dba_inv arr" and i: "i < nr_of_elements arr" and n: "n = unat (type_size arr)"
  shows "read_bytes (elements arr) (DBA_getElem arr i) n = Inr (dba_contents arr ! unat i)"
proof -
  have "i < capacity arr" using inv i unfolding dba_inv_def by (blast intro: less_le_trans)
  then have "unat i < unat (capacity arr)" by (simp add: word_less_nat_alt)
  from elem_in_block [OF inv this]
  have in_block: "unat i * unat (type_size arr) + unat (type_size arr) \<le> length (elements arr)" .
  moreover have "length (elements arr) < 2 ^ 63" using inv by (simp add: dba_inv_def)
  ultimately have "DBA_getElem arr i = unat i * unat (type_size arr)"
    unfolding DBA_getElem_def by (intro unat_mult_exact) simp
  then show ?thesis
    using in_block i n by (simp add: read_bytes_def dba_contents_def dba_elem_def word_less_nat_alt)
qed

text \<open>The block of an array is its elements, one after the other, and then its free space.\<close>

lemma take_blocks: "take (n * k) xs = concat (map (\<lambda>i. take k (drop (i * k) xs)) [0..<n])"
proof (induction n)
  case (Suc n)
  have "take (Suc n * k) xs = take (n * k) xs @ take k (drop (n * k) xs)"
    by (metis add.commute mult_Suc take_add)
  with Suc show ?case by simp
qed simp

lemma elements_contents:
  "elements arr = concat (dba_contents arr) @ drop (unat (nr_of_elements arr) * unat (type_size arr)) (elements arr)"
proof -
  have "concat (dba_contents arr) = take (unat (nr_of_elements arr) * unat (type_size arr)) (elements arr)"
    by (simp add: take_blocks dba_contents_def dba_elem_def [abs_def])
  then show ?thesis by simp
qed

lemmas dba_getter_defs = DBA_getElem_CHAR_def DBA_getElem_INT_def DBA_getElem_LONG_def
  DBA_getElem_FLOAT_def DBA_getElem_DOUBLE_def DBA_getElem_VOIDPTR_def

lemma float_getters: "DBA_getElem_FLOAT arr = DBA_getElem_INT arr" "DBA_getElem_DOUBLE arr = DBA_getElem_LONG arr"
  by (simp_all add: dba_getter_defs fun_eq_iff)

text \<open>
  A property of the array as a client sees it. \<open>dba_built\<close> is an array made empty and filled by
  appends that nothing refused.
\<close>

definition dba_built :: "size_t \<Rightarrow> 'p memval list list \<Rightarrow> heap \<Rightarrow> 'p DynamicByteArray option" where
  "dba_built ts es h =
     (case DBA_makeNewDynamicByteArray ts h of
        Inr (Some arr, h1) \<Rightarrow>
          (case push_all DBA_addElemToArr arr es h1 of Inr (arr', h2) \<Rightarrow> Some arr' | _ \<Rightarrow> None)
      | _ \<Rightarrow> None)"

lemma dba_built_contents:
  fixes es :: "'p memval list list"
  assumes "generous h" "heap_ok h" "0 < ts" "unat ts < 2 ^ 58" "length es * unat ts < 2 ^ 62"
    "\<And>e. e \<in> set es \<Longrightarrow> length e = unat ts"
  obtains arr where "dba_built ts es h = Some arr" "dba_inv arr" "dba_contents arr = es"
    "type_size arr = ts"
  using assms(3,4,2)
proof (cases rule: DBA_make_cases [where ?'p = 'p])
  case (none h')
  with assms(1) show ?thesis by simp
next
  case (made arr h1)
  have fits: "\<And>e. e \<in> set es \<Longrightarrow> dba_fits arr e" using assms(6) made by (simp add: dba_fits_def)
  have ok: "heap_ok h1" "dba_owned arr \<subseteq> live h1" "generous h1"
    using made(5) assms(1,2) by (auto simp: own_step_def heap_le_ok heap_le_generous)
  have small: "dba_small arr (length (dba_contents arr) + length es)"
    using assms(5) made by (simp add: dba_small_def)
  obtain arr' h2 where "push_all DBA_addElemToArr arr es h1 = Inr (arr', h2)"
      "dba_contents arr' = dba_contents arr @ es" "dba_inv arr'"
    using dba.push_all_generous [OF made(2) fits ok(1,2,3) small] by blast
  moreover have "type_size arr' = type_size arr"
  proof -
    have "dba_fits arr' = dba_fits arr"
      using dba.push_all_safe [of arr es h1] made(2) fits ok(1,2) calculation(1) by auto
    then have "dba_fits arr' (replicate (unat (type_size arr')) Undef) =
        dba_fits arr (replicate (unat (type_size arr')) Undef)" by simp
    then show ?thesis by (simp add: dba_fits_def word_unat_eq_iff)
  qed
  ultimately show ?thesis using that made by (simp add: dba_built_def)
qed

section \<open>Properties\<close>

text \<open>
  C15. Appending to a dynamic byte array, whatever requests the allocator grants or refuses: the
  call returns 0 or -1 and never touches memory outside the block; on 0 the element is appended
  behind the others, which keep their values although the block may have moved; on -1 the array
  is as it was; no block of anybody else is freed or taken.
\<close>

theorem DBA_add_correct:
  assumes "dba_inv arr" "length e = unat (type_size arr)" "heap_ok h" "dba_owned arr \<subseteq> live h"
  shows "\<exists>r arr' h'. DBA_addElemToArr arr e h = Inr (r, arr', h') \<and> dba_inv arr' \<and>
           (r = 0 \<and> dba_contents arr' = dba_contents arr @ [e] \<or> r = -1 \<and> arr' = arr) \<and>
           dba_owned arr' \<subseteq> live h' \<and> live h' - dba_owned arr' = live h - dba_owned arr"
proof -
  have fits: "dba_fits arr e" using assms(2) by (simp add: dba_fits_def)
  from assms(1) fits assms(3,4) show ?thesis
    by (rule DBA_add_cases) (use assms(1) in \<open>auto simp: own_step_def\<close>)
qed

definition sample_dba :: "nat DynamicByteArray" where
  "sample_dba = \<lparr>dba_block = 0, type_size = 2, nr_of_elements = 1, capacity = 1, elements_block = 1,
                 elements = [Byte CHR ''h'', Byte CHR ''i'']\<rparr>"

lemma sample_dba_inv [simp]: "dba_inv sample_dba"
  by (simp add: dba_inv_def sample_dba_def)

theorem DBA_add_correct_witness:
  "\<exists>r arr' h'. DBA_addElemToArr sample_dba [Byte CHR ''y'', Byte CHR ''o'']
       \<lparr>live = {0, 1, 7}, fresh = 8, grants = (\<lambda>k n. True)\<rparr> = Inr (r, arr', h') \<and> dba_inv arr' \<and>
     (r = 0 \<and> dba_contents arr' = dba_contents sample_dba @ [[Byte CHR ''y'', Byte CHR ''o'']] \<or>
      r = -1 \<and> arr' = sample_dba) \<and>
     dba_owned arr' \<subseteq> live h' \<and> live h' - dba_owned arr' = {0, 1, 7} - dba_owned sample_dba"
  using DBA_add_correct [of sample_dba "[Byte CHR ''y'', Byte CHR ''o'']"
      "\<lparr>live = {0, 1, 7}, fresh = 8, grants = (\<lambda>k n. True)\<rparr>"]
  by (simp add: heap_ok_def dba_owned_def) (simp add: sample_dba_def)

text \<open>
  C18. An array of ints gives every int back: make an array of 4-byte elements, append any number
  of ints (up to the size a block can have, so through any number of doublings of the block), and
  \<open>DBA_getElem_INT\<close> at index i reads the i-th of them.
\<close>

theorem DBA_int_roundtrip:
  assumes "generous h" "heap_ok h" "length xs < 2 ^ 60" "i < length xs"
  shows "\<exists>arr :: 'p DynamicByteArray. dba_built 4 (map (\<lambda>x. enc_le 4 (unat x)) xs) h = Some arr \<and>
           DBA_getElem_INT arr (word_of_nat i) = Inr (xs ! i)"
proof -
  obtain arr :: "'p DynamicByteArray" where arr: "dba_built 4 (map (\<lambda>x. enc_le 4 (unat x)) xs) h = Some arr" "dba_inv arr"
      "dba_contents arr = map (\<lambda>x. enc_le 4 (unat x)) xs" "type_size arr = 4"
    by (rule dba_built_contents [of h 4 "map (\<lambda>x. enc_le 4 (unat x)) xs"]) (use assms in auto)
  have n: "unat (nr_of_elements arr) = length xs"
    using arr(3) length_dba_contents [of arr] by simp
  have i: "unat (word_of_nat i :: size_t) = i"
    using assms by (simp add: unat_of_nat)
  then have "(word_of_nat i :: size_t) < nr_of_elements arr"
    using n assms(4) by (simp add: word_less_nat_alt)
  from DBA_getElem_read [OF arr(2) this, of 4] arr(3,4) i assms(4)
  have "read_bytes (elements arr) (DBA_getElem arr (word_of_nat i)) 4 = Inr (enc_le 4 (unat (xs ! i)))"
    by simp
  moreover have "unat (xs ! i) < 2 ^ 32" using unsigned_less [of "xs ! i"] by simp
  ultimately show ?thesis using arr(1) by (simp add: DBA_getElem_INT_def)
qed

theorem DBA_int_roundtrip_witness:
  "\<exists>arr :: nat DynamicByteArray.
     dba_built 4 (map (\<lambda>x. enc_le 4 (unat x)) [7 :: 32 word, 0 - 1, 70000]) (new_heap (\<lambda>k n. True)) = Some arr \<and>
     DBA_getElem_INT arr (word_of_nat 2) = Inr ([7, 0 - 1, 70000] ! 2)"
  by (rule DBA_int_roundtrip) simp_all

end
