(* ===== verification/Input.thy ===== *)
theory Input
  imports DynamicByteArray
begin

text \<open>
  The input handling of the iwish shell (\<open>readInput\<close> and \<open>tokenise\<close> of Lab2/iwish/src/iwish.c).
  A stream is the list of the characters still to come. \<open>fgetc\<close> answers EOF at its end for ever,
  and stored in a \<open>char\<close>, as the code does, EOF is the character 0xFF. The loop of \<open>readInput\<close>
  may run for ever; it is a \<open>partial_function\<close>, and not returning is the value \<open>None\<close>.
  \<open>strtok\<close> is the library function, working on the buffer: a token is an offset into it.
\<close>

section \<open>readInput\<close>

definition fgetc :: "string \<Rightarrow> char \<times> string" where
  "fgetc s = (case s of [] \<Rightarrow> (CHR 0xFF, []) | c # s' \<Rightarrow> (c, s'))"

type_synonym byte_array = "nat option DynamicByteArray"

definition add_char :: "byte_array \<Rightarrow> char \<Rightarrow> heap \<Rightarrow> (int \<times> byte_array \<times> heap) res" where
  "add_char arr c h = DBA_addElemToArr arr (enc_char c) h"

text \<open>
  The \<open>while\<close> loop. In the branch of a backslash that does not end the line the code appends the
  backslash and the character after it, and falls through to append the backslash once more;
  what \<open>DBA_addElemToArr\<close> answers is not looked at.
\<close>

partial_function (option) readInput_loop :: "string \<Rightarrow> byte_array \<Rightarrow> heap
    \<Rightarrow> (byte_array \<times> string \<times> heap) res option" where
  "readInput_loop stream arr h =
     (case fgetc stream of (c, s1) \<Rightarrow>
        if c = CHR 0x0A then Some (Inr (arr, s1, h))
        else if c = CHR 0x5C then
          (case fgetc s1 of (c2, s2) \<Rightarrow>
             if c2 \<noteq> CHR 0x0A then
               (case push_all add_char arr [c, c2, c] h of
                  Inl u \<Rightarrow> Some (Inl u)
                | Inr (arr1, h1) \<Rightarrow> readInput_loop s2 arr1 h1)
             else readInput_loop s2 arr h)
        else
          (case push_all add_char arr [c] h of
             Inl u \<Rightarrow> Some (Inl u)
           | Inr (arr1, h1) \<Rightarrow> readInput_loop s1 arr1 h1))"

declare readInput_loop.simps [code]

text \<open>The answer is the block of the characters (\<open>None\<close>: NULL) with its bytes.\<close>

definition readInput :: "string \<Rightarrow> heap \<Rightarrow> ((nat \<times> nat option memval list) option \<times> string \<times> heap) res option" where
  "readInput stream h =
     (case DBA_makeNewDynamicByteArray 1 h of
        Inl u \<Rightarrow> Some (Inl u)
      | Inr (None, h1) \<Rightarrow> Some (Inr (None, stream, h1))
      | Inr (Some arr, h1) \<Rightarrow>
          (case readInput_loop stream arr h1 of
             None \<Rightarrow> None
           | Some r \<Rightarrow> Some (bind_res r (\<lambda>(arr1, s1, h2).
               bind_res (add_char arr1 NUL h2) (\<lambda>(r2, arr2, h3).
               bind_res (mfree (Some (dba_block arr2)) h3) (\<lambda>h4.
                 Inr (Some (elements_block arr2, elements arr2), s1, h4)))))))"

section \<open>What readInput reads\<close>

text \<open>
  The characters stored for a line, and the rest of the stream; \<open>None\<close> when the stream ends
  before the line does.
\<close>

fun read_line :: "string \<Rightarrow> (string \<times> string) option" where
  "read_line [] = None"
| "read_line (c # s) =
     (if c = CHR 0x0A then Some ([], s)
      else if c = CHR 0x5C then
        (case s of [] \<Rightarrow> None
         | c2 # s2 \<Rightarrow> map_option (\<lambda>(l, r). ((if c2 = CHR 0x0A then [] else [c, c2, c]) @ l, r)) (read_line s2))
      else map_option (\<lambda>(l, r). (c # l, r)) (read_line s))"

definition char_array :: "byte_array \<Rightarrow> heap \<Rightarrow> bool" where
  "char_array arr h \<longleftrightarrow> dba_inv arr \<and> type_size arr = 1 \<and> heap_ok h \<and> dba_owned arr \<subseteq> live h"

lemma push_chars_eq: "push_all add_char arr cs h = push_all DBA_addElemToArr arr (map enc_char cs) h"
  by (induction cs arbitrary: arr h) (auto simp: add_char_def intro!: bind_res_cong)

lemma dba_fits_type: "dba_fits arr = dba_fits arr' \<Longrightarrow> type_size arr = type_size arr'"
proof -
  assume "dba_fits arr = dba_fits arr'"
  then have "dba_fits arr (replicate (unat (type_size arr)) Undef) =
      dba_fits arr' (replicate (unat (type_size arr)) Undef)" by simp
  then show ?thesis by (simp add: dba_fits_def word_unat_eq_iff)
qed

lemma push_chars:
  assumes "char_array arr h"
  obtains arr' h' where "push_all add_char arr cs h = Inr (arr', h')" "char_array arr' h'"
    "own_step (dba_owned arr) h (dba_owned arr') h'"
    "generous h \<Longrightarrow> length (dba_contents arr) + length cs < 2 ^ 62 \<Longrightarrow>
       dba_contents arr' = dba_contents arr @ map enc_char cs"
proof -
  have pre: "dba_inv arr" "heap_ok h" "dba_owned arr \<subseteq> live h"
    "\<And>e. e \<in> set (map enc_char cs) \<Longrightarrow> dba_fits arr e"
    using assms by (auto simp: char_array_def dba_fits_def)
  obtain arr' h' where r: "push_all DBA_addElemToArr arr (map enc_char cs) h = Inr (arr', h')"
    "dba_inv arr'" "heap_ok h'" "own_step (dba_owned arr) h (dba_owned arr') h'" "dba_fits arr' = dba_fits arr"
    using dba.push_all_safe [OF pre(1) pre(4) pre(2,3)] by blast
  have ty: "type_size arr' = 1" using dba_fits_type [OF r(5)] assms by (simp add: char_array_def)
  have "dba_contents arr' = dba_contents arr @ map enc_char cs"
    if "generous h" "length (dba_contents arr) + length cs < 2 ^ 62"
  proof -
    have "dba_small arr (length (dba_contents arr) + length (map enc_char cs))"
      using that assms by (simp add: dba_small_def char_array_def)
    then show ?thesis using dba.push_all_generous [OF pre(1) pre(4) pre(2,3) that(1)] r(1) by fastforce
  qed
  then show thesis using that [of arr' h'] r ty own_step_owned [OF r(4)] by (auto simp: push_chars_eq char_array_def)
qed

lemma readInput_loop_line:
  assumes "read_line s = Some (l, rest)" "char_array arr h" "generous h"
    "length (dba_contents arr) + length l < 2 ^ 62"
  shows "\<exists>arr' h'. readInput_loop s arr h = Some (Inr (arr', rest, h')) \<and> char_array arr' h' \<and>
    own_step (dba_owned arr) h (dba_owned arr') h' \<and> dba_contents arr' = dba_contents arr @ map enc_char l"
  using assms
proof (induction s arbitrary: l arr h rule: read_line.induct)
  case (2 c s)
  note unfold = readInput_loop.simps [of "c # s" arr h]
  consider (line_end) "c = CHR 0x0A" | (backslash) "c = CHR 0x5C" | (plain) "c \<noteq> CHR 0x0A" "c \<noteq> CHR 0x5C" by blast
  then show ?case
  proof cases
    case line_end
    then have "l = []" "rest = s" using 2(3) by auto
    then show ?thesis
      unfolding unfold using line_end 2(4) by (simp add: fgetc_def own_step_refl char_array_def)
  next
    case plain
    then obtain l2 where l2: "read_line s = Some (l2, rest)" "l = c # l2" using 2(3) by auto
    obtain arr1 h1 where p: "push_all add_char arr [c] h = Inr (arr1, h1)" "char_array arr1 h1"
      "own_step (dba_owned arr) h (dba_owned arr1) h1" "dba_contents arr1 = dba_contents arr @ map enc_char [c]"
      using push_chars [OF 2(4), of "[c]"] 2(5,6) l2 by auto
    have g: "generous h1" using p(3) 2(5) heap_le_generous own_step_le by blast
    have "length (dba_contents arr1) + length l2 < 2 ^ 62"
      using arg_cong [OF p(4), of length] 2(6) l2(2) by simp
    then obtain arr' h' where "readInput_loop s arr1 h1 = Some (Inr (arr', rest, h'))" "char_array arr' h'"
      "own_step (dba_owned arr1) h1 (dba_owned arr') h'" "dba_contents arr' = dba_contents arr1 @ map enc_char l2"
      using 2(2) [OF plain l2(1) p(2) g] by blast
    moreover have "readInput_loop (c # s) arr h = readInput_loop s arr1 h1"
      unfolding unfold using plain p(1) by (simp add: fgetc_def del: push_all.simps)
    ultimately show ?thesis using p(4) l2(2) own_step_trans [OF p(3)] by auto
  next
    case backslash
    then obtain c2 s2 l2 where s: "s = c2 # s2" "read_line s2 = Some (l2, rest)"
      "l = (if c2 = CHR 0x0A then [] else [c, c2, c]) @ l2" using 2(3) by (auto split: list.splits)
    let ?cs = "if c2 = CHR 0x0A then [] else [c, c2, c]"
    obtain arr1 h1 where p: "push_all add_char arr ?cs h = Inr (arr1, h1)" "char_array arr1 h1"
      "own_step (dba_owned arr) h (dba_owned arr1) h1" "dba_contents arr1 = dba_contents arr @ map enc_char ?cs"
      using push_chars [OF 2(4), of ?cs] 2(5,6) s by auto
    have g: "generous h1" using p(3) 2(5) heap_le_generous own_step_le by blast
    have "length (dba_contents arr1) + length l2 < 2 ^ 62"
      using arg_cong [OF p(4), of length] 2(6) s(3) by (auto split: if_splits)
    then obtain arr' h' where "readInput_loop s2 arr1 h1 = Some (Inr (arr', rest, h'))" "char_array arr' h'"
      "own_step (dba_owned arr1) h1 (dba_owned arr') h'" "dba_contents arr' = dba_contents arr1 @ map enc_char l2"
      using 2(1) [OF _ backslash s(1,2) p(2) g] backslash by auto
    moreover have "readInput_loop (c # s) arr h = readInput_loop s2 arr1 h1"
      unfolding unfold using backslash p(1) s(1)
      by (cases "c2 = CHR 0x0A") (simp_all add: fgetc_def del: push_all.simps(2))
    ultimately show ?thesis
      using p(4) s(3) own_step_trans [OF p(3)] by auto
  qed
qed simp

text \<open>The loop returns only at the end of a line.\<close>

lemma readInput_loop_returns:
  assumes "readInput_loop s arr h = Some r" "char_array arr h"
  shows "read_line s \<noteq> None"
proof -
  have "char_array arr h \<longrightarrow> read_line s \<noteq> None"
  proof (rule readInput_loop.raw_induct [OF _ assms(1), of "\<lambda>s arr h r. char_array arr h \<longrightarrow> read_line s \<noteq> None"],
      goal_cases)
    case (1 f s arr h r)
    show ?case
    proof
      assume a: "char_array arr h"
      show "read_line s \<noteq> None"
      proof (cases s)
        case Nil
        obtain arr1 h1 where "push_all add_char arr [CHR 0xFF] h = Inr (arr1, h1)" "char_array arr1 h1"
          using push_chars [OF a] .
        then show ?thesis using 1(1) [of "[]" arr1 h1 r] 1(2) Nil by (auto simp: fgetc_def simp del: push_all.simps)
      next
        case (Cons c s1)
        show ?thesis
        proof (cases s1)
          case Nil
          obtain arr1 h1 where "push_all add_char arr [c] h = Inr (arr1, h1)" "char_array arr1 h1"
            using push_chars [OF a] .
          moreover obtain arr2 h2 where "push_all add_char arr [c, CHR 0xFF, c] h = Inr (arr2, h2)" "char_array arr2 h2"
            using push_chars [OF a] .
          ultimately show ?thesis using 1 Cons Nil by (fastforce simp: fgetc_def split: if_splits simp del: push_all.simps)
        next
          case (Cons c2 s2)
          obtain arr1 h1 where "push_all add_char arr [c] h = Inr (arr1, h1)" "char_array arr1 h1"
            using push_chars [OF a] .
          moreover obtain arr2 h2 where "push_all add_char arr [c, c2, c] h = Inr (arr2, h2)" "char_array arr2 h2"
            using push_chars [OF a] .
          ultimately show ?thesis using 1 Cons \<open>s = c # s1\<close> a by (fastforce simp: fgetc_def split: if_splits simp del: push_all.simps)
        qed
      qed
    qed
  qed
  then show ?thesis using assms(2) by blast
qed

lemma char_array_made:
  assumes "heap_ok h"
  obtains (none) h' where "DBA_makeNewDynamicByteArray 1 h = Inr (None :: byte_array option, h')" "\<not> generous h"
  | (made) arr :: byte_array and h' where "DBA_makeNewDynamicByteArray 1 h = Inr (Some arr, h')"
      "char_array arr h'" "dba_contents arr = []" "own_step {} h (dba_owned arr) h'"
proof -
  have sz: "(0 :: size_t) < 1" "unat (1 :: size_t) < 2 ^ 58" by simp_all
  show thesis
    using sz assms
  proof (cases rule: DBA_make_cases [where ?'p = "nat option"])
    case (none h')
    then show thesis using that(1) by blast
  next
    case (made arr h')
    then show thesis using that(2) [of arr h'] assms
      by (auto simp: char_array_def own_step_def heap_le_ok)
  qed
qed

text \<open>An array of characters in memory.\<close>

lemma elements_of_chars:
  assumes "dba_inv arr" "type_size arr = 1" "dba_contents arr = map enc_char cs"
  shows "take (length cs) (elements arr) = map Byte cs"
proof -
  have n: "unat (nr_of_elements arr) = length cs"
    using arg_cong [OF assms(3), of length] by simp
  have "take (length cs) (elements arr) = concat (map (dba_elem arr) [0..<length cs])"
    using take_blocks [of "length cs" 1 "elements arr"] assms(2) by (simp add: dba_elem_def [abs_def])
  also have "\<dots> = concat (map enc_char cs)" using assms(3) n by (simp add: dba_contents_def)
  also have "\<dots> = map Byte cs" by (induction cs) (simp_all add: enc_char_def)
  finally show ?thesis .
qed

section \<open>tokenise\<close>

text \<open>
  \<open>strtok(s, " ")\<close> from offset \<open>p\<close> of the buffer: the offset of the token or NULL, the buffer, in
  which the space after the token has become a NUL, and where the next call goes on.
\<close>

definition skip_spaces :: "string \<Rightarrow> nat \<Rightarrow> nat" where
  "skip_spaces buf p = p + length (takeWhile (\<lambda>c. c = CHR '' '') (drop p buf))"

definition token_end :: "string \<Rightarrow> nat \<Rightarrow> nat" where
  "token_end buf p = p + length (takeWhile (\<lambda>c. c \<noteq> CHR '' '' \<and> c \<noteq> NUL) (drop p buf))"

definition strtok :: "string \<Rightarrow> nat \<Rightarrow> (nat option \<times> string \<times> nat) res" where
  "strtok buf p =
     (let b = skip_spaces buf p; e = token_end buf b in
      if length buf \<le> e then Inl Out_Of_Bounds
      else if buf ! b = NUL then Inr (None, buf, b)
      else if buf ! e = NUL then Inr (Some b, buf, e)
      else Inr (Some b, buf[e := NUL], Suc e))"

lemma strtok_progress:
  assumes "strtok buf p = Inr (Some b, buf', q)"
  shows "p < q" "q \<le> length buf" "length buf' = length buf"
proof -
  let ?b = "skip_spaces buf p" let ?e = "token_end buf ?b"
  have e: "?e < length buf" "buf ! ?b \<noteq> NUL" "b = ?b"
    using assms by (auto simp: strtok_def Let_def split: if_splits)
  have le: "p \<le> ?b" "?b \<le> ?e" by (simp_all add: skip_spaces_def token_end_def)
  have "drop ?b buf = dropWhile (\<lambda>c. c = CHR '' '') (drop p buf)"
    by (simp add: skip_spaces_def dropWhile_eq_drop add.commute)
  moreover have d: "drop ?b buf = buf ! ?b # drop (Suc ?b) buf" using e le by (simp add: Cons_nth_drop_Suc)
  ultimately have "dropWhile (\<lambda>c. c = CHR '' '') (drop p buf) = buf ! ?b # drop (Suc ?b) buf" by simp
  then have "buf ! ?b \<noteq> CHR '' ''" unfolding dropWhile_eq_Cons_conv by blast
  then have "?b < ?e" using d e(2) by (simp add: token_end_def)
  then show "p < q" "q \<le> length buf" "length buf' = length buf"
    using assms le e by (auto simp: strtok_def Let_def split: if_splits)
qed

lemma strtok_measure: "strtok buf p = Inr (Some b, buf', q) \<Longrightarrow> length buf' - q < length buf - p"
  using strtok_progress [of buf p b buf' q] by linarith

text \<open>
  The loop of \<open>tokenise\<close>: \<open>strtok\<close>, append what it answered, stop after the NULL. The answer is the
  array (\<open>None\<close> when an append failed, with the array freed as the code does), the buffer and the heap.
\<close>

function tokenise_loop :: "string \<Rightarrow> nat \<Rightarrow> byte_array \<Rightarrow> heap
    \<Rightarrow> (byte_array option \<times> string \<times> heap) res" where
  "tokenise_loop buf p arr h =
     bind_res (strtok buf p) (\<lambda>(token, buf1, p1).
     bind_res (DBA_addElemToArr arr (enc_ptr token) h) (\<lambda>(r, arr1, h1).
       if r < 0 then bind_res (mfree (Some (dba_block arr1)) h1) (\<lambda>h2. Inr (None, buf1, h2))
       else (case token of
               None \<Rightarrow> Inr (Some arr1, buf1, h1)
             | Some b \<Rightarrow> tokenise_loop buf1 p1 arr1 h1)))"
  by pat_completeness auto
termination
  by (relation "measure (\<lambda>(buf, p, arr, h). length buf - p)") (auto intro: strtok_measure)

declare tokenise_loop.simps [simp del]

definition tokenise :: "string \<Rightarrow> heap \<Rightarrow> ((nat \<times> nat option memval list) option \<times> string \<times> heap) res" where
  "tokenise input h =
     bind_res (DBA_makeNewDynamicByteArray 8 h) (\<lambda>(a, h1).
       case a of
         None \<Rightarrow> Inr (None, input, h1)
       | Some arr \<Rightarrow> bind_res (tokenise_loop input 0 arr h1) (\<lambda>(a2, buf, h2).
           case a2 of
             None \<Rightarrow> Inr (None, buf, h2)
           | Some arr2 \<Rightarrow> bind_res (mfree (Some (dba_block arr2)) h2) (\<lambda>h3.
               Inr (Some (elements_block arr2, elements arr2), buf, h3))))"

text \<open>The string at an offset of a buffer, and the strings an array of offsets points to.\<close>

definition string_at :: "string \<Rightarrow> nat \<Rightarrow> string" where
  "string_at buf b = cstr (drop b buf)"

definition strings_of :: "string \<Rightarrow> nat option memval list \<Rightarrow> string list res" where
  "strings_of buf bytes = bind_res (read_ptrs bytes) (\<lambda>ps. Inr (map (string_at buf) ps))"

text \<open>What tokenising is meant to compute: the maximal runs of characters other than spaces.\<close>

function split_words :: "string \<Rightarrow> string list" where
  "split_words s =
     (case dropWhile (\<lambda>c. c = CHR '' '') s of
        [] \<Rightarrow> []
      | t \<Rightarrow> takeWhile (\<lambda>c. c \<noteq> CHR '' '') t # split_words (dropWhile (\<lambda>c. c \<noteq> CHR '' '') t))"
  by pat_completeness auto
termination
proof (relation "measure length", goal_cases)
  case (2 s c t)
  have "length (c # t) \<le> length s" using 2 length_dropWhile_le [of "\<lambda>c. c = CHR '' ''" s] by simp
  moreover have "c \<noteq> CHR '' ''" using 2 unfolding dropWhile_eq_Cons_conv by blast
  ultimately show ?case
    using length_dropWhile_le [of "\<lambda>c. c \<noteq> CHR '' ''" t] by simp
qed simp

declare split_words.simps [simp del]

lemma split_words_spaces: "dropWhile (\<lambda>c. c = CHR '' '') s = [] \<Longrightarrow> split_words s = []"
  by (subst split_words.simps) (simp only: list.case)

lemma split_words_word:
  assumes "dropWhile (\<lambda>c. c = CHR '' '') s = w @ r" "w \<noteq> []" "\<forall>c \<in> set w. c \<noteq> CHR '' ''"
    "r = [] \<or> hd r = CHR '' ''"
  shows "split_words s = w # split_words r"
proof -
  have "takeWhile (\<lambda>c. c \<noteq> CHR '' '') (w @ r) = w \<and> dropWhile (\<lambda>c. c \<noteq> CHR '' '') (w @ r) = r"
    using assms(3,4) by (cases r) (auto simp: takeWhile_append dropWhile_append)
  then show ?thesis using assms(1,2) by (subst split_words.simps) (cases w; simp)
qed

lemma split_words_space [simp]: "split_words (CHR '' '' # s) = split_words s"
  by (subst (1 2) split_words.simps) simp

text \<open>A string is spaces only, or spaces, a word, and a rest that starts with a space.\<close>

lemma words_cases:
  obtains (spaces) "\<forall>c \<in> set s. c = CHR '' ''" "split_words s = []"
  | (word) sp w r s1 where "s = sp @ w @ r" "\<forall>c \<in> set sp. c = CHR '' ''" "w \<noteq> []"
      "\<forall>c \<in> set w. c \<noteq> CHR '' ''" "r = [] \<or> hd r = CHR '' ''" "s1 = (if r = [] then [] else tl r)"
      "split_words s = w # split_words s1" "length s1 < length s"
proof (cases "dropWhile (\<lambda>c. c = CHR '' '') s = []")
  case True
  then show thesis using spaces split_words_spaces by (simp add: dropWhile_eq_Nil_conv)
next
  case False
  obtain t where t: "t = dropWhile (\<lambda>c. c = CHR '' '') s" by blast
  obtain w r where wr: "w = takeWhile (\<lambda>c. c \<noteq> CHR '' '') t" "r = dropWhile (\<lambda>c. c \<noteq> CHR '' '') t" by blast
  obtain sp where sp: "sp = takeWhile (\<lambda>c. c = CHR '' '') s" by blast
  have s: "s = sp @ t" and tw: "t = w @ r" by (simp_all add: t sp wr)
  have sp2: "\<forall>c \<in> set sp. c = CHR '' ''" using sp by (auto dest: set_takeWhileD)
  have w: "w \<noteq> []" using False hd_dropWhile [OF False] by (simp add: wr takeWhile_eq_Nil_iff t)
  have w2: "\<forall>c \<in> set w. c \<noteq> CHR '' ''" using wr by (auto dest: set_takeWhileD)
  have r: "r = [] \<or> hd r = CHR '' ''" using hd_dropWhile [of "\<lambda>c. c \<noteq> CHR '' ''" t] wr(2) by auto
  have "split_words s = w # split_words r"
    using split_words_word [of s w r] w w2 r t tw by simp
  moreover have "split_words r = split_words (if r = [] then [] else tl r)" using r by (cases r) auto
  moreover have "length (if r = [] then [] else tl r) < length s" using s tw w by (cases w) auto
  ultimately show thesis using word [of sp w r] s tw sp2 w w2 r by simp
qed

lemma split_words_length: "length (split_words s) \<le> length s"
proof (induction "length s" arbitrary: s rule: less_induct)
  case less
  show ?case
  proof (cases s rule: words_cases)
    case spaces
    then show ?thesis by simp
  next
    case (word sp w r s1)
    then show ?thesis using less [OF word(8)] by simp
  qed
qed

lemma takeWhile_stop: "\<forall>x \<in> set xs. P x \<Longrightarrow> ys \<noteq> [] \<Longrightarrow> \<not> P (hd ys) \<Longrightarrow> takeWhile P (xs @ ys) = xs"
  by (cases ys) (auto simp: takeWhile_append)

lemma string_atI:
  assumes "drop b buf = w @ NUL # rest" "c_string w"
  shows "string_at buf b = w"
  using assms by (auto simp: string_at_def cstr_def c_string_def takeWhile_append)

text \<open>
  One \<open>strtok\<close> on a buffer that holds the string \<open>s\<close> from offset \<open>p\<close> on: at the spaces before the
  NUL there is no token; otherwise the token is the first word of \<open>s\<close>, and the rest of \<open>s\<close> is what
  the next call finds.
\<close>

lemma drop_nth: "drop p xs = ys @ z # zs \<Longrightarrow> xs ! (p + length ys) = z \<and> p + length ys < length xs"
proof -
  assume d: "drop p xs = ys @ z # zs"
  then have "length (drop p xs) = length ys + Suc (length zs)" by simp
  then have l: "p + length ys < length xs" by simp
  then have "xs ! (p + length ys) = drop p xs ! length ys" by simp
  with d l show ?thesis by simp
qed

lemma drop_further: "drop p xs = ys @ zs \<Longrightarrow> drop (p + length ys) xs = zs"
  by (metis add.commute append_eq_conv_conj drop_drop)

lemma strtok_none:
  assumes "drop p buf = s @ NUL # junk" "\<forall>c \<in> set s. c = CHR '' ''"
  shows "\<exists>q. strtok buf p = Inr (None, buf, q)"
proof -
  have b: "skip_spaces buf p = p + length s"
    using assms by (simp add: skip_spaces_def takeWhile_stop NUL_def)
  have "drop (p + length s) buf = NUL # junk" using drop_further [OF assms(1)] .
  then have e: "token_end buf (p + length s) = p + length s" by (simp add: token_end_def)
  show ?thesis using drop_nth [OF assms(1)] by (simp add: strtok_def Let_def b e)
qed

lemma strtok_some:
  assumes d: "drop p buf = sp @ w @ r @ NUL # junk" and sp: "\<forall>c \<in> set sp. c = CHR '' ''"
    and w: "w \<noteq> []" "\<forall>c \<in> set w. c \<noteq> CHR '' ''" "c_string w" and r: "r = [] \<or> hd r = CHR '' ''"
  shows "\<exists>buf' q. strtok buf p = Inr (Some (p + length sp), buf', q) \<and> length buf' = length buf \<and>
    drop q buf' = (if r = [] then [] else tl r) @ NUL # junk \<and>
    p + length sp + length w \<le> q \<and> buf' ! (p + length sp + length w) = NUL \<and>
    (\<forall>i < length buf. i \<noteq> p + length sp + length w \<longrightarrow> buf' ! i = buf ! i)"
proof -
  let ?b = "p + length sp"
  have b: "skip_spaces buf p = ?b"
    using d sp w takeWhile_stop [of sp "\<lambda>c. c = CHR '' ''" "w @ r @ NUL # junk"]
    by (cases w) (simp_all add: skip_spaces_def)
  have db: "drop ?b buf = w @ r @ NUL # junk" using drop_further [OF d] .
  have "takeWhile (\<lambda>c. c \<noteq> CHR '' '' \<and> c \<noteq> NUL) (w @ (r @ NUL # junk)) = w"
  proof (rule takeWhile_stop)
    show "\<forall>c \<in> set w. c \<noteq> CHR '' '' \<and> c \<noteq> NUL" using w by (auto simp: c_string_def)
    show "\<not> (hd (r @ NUL # junk) \<noteq> CHR '' '' \<and> hd (r @ NUL # junk) \<noteq> NUL)" using r by (cases r) auto
  qed simp
  then have e: "token_end buf ?b = ?b + length w" by (simp add: token_end_def db)
  have de: "drop (?b + length w) buf = r @ NUL # junk" using drop_further [OF db] .
  obtain x ws where x: "w = x # ws" using w by (cases w) auto
  have "buf ! ?b = x" using drop_nth [of ?b buf "[]" x "ws @ r @ NUL # junk"] db x by simp
  then have nb: "buf ! ?b \<noteq> NUL" using w x by simp
  have le: "?b + length w < length buf" using de by (metis append_is_Nil_conv drop_all list.distinct(1) not_le)
  show ?thesis
  proof (cases r)
    case Nil
    then have "buf ! (?b + length w) = NUL" using drop_nth [of "?b + length w" buf "[]" NUL junk] de by simp
    then show ?thesis using Nil de le nb by (simp add: strtok_def Let_def b e)
  next
    case (Cons c r')
    then have c: "buf ! (?b + length w) = CHR '' ''" using drop_nth [of "?b + length w" buf "[]" c "r' @ NUL # junk"] de r by simp
    have "drop (Suc (?b + length w)) buf = r' @ NUL # junk"
      using drop_further [of "?b + length w" buf "[c]"] de Cons by simp
    then show ?thesis using Cons c le nb by (simp add: strtok_def Let_def b e NUL_def)
  qed
qed

text \<open>An array of offsets under construction, and one more append.\<close>

definition offset_array :: "byte_array \<Rightarrow> heap \<Rightarrow> bool" where
  "offset_array arr h \<longleftrightarrow> dba_inv arr \<and> type_size arr = 8 \<and> heap_ok h \<and> dba_owned arr \<subseteq> live h"

lemma offset_added:
  assumes "offset_array arr h" "generous h" "length (dba_contents arr) < 2 ^ 58"
  obtains arr' h' where "DBA_addElemToArr arr (enc_ptr q) h = Inr (0, arr', h')" "offset_array arr' h'"
    "dba_contents arr' = dba_contents arr @ [enc_ptr q]" "own_step (dba_owned arr) h (dba_owned arr') h'"
    "generous h'"
proof -
  have pre: "dba_inv arr" "dba_fits arr (enc_ptr q)" "heap_ok h" "dba_owned arr \<subseteq> live h"
    using assms(1) by (auto simp: offset_array_def dba_fits_def)
  show thesis
    using pre
  proof (cases rule: DBA_add_cases)
    case (refused h')
    have "dba_small arr (length (dba_contents arr))"
      using assms by (simp add: dba_small_def offset_array_def)
    then show thesis using refused(4) dba_small_granted [OF pre(1) refused(3) assms(2)] by blast
  next
    case (stored arr' h')
    show thesis
      using that [OF stored(1) _ stored(3,5)] stored assms(1,2)
      by (auto simp: offset_array_def own_step_def heap_le_ok heap_le_generous)
  qed
qed

text \<open>The token stays in the buffer while later tokens are cut.\<close>

lemma string_at_word:
  assumes d: "drop p buf = sp @ w @ r @ NUL # junk" and w: "c_string w" and len: "length buf1 = length buf"
    and q: "p + length sp + length w \<le> q" and e: "buf1 ! (p + length sp + length w) = NUL"
    and same: "\<forall>i < length buf. i \<noteq> p + length sp + length w \<longrightarrow> buf1 ! i = buf ! i"
    and len2: "length buf' = length buf1"
    and later: "\<forall>i < length buf1. i < q \<or> buf1 ! i = NUL \<longrightarrow> buf' ! i = buf1 ! i"
  shows "string_at buf' (p + length sp) = w"
proof -
  let ?b = "p + length sp"
  have db: "drop ?b buf = w @ r @ NUL # junk" using drop_further [OF d] .
  have l: "?b + length w < length buf" using arg_cong [OF db, of length] by simp
  have "buf' ! (?b + j) = w ! j" if "j < length w" for j
  proof -
    have "buf ! (?b + j) = drop ?b buf ! j" using l by simp
    also have "\<dots> = w ! j" using db that by (simp add: nth_append)
    finally show ?thesis using that l q len same later by simp
  qed
  then have "take (length w) (drop ?b buf') = w"
    using l len len2 by (intro nth_equalityI) auto
  then have "drop ?b buf' = w @ drop (?b + length w) buf'"
    by (metis add.commute append_take_drop_id drop_drop)
  moreover have "buf' ! (?b + length w) = NUL" using e later l len by simp
  then have "drop (?b + length w) buf' = NUL # drop (Suc (?b + length w)) buf'"
    using Cons_nth_drop_Suc [of "?b + length w" buf'] l len len2 by simp
  ultimately have "drop ?b buf' = w @ NUL # drop (Suc (?b + length w)) buf'" by simp
  then show ?thesis using w by (rule string_atI)
qed

lemma tokenise_loop_words:
  assumes "drop p buf = s @ NUL # junk" "c_string s" "offset_array arr h" "generous h"
    "length (dba_contents arr) + length s < 2 ^ 58"
  shows "\<exists>arr' buf' h' ps. tokenise_loop buf p arr h = Inr (Some arr', buf', h') \<and> offset_array arr' h' \<and>
    own_step (dba_owned arr) h (dba_owned arr') h' \<and>
    dba_contents arr' = dba_contents arr @ map (\<lambda>b. enc_ptr (Some b)) ps @ [enc_ptr None] \<and>
    map (string_at buf') ps = split_words s \<and> length buf' = length buf \<and>
    (\<forall>i < length buf. i < p \<or> buf ! i = NUL \<longrightarrow> buf' ! i = buf ! i)"
  using assms
proof (induction "length s" arbitrary: s p buf arr h rule: less_induct)
  case less
  note unfold = tokenise_loop.simps [of buf p arr h]
  have small: "length (dba_contents arr) < 2 ^ 58" using less.prems(5) by linarith
  show ?case
  proof (cases s rule: words_cases)
    case spaces
    obtain q where q: "strtok buf p = Inr (None, buf, q)" using strtok_none [OF less.prems(1) spaces(1)] by blast
    obtain arr' h' where a: "DBA_addElemToArr arr (enc_ptr None) h = Inr (0, arr', h')" "offset_array arr' h'"
      "dba_contents arr' = dba_contents arr @ [enc_ptr None]" "own_step (dba_owned arr) h (dba_owned arr') h'"
      using offset_added [OF less.prems(3,4) small] .
    have "tokenise_loop buf p arr h = Inr (Some arr', buf, h')" using q a(1) by (simp add: unfold)
    moreover have "map (string_at buf) [] = split_words s" using spaces(2) by simp
    ultimately show ?thesis using a(2-4) by (intro exI [of _ arr'] exI [of _ buf] exI [of _ h'] exI [of _ "[]"]) simp
  next
    case (word sp w r s1)
    have w3: "c_string w" "c_string s1"
      using less.prems(2) word(1,6) by (auto simp: c_string_def dest: list.set_sel(2) split: if_splits)
    have d: "drop p buf = sp @ w @ r @ NUL # junk" using less.prems(1) word(1) by simp
    from strtok_some [OF d word(2-4) w3(1) word(5)] word(6) obtain buf1 q where
      t: "strtok buf p = Inr (Some (p + length sp), buf1, q)" "length buf1 = length buf"
        "drop q buf1 = s1 @ NUL # junk"
        "p + length sp + length w \<le> q" "buf1 ! (p + length sp + length w) = NUL"
        "\<forall>i < length buf. i \<noteq> p + length sp + length w \<longrightarrow> buf1 ! i = buf ! i"
      by blast
    let ?b = "p + length sp"
    obtain arr1 h1 where a: "DBA_addElemToArr arr (enc_ptr (Some ?b)) h = Inr (0, arr1, h1)" "offset_array arr1 h1"
      "dba_contents arr1 = dba_contents arr @ [enc_ptr (Some ?b)]" "own_step (dba_owned arr) h (dba_owned arr1) h1"
      "generous h1"
      using offset_added [OF less.prems(3,4) small] .
    have run: "tokenise_loop buf p arr h = tokenise_loop buf1 q arr1 h1" using t(1) a(1) by (simp add: unfold)
    have sm: "length (dba_contents arr1) + length s1 < 2 ^ 58"
      using arg_cong [OF a(3), of length] word(8) less.prems(5) by simp
    obtain arr' buf' h' ps where rec: "tokenise_loop buf1 q arr1 h1 = Inr (Some arr', buf', h')" "offset_array arr' h'"
      "own_step (dba_owned arr1) h1 (dba_owned arr') h'"
      "dba_contents arr' = dba_contents arr1 @ map (\<lambda>b. enc_ptr (Some b)) ps @ [enc_ptr None]"
      "map (string_at buf') ps = split_words s1" "length buf' = length buf1"
      "\<forall>i < length buf1. i < q \<or> buf1 ! i = NUL \<longrightarrow> buf' ! i = buf1 ! i"
      using less.hyps [OF word(8) t(3) w3(2) a(2,5) sm] by blast
    have "string_at buf' ?b = w" by (rule string_at_word [OF d w3(1) t(2,4-6) rec(6,7)])
    then have words: "map (string_at buf') (?b # ps) = split_words s" using rec(5) word(7) by simp
    have keep: "\<forall>i < length buf. i < p \<or> buf ! i = NUL \<longrightarrow> buf' ! i = buf ! i"
    proof (intro allI impI)
      fix i assume i: "i < length buf" "i < p \<or> buf ! i = NUL"
      show "buf' ! i = buf ! i"
      proof (cases "i = ?b + length w")
        case True
        then show ?thesis using i t(2,5) rec(7) by auto
      next
        case False
        then show ?thesis using i t(2,4,6) rec(7) by auto
      qed
    qed
    show ?thesis
      using run rec(1-4,6) a(3) t(2) words keep own_step_trans [OF a(4) rec(3)]
      by (intro exI [of _ arr'] exI [of _ buf'] exI [of _ h'] exI [of _ "?b # ps"]) simp
  qed
qed

lemma offset_array_made:
  assumes "heap_ok h" "generous h"
  obtains arr :: byte_array and h' where "DBA_makeNewDynamicByteArray 8 h = Inr (Some arr, h')"
      "offset_array arr h'" "dba_contents arr = []" "own_step {} h (dba_owned arr) h'" "generous h'"
proof -
  have sz: "(0 :: size_t) < 8" "unat (8 :: size_t) < 2 ^ 58" by simp_all
  show thesis
    using sz assms(1)
  proof (cases rule: DBA_make_cases [where ?'p = "nat option"])
    case (none h')
    then show thesis using assms(2) by blast
  next
    case (made arr h')
    then show thesis using that [of arr h'] assms
      by (auto simp: offset_array_def own_step_def heap_le_ok heap_le_generous)
  qed
qed

text \<open>Freeing the struct of an array leaves its block of elements.\<close>

lemma dba_struct_freed:
  assumes "own_step {} h (dba_owned arr) h'" "dba_inv arr" "heap_ok h"
  shows "\<exists>h''. mfree (Some (dba_block arr)) h' = Inr h'' \<and> live h'' = insert (elements_block arr) (live h) \<and>
    elements_block arr \<notin> live h \<and> heap_ok h'' \<and> generous h'' = generous h"
proof -
  have l: "live h' = live h \<union> {dba_block arr, elements_block arr}" "dba_block arr \<noteq> elements_block arr"
    using own_step_live [OF assms(1)] assms(2) by (auto simp: dba_owned_def dba_inv_def)
  have le: "heap_le h h'" using assms(1) by (rule own_step_le)
  have "{dba_block arr, elements_block arr} \<inter> live h = {}"
    using assms(1,3) by (force simp: own_step_def dba_owned_def heap_ok_def)
  then show ?thesis
    using l heap_le_ok [OF le assms(3)] heap_le_generous [OF le]
    by (auto simp: mfree_def generous_def heap_ok_def)
qed

lemma readInput_stores:
  assumes "generous h" "heap_ok h" "read_line s = Some (l, rest)" "length l < 2 ^ 60"
  shows "\<exists>b bytes h'. readInput s h = Some (Inr (Some (b, bytes), rest, h')) \<and>
    take (Suc (length l)) bytes = map Byte (l @ [NUL]) \<and> live h' = insert b (live h) \<and> b \<notin> live h \<and>
    heap_ok h' \<and> generous h'"
  using assms(2)
proof (cases rule: char_array_made)
  case (none h')
  then show ?thesis using assms(1) by blast
next
  case (made arr h1)
  have g1: "generous h1" using own_step_le [OF made(4)] assms(1) heap_le_generous by blast
  obtain arr1 h2 where loop: "readInput_loop s arr h1 = Some (Inr (arr1, rest, h2))" "char_array arr1 h2"
    "own_step (dba_owned arr) h1 (dba_owned arr1) h2" "dba_contents arr1 = map enc_char l"
    using readInput_loop_line [OF assms(3) made(2) g1] made(3) assms(4) by auto
  have g2: "generous h2" using own_step_le [OF loop(3)] g1 heap_le_generous by blast
  have "length (dba_contents arr1) + length [NUL] < 2 ^ 62" using loop(4) assms(4) by simp
  then obtain arr2 h3 where p: "push_all add_char arr1 [NUL] h2 = Inr (arr2, h3)" "char_array arr2 h3"
    "own_step (dba_owned arr1) h2 (dba_owned arr2) h3" "dba_contents arr2 = map enc_char (l @ [NUL])"
    using push_chars [OF loop(2), of "[NUL]"] g2 loop(4) by auto
  then obtain r where add: "add_char arr1 NUL h2 = Inr (r, arr2, h3)" by (auto simp: bind_res_eq_Inr)
  have "own_step {} h (dba_owned arr2) h3"
    using own_step_trans [OF own_step_trans [OF made(4) loop(3)] p(3)] .
  then obtain h4 where "mfree (Some (dba_block arr2)) h3 = Inr h4" "live h4 = insert (elements_block arr2) (live h)"
    "elements_block arr2 \<notin> live h" "heap_ok h4" "generous h4"
    using dba_struct_freed assms(1,2) p(2) by (meson char_array_def)
  moreover have "take (length (l @ [NUL])) (elements arr2) = map Byte (l @ [NUL])"
    using elements_of_chars [of arr2 "l @ [NUL]"] p(2,4) unfolding char_array_def by blast
  ultimately show ?thesis using made(1) loop(1) add by (simp add: readInput_def)
qed

lemma tokenise_words:
  assumes "generous h" "heap_ok h" "c_string s" "length s < 2 ^ 57"
  shows "\<exists>b bytes buf' h'. tokenise (s @ NUL # junk) h = Inr (Some (b, bytes), buf', h') \<and>
    strings_of buf' bytes = Inr (split_words s) \<and> live h' = insert b (live h) \<and> b \<notin> live h \<and>
    heap_ok h' \<and> generous h'"
  using offset_array_made [OF assms(2,1)]
proof cases
  case (1 arr h1)
  have ok: "dba_inv arr" "heap_ok h1" using 1(2) by (simp_all add: offset_array_def)
  obtain arr' buf' h2 ps where loop: "tokenise_loop (s @ NUL # junk) 0 arr h1 = Inr (Some arr', buf', h2)"
    "offset_array arr' h2" "own_step (dba_owned arr) h1 (dba_owned arr') h2"
    "dba_contents arr' = map (\<lambda>b. enc_ptr (Some b)) ps @ [enc_ptr None]"
    "map (string_at buf') ps = split_words s"
    using tokenise_loop_words [of 0 "s @ NUL # junk" s junk arr h1] assms(3,4) 1(2,3,5) by auto
  have "own_step {} h (dba_owned arr') h2" using 1(4) loop(3) by (rule own_step_trans)
  then obtain h3 where fr: "mfree (Some (dba_block arr')) h2 = Inr h3"
    "live h3 = insert (elements_block arr') (live h)" "elements_block arr' \<notin> live h"
    "heap_ok h3" "generous h3"
    using dba_struct_freed assms(1,2) loop(2) by (meson offset_array_def)
  have "elements arr' = concat (map (\<lambda>b. enc_ptr (Some b)) ps) @ enc_ptr None @
      drop (unat (nr_of_elements arr') * unat (type_size arr')) (elements arr')"
    using elements_contents [of arr'] loop(4) by simp
  then have "read_ptrs (elements arr') = Inr ps" by (metis read_ptrs_array)
  then show ?thesis using 1(1) loop(1,5) fr by (simp add: tokenise_def strings_of_def)
qed

section \<open>Properties\<close>

text \<open>
  C17. Reading a line. When the stream holds a whole line and memory is granted, \<open>readInput\<close>
  returns, leaves the stream after the line, and its block starts with the characters of the
  line and a NUL: every character except the newline, an escaped newline left out, and a
  backslash before another character stored twice, before and after it. The block is the only
  memory kept.
\<close>

theorem readInput_line:
  assumes "generous h" "heap_ok h" "read_line s = Some (l, rest)" "length l < 2 ^ 60"
  shows "\<exists>b bytes h'. readInput s h = Some (Inr (Some (b, bytes), rest, h')) \<and>
    take (Suc (length l)) bytes = map Byte (l @ [NUL]) \<and> live h' = insert b (live h) \<and> b \<notin> live h"
  using readInput_stores [OF assms] by blast

theorem readInput_line_witness:
  "\<exists>b bytes h'. readInput [CHR ''l'', CHR 0x5C, CHR 0x0A, CHR ''s'', CHR 0x0A, CHR ''q''] (new_heap (\<lambda>k n. True)) =
       Some (Inr (Some (b, bytes), ''q'', h')) \<and>
     take 3 bytes = map Byte [CHR ''l'', CHR ''s'', NUL] \<and> live h' = {b}"
  using readInput_line [OF generous_new heap_ok_new,
      of "[CHR ''l'', CHR 0x5C, CHR 0x0A, CHR ''s'', CHR 0x0A, CHR ''q'']" "''ls''" "''q''"]
  by (simp add: numeral_3_eq_3)

text \<open>
  A backslash that does not end the line is stored twice: of the line that is a backslash
  and a character the string read is the backslash, the character and the backslash again.
\<close>

theorem readInput_backslash_twice:
  assumes "generous h" "heap_ok h" "c \<noteq> CHR 0x0A"
  shows "\<exists>b bytes h'. readInput [CHR 0x5C, c, CHR 0x0A] h = Some (Inr (Some (b, bytes), [], h')) \<and>
    take 4 bytes = map Byte [CHR 0x5C, c, CHR 0x5C, NUL]"
proof -
  have l: "read_line [CHR 0x5C, c, CHR 0x0A] = Some ([CHR 0x5C, c, CHR 0x5C], [])" using assms(3) by simp
  have n: "Suc (length [CHR 0x5C, c, CHR 0x5C]) = 4"
    "[CHR 0x5C, c, CHR 0x5C] @ [NUL] = [CHR 0x5C, c, CHR 0x5C, NUL]" by simp_all
  have "length [CHR 0x5C, c, CHR 0x5C] < 2 ^ 60" by simp
  from readInput_stores [OF assms(1,2) l this, unfolded n] show ?thesis by blast
qed

theorem readInput_backslash_twice_witness:
  "\<exists>b bytes h'. readInput [CHR 0x5C, CHR '' '', CHR 0x0A] (new_heap (\<lambda>k n. True)) =
       Some (Inr (Some (b, bytes), [], h')) \<and>
    take 4 bytes = map Byte [CHR 0x5C, CHR '' '', CHR 0x5C, NUL]"
  by (rule readInput_backslash_twice) simp_all

text \<open>
  The end of the input is never noticed: when the stream ends before a line does, a call of
  \<open>readInput\<close> that has got its array does not return, whatever the allocator does after that. It
  returns without a whole line only when the array could not be made, and then answers NULL.
\<close>

theorem readInput_never_returns_at_eof:
  assumes "heap_ok h" "read_line s = None" "readInput s h = Some r"
  shows "\<exists>h'. r = Inr (None, s, h') \<and> \<not> generous h"
  using assms(1)
proof (cases rule: char_array_made)
  case (none h')
  then show ?thesis using assms(3) by (auto simp: readInput_def)
next
  case (made arr h')
  then obtain r' where "readInput_loop s arr h' = Some r'"
    using assms(3) by (auto simp: readInput_def split: option.splits)
  from readInput_loop_returns [OF this made(2)] assms(2) show ?thesis by simp
qed

theorem readInput_never_returns_at_eof_witness:
  "readInput ''ls'' (new_heap (\<lambda>k n. True)) = None"
proof (rule ccontr)
  assume "readInput ''ls'' (new_heap (\<lambda>k n. True)) \<noteq> None"
  then obtain r where "readInput ''ls'' (new_heap (\<lambda>k n. True)) = Some r" by auto
  from readInput_never_returns_at_eof [OF heap_ok_new _ this] show False by auto
qed

text \<open>
  C16. Tokenising. For a buffer with a string in it and memory granted, \<open>tokenise\<close> returns an array
  of pointers into the buffer, ended by NULL, and read after all the NULs \<open>strtok\<close> has written
  they are exactly the words of the string between its spaces, in order. No access leaves the
  buffer, and the array is the only memory kept.
\<close>

theorem tokenise_splits:
  assumes "generous h" "heap_ok h" "c_string s" "length s < 2 ^ 57"
  shows "\<exists>b bytes buf' h'. tokenise (s @ NUL # junk) h = Inr (Some (b, bytes), buf', h') \<and>
    strings_of buf' bytes = Inr (split_words s) \<and> live h' = insert b (live h) \<and> b \<notin> live h"
  using tokenise_words [OF assms] by blast

theorem tokenise_splits_witness:
  "\<exists>b bytes buf' h'. tokenise (''ls  -l '' @ [NUL]) (new_heap (\<lambda>k n. True)) = Inr (Some (b, bytes), buf', h') \<and>
    strings_of buf' bytes = Inr [''ls'', ''-l''] \<and> live h' = {b}"
proof -
  have "split_words ''ls  -l '' = [''ls'', ''-l'']" by (simp add: split_words.simps)
  moreover have "c_string ''ls  -l ''" by (simp add: NUL_def)
  ultimately show ?thesis
    using tokenise_splits [OF generous_new heap_ok_new, of "''ls  -l ''" "[]"] by simp
qed

end
