(* ===== verification/ParserTokens.thy ===== *)
theory ParserTokens
  imports CPrelude
begin

text \<open>
  The syntax tree of the iwish parser (Lab2/iwish/src/parsertokens.h and parsertokens.c).
  A pointer to a node is the node with the number of the block it lives in. A NULL-terminated
  linked list is a HOL list of its nodes, head first: NULL is \<open>[]\<close>, \<open>list->next\<close> is the tail.
  \<open>malloc\<close> leaves \<open>isInputRedirection\<close> indeterminate (\<open>None\<close>). Word pointers point into the
  tokens the parser reads, which the tree does not own; a word is the string it points to.

  The \<open>makeNew\<close> functions answer NULL when the allocator refuses, the \<open>free\<close> functions run into
  \<open>Bad_Free\<close> when a block is not live. The lemmas say which blocks a tree owns and that freeing
  a tree releases exactly these.
\<close>

record Redirection =
  isInputRedirection :: "int option"
  redirection_word :: "string option"

record Simple_Command_Element =
  isRedirection :: int
  redirection_pointer :: "(nat \<times> Redirection) option"
  element_word :: "string option"

type_synonym Simple_Command_Element_List = "(nat \<times> Simple_Command_Element) list"

record Simple_Command =
  element_list :: Simple_Command_Element_List

type_synonym Simple_Command_List = "(nat \<times> Simple_Command) list"

record Pipeline =
  simple_command_list :: Simple_Command_List

record Simple_List =
  pipeline :: Pipeline
  hasDaemonAmpersand :: int

text \<open>The sizes of the structs on a 64-bit machine.\<close>

definition sizeof_Redirection :: nat where "sizeof_Redirection = 16"
definition sizeof_Simple_Command_Element_List :: nat where "sizeof_Simple_Command_Element_List = 32"
definition sizeof_Simple_Command_List :: nat where "sizeof_Simple_Command_List = 16"
definition sizeof_Simple_List :: nat where "sizeof_Simple_List = 16"

lemmas sizeof_defs = sizeof_Redirection_def sizeof_Simple_Command_Element_List_def
  sizeof_Simple_Command_List_def sizeof_Simple_List_def

definition uninitialised_element :: Simple_Command_Element where
  "uninitialised_element =
     \<lparr>isRedirection = -1, redirection_pointer = None, element_word = None\<rparr>"

definition makeNewRedirection :: "heap \<Rightarrow> (nat \<times> Redirection) option \<times> heap" where
  "makeNewRedirection h =
     (case malloc sizeof_Redirection h of
        (None, h1) \<Rightarrow> (None, h1)
      | (Some a, h1) \<Rightarrow> (Some (a, \<lparr>isInputRedirection = None, redirection_word = None\<rparr>), h1))"

definition makeNewSimpleCommandElementList :: "heap \<Rightarrow> Simple_Command_Element_List \<times> heap" where
  "makeNewSimpleCommandElementList h =
     (case malloc sizeof_Simple_Command_Element_List h of
        (None, h1) \<Rightarrow> ([], h1)
      | (Some a, h1) \<Rightarrow> ([(a, uninitialised_element)], h1))"

definition makeNewSimpleCommandList :: "heap \<Rightarrow> Simple_Command_List \<times> heap" where
  "makeNewSimpleCommandList h =
     (case malloc sizeof_Simple_Command_List h of
        (None, h1) \<Rightarrow> ([], h1)
      | (Some a, h1) \<Rightarrow>
          (case makeNewSimpleCommandElementList h1 of
             ([], h2) \<Rightarrow> ([], h2)
           | (n # ns, h2) \<Rightarrow> ([(a, \<lparr>element_list = n # ns\<rparr>)], h2)))"

definition makeNewSimpleList :: "heap \<Rightarrow> (nat \<times> Simple_List) option \<times> heap" where
  "makeNewSimpleList h =
     (case malloc sizeof_Simple_List h of
        (None, h1) \<Rightarrow> (None, h1)
      | (Some a, h1) \<Rightarrow>
          (case makeNewSimpleCommandList h1 of
             ([], h2) \<Rightarrow> (None, h2)
           | (n # ns, h2) \<Rightarrow>
               (Some (a, \<lparr>pipeline = \<lparr>simple_command_list = n # ns\<rparr>,
                          hasDaemonAmpersand = 0\<rparr>), h2)))"

fun freeRedirection :: "(nat \<times> Redirection) option \<Rightarrow> heap \<Rightarrow> heap res" where
  "freeRedirection None h = Inr h"
| "freeRedirection (Some (a, r)) h = mfree (Some a) h"

fun freeSimpleCommandElementList :: "Simple_Command_Element_List \<Rightarrow> heap \<Rightarrow> heap res" where
  "freeSimpleCommandElementList [] h = Inr h"
| "freeSimpleCommandElementList ((a, e) # next) h =
     bind_res (freeSimpleCommandElementList next h) (\<lambda>h1.
     bind_res (freeRedirection (redirection_pointer e) h1) (\<lambda>h2. mfree (Some a) h2))"

fun freeSimpleCommandList :: "Simple_Command_List \<Rightarrow> heap \<Rightarrow> heap res" where
  "freeSimpleCommandList [] h = Inr h"
| "freeSimpleCommandList ((a, c) # next) h =
     bind_res (freeSimpleCommandList next h) (\<lambda>h1.
     bind_res (freeSimpleCommandElementList (element_list c) h1) (\<lambda>h2. mfree (Some a) h2))"

fun freeSimpleList :: "(nat \<times> Simple_List) option \<Rightarrow> heap \<Rightarrow> heap res" where
  "freeSimpleList None h = Inr h"
| "freeSimpleList (Some (a, l)) h =
     bind_res (freeSimpleCommandList (simple_command_list (pipeline l)) h) (\<lambda>h1. mfree (Some a) h1)"

section \<open>The blocks a tree owns\<close>

fun redir_blocks :: "(nat \<times> Redirection) option \<Rightarrow> nat list" where
  "redir_blocks None = []"
| "redir_blocks (Some (a, r)) = [a]"

fun elems_blocks :: "Simple_Command_Element_List \<Rightarrow> nat list" where
  "elems_blocks [] = []"
| "elems_blocks ((a, e) # next) = a # redir_blocks (redirection_pointer e) @ elems_blocks next"

fun cmds_blocks :: "Simple_Command_List \<Rightarrow> nat list" where
  "cmds_blocks [] = []"
| "cmds_blocks ((a, c) # next) = a # elems_blocks (element_list c) @ cmds_blocks next"

fun list_blocks :: "(nat \<times> Simple_List) option \<Rightarrow> nat list" where
  "list_blocks None = []"
| "list_blocks (Some (a, l)) = a # cmds_blocks (simple_command_list (pipeline l))"

text \<open>A tree is sound in a heap when its blocks are all different and all live.\<close>

definition sound :: "nat list \<Rightarrow> heap \<Rightarrow> bool" where
  "sound bs h \<longleftrightarrow> distinct bs \<and> set bs \<subseteq> live h"

definition release :: "nat list \<Rightarrow> heap \<Rightarrow> heap" where
  "release bs h = h\<lparr>live := live h - set bs\<rparr>"

lemma release_simps [simp]:
  "release [] h = h" "live (release bs h) = live h - set bs" "fresh (release bs h) = fresh h"
  by (auto simp: release_def)

lemma release_release [simp]: "release bs (release cs h) = release (bs @ cs) h"
proof -
  have "live h - set cs - set bs = live h - set (bs @ cs)" by auto
  then show ?thesis by (simp add: release_def)
qed

lemma release_perm: "set bs = set cs \<Longrightarrow> release bs h = release cs h"
  by (simp add: release_def)

lemma sound_Nil [simp]: "sound [] h"
  by (simp add: sound_def)

lemma mfree_release: "a \<in> live h \<Longrightarrow> mfree (Some a) h = Inr (release [a] h)"
  by (simp add: release_def)

declare mfree_live [simp del]

lemma freeRedirection_sound:
  "sound (redir_blocks r) h \<Longrightarrow> freeRedirection r h = Inr (release (redir_blocks r) h)"
  by (cases r) (auto simp: sound_def mfree_release)

lemma freeSimpleCommandElementList_sound:
  "sound (elems_blocks l) h \<Longrightarrow> freeSimpleCommandElementList l h = Inr (release (elems_blocks l) h)"
proof (induction l arbitrary: h)
  case Nil
  then show ?case by simp
next
  case (Cons n l)
  obtain a e where n: "n = (a, e)" by fastforce
  let ?h1 = "release (elems_blocks l) h"
  have "freeSimpleCommandElementList l h = Inr ?h1"
    by (rule Cons.IH) (use Cons.prems n in \<open>auto simp: sound_def\<close>)
  moreover have "freeRedirection (redirection_pointer e) ?h1 =
      Inr (release (redir_blocks (redirection_pointer e)) ?h1)"
    by (rule freeRedirection_sound) (use Cons.prems n in \<open>auto simp: sound_def\<close>)
  moreover have "mfree (Some a) (release (redir_blocks (redirection_pointer e)) ?h1) =
      Inr (release [a] (release (redir_blocks (redirection_pointer e)) ?h1))"
    by (rule mfree_release) (use Cons.prems n in \<open>auto simp: sound_def\<close>)
  ultimately show ?case by (simp add: n)
qed

lemma freeSimpleCommandList_sound:
  "sound (cmds_blocks l) h \<Longrightarrow> freeSimpleCommandList l h = Inr (release (cmds_blocks l) h)"
proof (induction l arbitrary: h)
  case Nil
  then show ?case by simp
next
  case (Cons n l)
  obtain a c where n: "n = (a, c)" by fastforce
  let ?h1 = "release (cmds_blocks l) h"
  have "freeSimpleCommandList l h = Inr ?h1"
    by (rule Cons.IH) (use Cons.prems n in \<open>auto simp: sound_def\<close>)
  moreover have "freeSimpleCommandElementList (element_list c) ?h1 =
      Inr (release (elems_blocks (element_list c)) ?h1)"
    by (rule freeSimpleCommandElementList_sound) (use Cons.prems n in \<open>auto simp: sound_def\<close>)
  moreover have "mfree (Some a) (release (elems_blocks (element_list c)) ?h1) =
      Inr (release [a] (release (elems_blocks (element_list c)) ?h1))"
    by (rule mfree_release) (use Cons.prems n in \<open>auto simp: sound_def\<close>)
  ultimately show ?case by (simp add: n)
qed

lemma freeSimpleList_sound:
  "sound (list_blocks l) h \<Longrightarrow> freeSimpleList l h = Inr (release (list_blocks l) h)"
proof (cases l)
  case None
  then show ?thesis by simp
next
  case (Some p)
  assume s: "sound (list_blocks l) h"
  obtain a t where p: "p = (a, t)" by fastforce
  have "freeSimpleCommandList (simple_command_list (pipeline t)) h =
      Inr (release (cmds_blocks (simple_command_list (pipeline t))) h)"
    by (rule freeSimpleCommandList_sound) (use s Some p in \<open>auto simp: sound_def\<close>)
  then show ?thesis
    using s Some p by (auto simp: mfree_release sound_def simp del: release_simps(1))
qed

section \<open>What the constructors allocate\<close>

lemma own_rel_release: "sound bs h \<Longrightarrow> own_rel (set bs) h {} (release bs h)"
  unfolding release_def sound_def by (intro own_rel_free) simp

lemma makeNewRedirection_own:
  assumes "makeNewRedirection h = (r, h')" "heap_ok h"
  shows "own_rel {} h (set (redir_blocks r)) h'" "distinct (redir_blocks r)"
    and "generous h \<Longrightarrow> r \<noteq> None"
  using assms own_rel_malloc own_rel_malloc_None malloc_None_generous
  by (auto simp: makeNewRedirection_def sizeof_defs split: prod.splits option.splits)

lemma makeNewSimpleCommandElementList_own:
  assumes "makeNewSimpleCommandElementList h = (l, h')" "heap_ok h"
  shows "own_rel {} h (set (elems_blocks l)) h'" "distinct (elems_blocks l)"
    and "generous h \<Longrightarrow> l \<noteq> []" "l \<noteq> [] \<Longrightarrow> \<exists>a. l = [(a, uninitialised_element)]"
  using assms own_rel_malloc own_rel_malloc_None malloc_None_generous
  by (auto simp: makeNewSimpleCommandElementList_def sizeof_defs uninitialised_element_def
      split: prod.splits option.splits)

lemma makeNewSimpleCommandList_own:
  assumes "makeNewSimpleCommandList h = (l, h')" "heap_ok h"
  shows "own_rel {} h (set (cmds_blocks l)) h'" "distinct (cmds_blocks l)"
    and "generous h \<Longrightarrow> l \<noteq> []"
    and "l \<noteq> [] \<Longrightarrow> \<exists>a b. l = [(a, \<lparr>element_list = [(b, uninitialised_element)]\<rparr>)]"
proof -
  obtain p h1 where m1: "malloc sizeof_Simple_Command_List h = (p, h1)" by fastforce
  obtain el h2 where m2: "makeNewSimpleCommandElementList h1 = (el, h2)" by fastforce
  have "own_rel {} h (set (cmds_blocks l)) h' \<and> distinct (cmds_blocks l) \<and> (generous h \<longrightarrow> l \<noteq> []) \<and>
      (l \<noteq> [] \<longrightarrow> (\<exists>a b. l = [(a, \<lparr>element_list = [(b, uninitialised_element)]\<rparr>)]))"
  proof (cases p)
    case None
    then show ?thesis
      using assms m1 own_rel_malloc_None malloc_None_generous [of sizeof_Simple_Command_List h h1]
      by (auto simp: makeNewSimpleCommandList_def sizeof_defs)
  next
    case (Some a)
    have o1: "own_rel {} h {a} h1" using m1 Some assms(2) own_rel_malloc by blast
    then have ok1: "heap_ok h1" using assms(2) own_rel_ok by blast
    note el = makeNewSimpleCommandElementList_own [OF m2 ok1]
    have frame: "own_rel {a} h1 ({a} \<union> set (elems_blocks el)) h2" "a \<notin> set (elems_blocks el)"
      using own_rel_frame [OF el(1), of "{a}"] own_rel_live [OF o1] by auto
    have o2: "own_rel {} h ({a} \<union> set (elems_blocks el)) h2"
      using o1 frame(1) by (rule own_rel_trans)
    have gen: "generous h1 = generous h" using o1 own_rel_generous by blast
    show ?thesis
    proof (cases el)
      case Nil
      then have "\<not> generous h" using el(3) gen by blast
      then show ?thesis
        using assms m1 m2 Some Nil o2 by (auto simp: makeNewSimpleCommandList_def own_rel_def)
    next
      case (Cons n ns)
      then obtain b where "el = [(b, uninitialised_element)]" using el(4) by blast
      then show ?thesis
        using assms m1 m2 Some o2 frame(2)
        by (auto simp: makeNewSimpleCommandList_def uninitialised_element_def insert_commute)
    qed
  qed
  then show "own_rel {} h (set (cmds_blocks l)) h'" "distinct (cmds_blocks l)"
    and "generous h \<Longrightarrow> l \<noteq> []"
    and "l \<noteq> [] \<Longrightarrow> \<exists>a b. l = [(a, \<lparr>element_list = [(b, uninitialised_element)]\<rparr>)]" by blast+
qed

text \<open>An empty tree: what \<open>makeNewSimpleList\<close> answers when nothing is refused.\<close>

definition empty_list_tree :: "Simple_List \<Rightarrow> bool" where
  "empty_list_tree t \<longleftrightarrow> hasDaemonAmpersand t = 0 \<and>
     (\<exists>a b. simple_command_list (pipeline t) = [(a, \<lparr>element_list = [(b, uninitialised_element)]\<rparr>)])"

lemma makeNewSimpleList_own:
  assumes "makeNewSimpleList h = (l, h')" "heap_ok h"
  shows "own_rel {} h (set (list_blocks l)) h'" "distinct (list_blocks l)"
    and "generous h \<Longrightarrow> l \<noteq> None" "l = Some (a, t) \<Longrightarrow> empty_list_tree t"
proof -
  obtain p h1 where m1: "malloc sizeof_Simple_List h = (p, h1)" by fastforce
  obtain cl h2 where m2: "makeNewSimpleCommandList h1 = (cl, h2)" by fastforce
  have "own_rel {} h (set (list_blocks l)) h' \<and> distinct (list_blocks l) \<and> (generous h \<longrightarrow> l \<noteq> None) \<and>
      (l = Some (a, t) \<longrightarrow> empty_list_tree t)"
  proof (cases p)
    case None
    then show ?thesis
      using assms m1 own_rel_malloc_None malloc_None_generous [of sizeof_Simple_List h h1]
      by (auto simp: makeNewSimpleList_def sizeof_defs)
  next
    case (Some b)
    have o1: "own_rel {} h {b} h1" using m1 Some assms(2) own_rel_malloc by blast
    then have ok1: "heap_ok h1" using assms(2) own_rel_ok by blast
    note cl = makeNewSimpleCommandList_own [OF m2 ok1]
    have frame: "own_rel {b} h1 ({b} \<union> set (cmds_blocks cl)) h2" "b \<notin> set (cmds_blocks cl)"
      using own_rel_frame [OF cl(1), of "{b}"] own_rel_live [OF o1] by auto
    have o2: "own_rel {} h ({b} \<union> set (cmds_blocks cl)) h2"
      using o1 frame(1) by (rule own_rel_trans)
    have gen: "generous h1 = generous h" using o1 own_rel_generous by blast
    show ?thesis
    proof (cases cl)
      case Nil
      then have "\<not> generous h" using cl(3) gen by blast
      then show ?thesis
        using assms m1 m2 Some Nil o2 by (auto simp: makeNewSimpleList_def own_rel_def)
    next
      case (Cons n ns)
      then show ?thesis
        using assms m1 m2 Some o2 frame(2) cl(2,4)
        by (auto simp: makeNewSimpleList_def empty_list_tree_def)
    qed
  qed
  then show "own_rel {} h (set (list_blocks l)) h'" "distinct (list_blocks l)"
    and "generous h \<Longrightarrow> l \<noteq> None" "l = Some (a, t) \<Longrightarrow> empty_list_tree t" by blast+
qed

end
