(* ===== verification/Syntax.thy ===== *)
theory Syntax
  imports ParserTokens
begin

text \<open>
  The language of the iwish shell, without memory: abstract syntax, what a tree in memory stands
  for, how a command is written as tokens, a reference parser on lists of tokens, and the grammar
  of bash.txt, which the exercise gives. The lemmas show that the reference parser inverts the
  writing of a command and that a sentence it accepts is one of the grammar exactly when its words are.
\<close>

datatype Elem = Word string | Redirect_In string | Redirect_Out string

type_synonym Command = "Elem list"

section \<open>What a tree in memory stands for\<close>

definition abs_redirection :: "Redirection \<Rightarrow> Elem option" where
  "abs_redirection r =
     (case (isInputRedirection r, redirection_word r) of
        (Some k, Some w) \<Rightarrow> Some (if k \<noteq> 0 then Redirect_In w else Redirect_Out w)
      | _ \<Rightarrow> None)"

definition abs_elem :: "Simple_Command_Element \<Rightarrow> Elem option" where
  "abs_elem e =
     (if isRedirection e = 0 then map_option Word (element_word e)
      else case redirection_pointer e of None \<Rightarrow> None | Some (a, r) \<Rightarrow> abs_redirection r)"

definition abs_command :: "Simple_Command_Element_List \<Rightarrow> Command option" where
  "abs_command l = those (map (abs_elem \<circ> snd) l)"

definition abs_pipeline :: "Simple_Command_List \<Rightarrow> Command list option" where
  "abs_pipeline l = those (map (abs_command \<circ> element_list \<circ> snd) l)"

definition abs_list :: "(nat \<times> Simple_List) option \<Rightarrow> (Command list \<times> bool) option" where
  "abs_list l =
     (case l of None \<Rightarrow> None
      | Some (a, t) \<Rightarrow> map_option (\<lambda>cs. (cs, hasDaemonAmpersand t \<noteq> 0))
                        (abs_pipeline (simple_command_list (pipeline t))))"

lemma abs_command_simps [simp]:
  "abs_command [] = Some []"
  "abs_command ((a, e) # l) =
     (case abs_elem e of None \<Rightarrow> None | Some x \<Rightarrow> map_option (Cons x) (abs_command l))"
  by (simp_all add: abs_command_def split: option.split)

lemma abs_pipeline_simps [simp]:
  "abs_pipeline [] = Some []"
  "abs_pipeline ((a, c) # l) =
     (case abs_command (element_list c) of None \<Rightarrow> None
      | Some x \<Rightarrow> map_option (Cons x) (abs_pipeline l))"
  by (simp_all add: abs_pipeline_def split: option.split)

section \<open>Words\<close>

definition char_between :: "char \<Rightarrow> char \<Rightarrow> char \<Rightarrow> bool" where
  "char_between lo hi c \<longleftrightarrow> (of_char lo :: nat) \<le> of_char c \<and> (of_char c :: nat) \<le> of_char hi"

definition word_char :: "char \<Rightarrow> bool" where
  "word_char c \<longleftrightarrow> char_between CHR ''a'' CHR ''z'' c \<or> char_between CHR ''A'' CHR ''Z'' c \<or>
     c = CHR ''-'' \<or> c = CHR ''.'' \<or> c = CHR ''/'' \<or> c = CHR ''_''"

definition is_word :: "string \<Rightarrow> bool" where
  "is_word s \<longleftrightarrow> list_all word_char (cstr s)"

text \<open>For evaluation on given characters.\<close>

lemma word_chars_eval:
  "is_word s \<longleftrightarrow> (\<forall>c \<in> set (cstr s).
     (97 \<le> (of_char c :: nat) \<and> (of_char c :: nat) \<le> 122) \<or> (65 \<le> (of_char c :: nat) \<and> (of_char c :: nat) \<le> 90) \<or>
     c = CHR ''-'' \<or> c = CHR ''.'' \<or> c = CHR ''/'' \<or> c = CHR ''_'')"
  by (auto simp: is_word_def list_all_iff word_char_def char_between_def)

lemma not_words [simp]:
  "\<not> is_word ''<''" "\<not> is_word ''>''" "\<not> is_word ''|''" "\<not> is_word ''&''"
  by (simp_all add: word_chars_eval cstr_def NUL_def)

lemma symbols_not_NUL [simp]:
  "CHR ''<'' \<noteq> NUL" "CHR ''>'' \<noteq> NUL" "CHR ''|'' \<noteq> NUL" "CHR ''&'' \<noteq> NUL"
  by (simp_all add: NUL_def)

lemma strcmp_eq_symbol [simp]: "c_string s \<Longrightarrow> c_string t \<Longrightarrow> strcmp_eq s t \<longleftrightarrow> s = t"
  by (simp add: strcmp_eq_def)

lemma strcmp_eq_not_word:
  "strcmp_eq s ''<'' \<Longrightarrow> \<not> is_word s" "strcmp_eq s ''>'' \<Longrightarrow> \<not> is_word s"
  "strcmp_eq s ''|'' \<Longrightarrow> \<not> is_word s" "strcmp_eq s ''&'' \<Longrightarrow> \<not> is_word s"
  using not_words by (simp_all add: strcmp_eq_def is_word_def)

section \<open>Writing a command as tokens\<close>

fun write_elem :: "Elem \<Rightarrow> string list" where
  "write_elem (Word w) = [w]"
| "write_elem (Redirect_In w) = [''<'', w]"
| "write_elem (Redirect_Out w) = [''>'', w]"

definition write_command :: "Command \<Rightarrow> string list" where
  "write_command c = concat (map write_elem c)"

fun write_pipeline :: "Command list \<Rightarrow> string list" where
  "write_pipeline [] = []"
| "write_pipeline [c] = write_command c"
| "write_pipeline (c # cs) = write_command c @ [''|''] @ write_pipeline cs"

definition write_list :: "Command list \<Rightarrow> bool \<Rightarrow> string list" where
  "write_list cs background = write_pipeline cs @ (if background then [''&''] else [])"

lemma write_command_simps [simp]:
  "write_command [] = []" "write_command (e # c) = write_elem e @ write_command c"
  by (simp_all add: write_command_def)

lemma write_pipeline_Cons: "cs \<noteq> [] \<Longrightarrow> write_pipeline (c # cs) = write_command c @ ''|'' # write_pipeline cs"
  by (cases cs) auto

text \<open>A command the shell can express: words only, and it starts with the program.\<close>

fun wf_elem :: "Elem \<Rightarrow> bool" where
  "wf_elem (Word w) \<longleftrightarrow> is_word w"
| "wf_elem (Redirect_In w) \<longleftrightarrow> is_word w"
| "wf_elem (Redirect_Out w) \<longleftrightarrow> is_word w"

fun wf_command :: "Command \<Rightarrow> bool" where
  "wf_command (Word w # c) \<longleftrightarrow> is_word w \<and> list_all wf_elem c"
| "wf_command _ \<longleftrightarrow> False"

definition wf_pipeline :: "Command list \<Rightarrow> bool" where
  "wf_pipeline cs \<longleftrightarrow> cs \<noteq> [] \<and> list_all wf_command cs"

section \<open>A reference parser\<close>

definition read_elem :: "string list \<Rightarrow> (Elem \<times> string list) option" where
  "read_elem ts =
     (case ts of [] \<Rightarrow> None
      | t # us \<Rightarrow>
          if is_word t then Some (Word t, us)
          else if strcmp_eq t ''<'' \<or> strcmp_eq t ''>''
          then (case us of [] \<Rightarrow> None
                | w # vs \<Rightarrow> if is_word w
                    then Some ((if strcmp_eq t ''<'' then Redirect_In w else Redirect_Out w), vs)
                    else None)
          else None)"

lemma read_elem_shorter: "read_elem ts = Some (e, us) \<Longrightarrow> length us < length ts"
  by (auto simp: read_elem_def split: list.splits if_splits)

function read_elems :: "string list \<Rightarrow> Command \<times> string list" where
  "read_elems ts =
     (case read_elem ts of None \<Rightarrow> ([], ts)
      | Some (e, us) \<Rightarrow> (case read_elems us of (es, vs) \<Rightarrow> (e # es, vs)))"
  by pat_completeness auto
termination
  by (relation "measure length") (auto dest: read_elem_shorter)

declare read_elems.simps [simp del]

lemma read_elems_stop: "read_elem ts = None \<Longrightarrow> read_elems ts = ([], ts)"
  by (subst read_elems.simps) simp

lemma read_elems_more:
  "read_elem ts = Some (e, us) \<Longrightarrow> read_elems ts = (e # fst (read_elems us), snd (read_elems us))"
  by (subst read_elems.simps) (simp add: split_def)

lemma read_elems_Nil [simp]: "read_elems [] = ([], [])"
  by (simp add: read_elems_stop read_elem_def)

lemma read_elems_shorter:
  "length (snd (read_elems ts)) \<le> length ts \<and> (fst (read_elems ts) \<noteq> [] \<longrightarrow> length (snd (read_elems ts)) < length ts)"
proof (induction ts rule: read_elems.induct)
  case (1 ts)
  then show ?case
    using read_elem_shorter [of ts]
    by (cases "read_elem ts") (fastforce simp: read_elems_stop read_elems_more)+
qed

function read_pipeline :: "string list \<Rightarrow> (Command list \<times> string list) option" where
  "read_pipeline ts =
     (if ts = [] \<or> \<not> is_word (hd ts) then None
      else case read_elems ts of (c, us) \<Rightarrow>
        if us \<noteq> [] \<and> strcmp_eq (hd us) ''|'' \<and> length (tl us) < length ts
        then (case read_pipeline (tl us) of None \<Rightarrow> Some ([c], us)
              | Some (cs, vs) \<Rightarrow> Some (c # cs, vs))
        else Some ([c], us))"
  by pat_completeness auto
termination
  by (relation "measure length") auto

declare read_pipeline.simps [simp del]

definition read_list :: "string list \<Rightarrow> (Command list \<times> bool) option" where
  "read_list ts =
     (case read_pipeline ts of None \<Rightarrow> None
      | Some (cs, us) \<Rightarrow>
          if us = [] then Some (cs, False)
          else if strcmp_eq (hd us) ''&'' \<and> tl us = [] then Some (cs, True) else None)"

section \<open>The reference parser inverts the writing\<close>

lemma read_elem_sound:
  "read_elem ts = Some (e, us) \<Longrightarrow> list_all c_string ts \<Longrightarrow> ts = write_elem e @ us \<and> wf_elem e \<and> list_all c_string us"
  by (auto simp: read_elem_def split: list.splits if_splits)

lemma read_elems_sound:
  "read_elems ts = (c, us) \<Longrightarrow> list_all c_string ts \<Longrightarrow>
     ts = write_command c @ us \<and> list_all wf_elem c \<and> list_all c_string us \<and> read_elem us = None"
proof (induction ts arbitrary: c us rule: read_elems.induct)
  case (1 ts)
  show ?case
  proof (cases "read_elem ts")
    case None
    then show ?thesis using 1 by (simp add: read_elems_stop)
  next
    case (Some x)
    then obtain e vs where e: "read_elem ts = Some (e, vs)" by (cases x) auto
    note s = read_elem_sound [OF e 1(3)]
    have c: "c = e # fst (read_elems vs)" "us = snd (read_elems vs)"
      using 1(2) by (simp_all add: read_elems_more [OF e])
    have "vs = write_command (fst (read_elems vs)) @ snd (read_elems vs) \<and>
        list_all wf_elem (fst (read_elems vs)) \<and> list_all c_string (snd (read_elems vs)) \<and>
        read_elem (snd (read_elems vs)) = None"
      using 1(1) [OF e refl surjective_pairing] s by blast
    with c s show ?thesis by simp
  qed
qed

lemma read_elems_word:
  "read_elems (t # ts) = (c, us) \<Longrightarrow> is_word t \<Longrightarrow> \<exists>c'. c = Word t # c'"
  by (subst (asm) read_elems.simps) (auto simp: read_elem_def split: prod.splits)

lemma read_pipeline_sound:
  "read_pipeline ts = Some (cs, us) \<Longrightarrow> list_all c_string ts \<Longrightarrow>
     ts = write_pipeline cs @ us \<and> wf_pipeline cs \<and> list_all c_string us"
proof (induction ts arbitrary: cs us rule: read_pipeline.induct)
  case (1 ts)
  note unfold = "1.prems"(1) [unfolded read_pipeline.simps [of ts]]
  obtain t ts' where ts: "ts = t # ts'" "is_word t" using unfold by (cases ts) (auto split: if_splits)
  obtain c vs where c: "read_elems ts = (c, vs)" by fastforce
  note s = read_elems_sound [OF c "1.prems"(2)]
  obtain c' where c': "c = Word t # c'" using read_elems_word c ts by blast
  then have wc: "wf_command c" using s by simp
  have len: "length (tl vs) < length ts" using s c' by auto
  show ?case
  proof (cases "vs \<noteq> [] \<and> strcmp_eq (hd vs) ''|''")
    case False
    then show ?thesis using unfold ts c s wc by (auto simp: wf_pipeline_def)
  next
    case True
    then obtain ws where ws: "vs = ''|'' # ws" using s by (cases vs) auto
    show ?thesis
    proof (cases "read_pipeline ws")
      case None
      then show ?thesis using unfold ts c s wc ws len by (auto simp: wf_pipeline_def)
    next
      case (Some x)
      obtain ds xs where x: "x = (ds, xs)" by fastforce
      have "tl vs = write_pipeline ds @ xs \<and> wf_pipeline ds \<and> list_all c_string xs"
        by (rule "1.IH" [OF _ c [symmetric]]) (use ts ws s len Some x in auto)
      then show ?thesis using unfold ts c s wc ws len Some x
        by (auto simp: wf_pipeline_def write_pipeline_Cons)
    qed
  qed
qed

lemma read_elem_write:
  "wf_elem e \<Longrightarrow> read_elem (write_elem e @ us) = Some (e, us)"
  by (cases e) (auto simp: read_elem_def)

lemma read_elems_write:
  "list_all wf_elem c \<Longrightarrow> read_elem us = None \<Longrightarrow> read_elems (write_command c @ us) = (c, us)"
  by (induction c) (auto simp: read_elems_stop read_elems_more [OF read_elem_write])

text \<open>Where a command ends: at the end of the sentence, at a bar, at an ampersand.\<close>

lemma read_elem_end: "us = [] \<or> hd us = ''|'' \<or> hd us = ''&'' \<Longrightarrow> read_elem us = None"
  by (cases us) (auto simp: read_elem_def)

lemma read_pipeline_write:
  "wf_pipeline cs \<Longrightarrow> us = [] \<or> hd us = ''&'' \<Longrightarrow> read_pipeline (write_pipeline cs @ us) = Some (cs, us)"
proof (induction cs)
  case Nil
  then show ?case by (simp add: wf_pipeline_def)
next
  case (Cons c cs)
  obtain w c' where c: "c = Word w # c'" "is_word w" "list_all wf_elem c'"
    using Cons.prems by (cases c rule: wf_command.cases) (auto simp: wf_pipeline_def)
  then have wc: "list_all wf_elem c" by simp
  show ?case
  proof (cases "cs = []")
    case True
    have "read_elems (write_command c @ us) = (c, us)"
      using read_elems_write [OF wc] read_elem_end Cons.prems(2) by blast
    then show ?thesis
      using True c Cons.prems(2) by (subst read_pipeline.simps) auto
  next
    case False
    let ?r = "''|'' # write_pipeline cs @ us"
    have e: "read_elems (write_command c @ ?r) = (c, ?r)"
      using read_elems_write [OF wc] read_elem_end [of ?r] by simp
    have "wf_pipeline cs" using Cons.prems(1) False by (simp add: wf_pipeline_def)
    then have "read_pipeline (write_pipeline cs @ us) = Some (cs, us)" using Cons by blast
    then show ?thesis
      using False c e by (subst read_pipeline.simps) (simp add: write_pipeline_Cons)
  qed
qed

text \<open>The reference parser accepts exactly what can be written, and reads it back.\<close>

lemma read_list_iff:
  assumes "list_all c_string ts"
  shows "read_list ts = Some (cs, background) \<longleftrightarrow> wf_pipeline cs \<and> ts = write_list cs background"
proof
  assume "read_list ts = Some (cs, background)"
  then obtain us where us: "read_pipeline ts = Some (cs, us)"
      "us = [] \<and> \<not> background \<or> us \<noteq> [] \<and> strcmp_eq (hd us) ''&'' \<and> tl us = [] \<and> background"
    by (auto simp: read_list_def split: option.splits if_splits)
  note s = read_pipeline_sound [OF us(1) assms]
  then show "wf_pipeline cs \<and> ts = write_list cs background"
    using us(2) by (cases us) (auto simp: write_list_def)
next
  assume "wf_pipeline cs \<and> ts = write_list cs background"
  then show "read_list ts = Some (cs, background)"
    using read_pipeline_write [of cs "if background then [''&''] else []"]
    by (auto simp: read_list_def write_list_def)
qed

section \<open>The grammar of bash.txt\<close>

text \<open>
  The productions as they stand: a word over characters, the others over tokens; the newline list
  of \<open>pipeline\<close> is a number of newline tokens.
\<close>

definition g_letter :: "char \<Rightarrow> bool" where
  "g_letter c \<longleftrightarrow> char_between CHR ''a'' CHR ''z'' c \<or> char_between CHR ''A'' CHR ''Z'' c"

inductive g_word :: "string \<Rightarrow> bool" where
  "g_letter c \<Longrightarrow> g_word [c]"
| "g_word w \<Longrightarrow> g_letter c \<Longrightarrow> g_word (w @ [c])"
| "g_word w \<Longrightarrow> g_word (w @ [CHR ''_''])"

inductive g_element :: "string list \<Rightarrow> bool" where
  "g_word w \<Longrightarrow> g_element [w]"
| "g_word w \<Longrightarrow> g_element [''>'', w]"
| "g_word w \<Longrightarrow> g_element [''<'', w]"

inductive g_command :: "string list \<Rightarrow> bool" where
  "g_element ts \<Longrightarrow> g_command ts"
| "g_command ts \<Longrightarrow> g_element us \<Longrightarrow> g_command (ts @ us)"

inductive g_pipeline :: "string list \<Rightarrow> bool" where
  "g_command ts \<Longrightarrow> g_pipeline ts"
| "g_pipeline ts \<Longrightarrow> g_pipeline us \<Longrightarrow>
     g_pipeline (ts @ [''|''] @ replicate n [CHR 0x0A] @ us)"

inductive g_simple_list :: "string list \<Rightarrow> bool" where
  "g_pipeline ts \<Longrightarrow> g_simple_list ts"
| "g_pipeline ts \<Longrightarrow> g_simple_list (ts @ [''&''])"

text \<open>A word of the grammar starts with a letter and goes on with letters and underscores.\<close>

lemma g_word_iff:
  "g_word w \<longleftrightarrow> w \<noteq> [] \<and> g_letter (hd w) \<and> list_all (\<lambda>c. g_letter c \<or> c = CHR ''_'') w"
proof
  show "g_word w \<Longrightarrow> w \<noteq> [] \<and> g_letter (hd w) \<and> list_all (\<lambda>c. g_letter c \<or> c = CHR ''_'') w"
    by (induction rule: g_word.induct) auto
next
  assume "w \<noteq> [] \<and> g_letter (hd w) \<and> list_all (\<lambda>c. g_letter c \<or> c = CHR ''_'') w"
  then show "g_word w"
  proof (induction w rule: rev_induct)
    case (snoc c w)
    then show ?case by (cases "w = []") (auto intro: g_word.intros)
  qed simp
qed

text \<open>For evaluation on given characters.\<close>

lemma g_word_eval:
  "g_word w \<longleftrightarrow> w \<noteq> [] \<and> hd w \<noteq> CHR ''_'' \<and> (\<forall>c \<in> set w.
     97 \<le> (of_char c :: nat) \<and> (of_char c :: nat) \<le> 122 \<or> 65 \<le> (of_char c :: nat) \<and> (of_char c :: nat) \<le> 90 \<or> c = CHR ''_'')"
proof -
  have "\<not> g_letter CHR ''_''" by (simp add: g_letter_def char_between_def)
  then show ?thesis
    unfolding g_word_iff list_all_iff using hd_in_set [of w] by (auto simp: g_letter_def char_between_def)
qed

lemma g_word_c_string: "g_word w \<Longrightarrow> c_string w"
  by (auto simp: g_word_eval c_string_def NUL_def)

lemma g_word_is_word: "g_word w \<Longrightarrow> is_word w"
  using g_word_c_string [of w] by (auto simp: word_chars_eval g_word_eval)

lemma not_is_word_newline [simp]: "\<not> is_word [CHR 0x0A]"
  by (simp add: word_chars_eval cstr_def NUL_def)

text \<open>
  What a command that is well formed for the shell writes is a sentence of the grammar exactly when
  all its words are words of the grammar.
\<close>

definition g_words :: "string list \<Rightarrow> bool" where
  "g_words ts \<longleftrightarrow> (\<forall>t \<in> set ts. is_word t \<longrightarrow> g_word t)"

lemma g_words_append [simp]: "g_words (ts @ us) \<longleftrightarrow> g_words ts \<and> g_words us"
  by (auto simp: g_words_def)

lemma g_words_Cons: "g_words (t # ts) \<longleftrightarrow> (is_word t \<longrightarrow> g_word t) \<and> g_words ts"
  by (simp add: g_words_def)

lemma g_element_words: "g_element ts \<Longrightarrow> g_words ts"
  by (induction rule: g_element.induct) (simp_all add: g_words_def)

lemma g_command_words: "g_command ts \<Longrightarrow> g_words ts"
  by (induction rule: g_command.induct) (simp_all add: g_element_words)

lemma g_pipeline_words: "g_pipeline ts \<Longrightarrow> g_words ts"
  by (induction rule: g_pipeline.induct) (auto dest: g_command_words simp: g_words_def)

lemma g_simple_list_words: "g_simple_list ts \<Longrightarrow> g_words ts"
  by (induction rule: g_simple_list.induct) (auto dest: g_pipeline_words simp: g_words_def)

lemma g_element_write: "wf_elem e \<Longrightarrow> g_words (write_elem e) \<Longrightarrow> g_element (write_elem e)"
  by (cases e) (auto simp: g_words_Cons intro: g_element.intros)

lemma g_command_append:
  "g_command ts \<Longrightarrow> list_all wf_elem c \<Longrightarrow> g_words (write_command c) \<Longrightarrow> g_command (ts @ write_command c)"
proof (induction c arbitrary: ts)
  case (Cons e c)
  then have "g_command (ts @ write_elem e)" by (auto intro: g_command.intros g_element_write)
  then show ?case using Cons by fastforce
qed simp

lemma g_command_write: "wf_command c \<Longrightarrow> g_words (write_command c) \<Longrightarrow> g_command (write_command c)"
proof (cases c rule: wf_command.cases)
  case (1 w c')
  moreover assume "wf_command c" "g_words (write_command c)"
  ultimately show ?thesis
    using g_command_append [of "[w]" c'] by (auto simp: g_words_Cons intro: g_command.intros g_element.intros)
qed auto

lemma g_pipeline_write: "wf_pipeline cs \<Longrightarrow> g_words (write_pipeline cs) \<Longrightarrow> g_pipeline (write_pipeline cs)"
proof (induction cs)
  case (Cons c cs)
  show ?case
  proof (cases "cs = []")
    case True
    then show ?thesis using Cons.prems by (auto simp: wf_pipeline_def intro: g_pipeline.intros g_command_write)
  next
    case False
    then have w: "g_words (write_command c)" "g_words (write_pipeline cs)"
      using Cons.prems(2) by (simp_all add: write_pipeline_Cons g_words_Cons)
    then have c: "g_pipeline (write_command c)"
      using Cons.prems(1) by (auto simp: wf_pipeline_def intro: g_pipeline.intros g_command_write)
    have "g_pipeline (write_pipeline cs)" using Cons False w(2) by (simp add: wf_pipeline_def)
    from g_pipeline.intros(2) [OF c this, of 0] False show ?thesis
      by (simp add: write_pipeline_Cons)
  qed
qed (simp add: wf_pipeline_def)

lemma g_simple_list_write:
  "wf_pipeline cs \<Longrightarrow> g_simple_list (write_list cs background) \<longleftrightarrow> g_words (write_list cs background)"
proof
  assume "wf_pipeline cs" "g_words (write_list cs background)"
  then show "g_simple_list (write_list cs background)"
    using g_simple_list.intros g_pipeline_write by (auto simp: write_list_def)
qed (rule g_simple_list_words)

end
