(* ===== verification/Parser.thy ===== *)
theory Parser
  imports Syntax
begin

text \<open>
  The recursive descent parser of the iwish shell (Lab2/iwish/src/parser.c), function by
  function. The sentence is the list of tokens before the terminating NULL of the \<open>char **\<close>; a
  look at an index after that NULL is \<open>Out_Of_Bounds\<close>. A pointer the code writes through
  (\<open>current_index_ptr\<close>, the tree nodes) is an argument, and its new value is part of the result:
  the success flag, the index, the node and the heap. An index is a \<open>nat\<close>: a sentence in memory
  has far fewer than 2 ^ 64 tokens.
\<close>

definition sent_at :: "string list \<Rightarrow> nat \<Rightarrow> string option res" where
  "sent_at sentence i =
     (if i < length sentence then Inr (Some (sentence ! i))
      else if i = length sentence then Inr None else Inl Out_Of_Bounds)"

definition parseLetter :: "string list \<Rightarrow> nat \<Rightarrow> nat \<Rightarrow> (bool \<times> nat) res" where
  "parseLetter sentence current_index current_letter_index =
     bind_res (sent_at sentence current_index) (\<lambda>t.
       case t of
         None \<Rightarrow> Inr (False, current_letter_index)
       | Some s \<Rightarrow> bind_res (str_at s current_letter_index) (\<lambda>letter.
           if char_between CHR ''a'' CHR ''z'' letter \<or> char_between CHR ''A'' CHR ''Z'' letter
           then Inr (True, Suc current_letter_index)
           else if letter = CHR ''-'' \<or> letter = CHR ''.'' \<or> letter = CHR ''/'' \<or> letter = CHR ''_''
           then Inr (True, Suc current_letter_index)
           else Inr (False, current_letter_index)))"

lemma parseLetter_step: "parseLetter ts i k = Inr (True, k') \<Longrightarrow> k' = Suc k"
  by (auto simp: parseLetter_def res_simps split: option.splits if_splits)

lemma sent_at_Some: "sent_at ts i = Inr (Some s) \<longleftrightarrow> i < length ts \<and> s = ts ! i"
  by (auto simp: sent_at_def)

lemma sent_at_None: "sent_at ts i = Inr None \<longleftrightarrow> i = length ts"
  by (auto simp: sent_at_def)

lemma str_at_char: "str_at s k = Inr c \<Longrightarrow> c \<noteq> NUL \<Longrightarrow> k < length s"
  by (auto simp: str_at_def split: if_splits)

text \<open>The loop of \<open>parseWord\<close>: letters up to the NUL.\<close>

function parseWord_loop :: "string list \<Rightarrow> nat \<Rightarrow> nat \<Rightarrow> bool res" where
  "parseWord_loop sentence current_index current_letter_index =
     bind_res (sent_at sentence current_index) (\<lambda>t.
       case t of
         None \<Rightarrow> Inl Null_Deref
       | Some s \<Rightarrow> bind_res (str_at s current_letter_index) (\<lambda>c.
           if c = NUL then Inr True
           else bind_res (parseLetter sentence current_index current_letter_index) (\<lambda>(ok, k).
             if ok then parseWord_loop sentence current_index k else Inr False)))"
  by pat_completeness auto
termination
  by (relation "measure (\<lambda>(ts, i, k). length (ts ! i) - k)")
    (auto simp: sent_at_Some dest!: parseLetter_step dest: str_at_char)

declare parseWord_loop.simps [simp del]

definition parseWord :: "string list \<Rightarrow> nat \<Rightarrow> (bool \<times> nat) res" where
  "parseWord sentence current_index =
     bind_res (sent_at sentence current_index) (\<lambda>t.
       case t of
         None \<Rightarrow> Inr (False, current_index)
       | Some s \<Rightarrow> bind_res (parseWord_loop sentence current_index 0) (\<lambda>ok.
           if ok then Inr (True, Suc current_index) else Inr (False, current_index)))"

definition parseRedirection :: "string list \<Rightarrow> nat \<Rightarrow> (nat \<times> Redirection) option
    \<Rightarrow> (bool \<times> nat \<times> (nat \<times> Redirection) option) res" where
  "parseRedirection sentence current_index redirection_ptr =
     (let after_operator = (\<lambda>a r.
        bind_res (parseWord sentence (Suc current_index)) (\<lambda>(ok, i).
          if \<not> ok then Inr (False, current_index, Some (a, r))
          else bind_res (sent_at sentence (i - 1)) (\<lambda>w.
            Inr (True, i, Some (a, r\<lparr>redirection_word := w\<rparr>)))))
      in bind_res (sent_at sentence current_index) (\<lambda>t.
        case t of
          None \<Rightarrow> Inr (False, current_index, redirection_ptr)
        | Some s \<Rightarrow>
            if strcmp_eq s ''<''
            then (case redirection_ptr of None \<Rightarrow> Inl Null_Deref
                  | Some (a, r) \<Rightarrow> after_operator a (r\<lparr>isInputRedirection := Some 1\<rparr>))
            else if strcmp_eq s ''>''
            then (case redirection_ptr of None \<Rightarrow> Inl Null_Deref
                  | Some (a, r) \<Rightarrow> after_operator a (r\<lparr>isInputRedirection := Some 0\<rparr>))
            else Inr (False, current_index, redirection_ptr)))"

definition parseSimpleCommandElement :: "string list \<Rightarrow> nat \<Rightarrow> Simple_Command_Element \<Rightarrow> heap
    \<Rightarrow> (bool \<times> nat \<times> Simple_Command_Element \<times> heap) res" where
  "parseSimpleCommandElement sentence current_index element h =
     bind_res (sent_at sentence current_index) (\<lambda>t.
       case t of
         None \<Rightarrow> Inr (False, current_index, element, h)
       | Some s \<Rightarrow> bind_res (parseWord sentence current_index) (\<lambda>(ok, i).
           if ok
           then Inr (True, i, element\<lparr>isRedirection := 0, element_word := Some s,
                                       redirection_pointer := None\<rparr>, h)
           else (case makeNewRedirection h of (r, h1) \<Rightarrow>
             bind_res (parseRedirection sentence current_index r) (\<lambda>(ok2, i2, r2).
               if ok2
               then Inr (True, i2, element\<lparr>redirection_pointer := r2, isRedirection := 1,
                                            element_word := None\<rparr>, h1)
               else bind_res (freeRedirection r2 h1) (\<lambda>h2.
                 Inr (False, current_index, element\<lparr>redirection_pointer := None\<rparr>, h2))))))"

section \<open>What the lexical functions accept\<close>

lemma cstr_at:
  "k < length (cstr s) \<Longrightarrow> str_at s k = Inr (cstr s ! k) \<and> cstr s ! k \<noteq> NUL"
proof -
  assume k: "k < length (cstr s)"
  then have "k < length s" using length_takeWhile_le [of "\<lambda>c. c \<noteq> NUL" s] by (simp add: cstr_def)
  moreover have "cstr s ! k = s ! k" using k by (simp add: cstr_def takeWhile_nth)
  moreover have "cstr s ! k \<in> set (cstr s)" using k by simp
  ultimately show ?thesis by (auto simp: str_at_def cstr_def dest: set_takeWhileD)
qed

lemma cstr_end: "str_at s (length (cstr s)) = Inr NUL"
proof (cases "length (cstr s) < length s")
  case True
  then have "s ! length (cstr s) = NUL"
    using nth_length_takeWhile [of "\<lambda>c. c \<noteq> NUL" s] by (simp add: cstr_def)
  with True show ?thesis by (simp add: str_at_def)
next
  case False
  then have "length (cstr s) = length s"
    using length_takeWhile_le [of "\<lambda>c. c \<noteq> NUL" s] by (simp add: cstr_def)
  then show ?thesis by (simp add: str_at_def)
qed

lemma parseLetter_eq:
  "i < length ts \<Longrightarrow> str_at (ts ! i) k = Inr c \<Longrightarrow>
     parseLetter ts i k = Inr (if word_char c then (True, Suc k) else (False, k))"
  by (auto simp: parseLetter_def sent_at_def word_char_def)

lemma parseWord_loop_eq:
  "i < length ts \<Longrightarrow> k \<le> length (cstr (ts ! i)) \<Longrightarrow>
     parseWord_loop ts i k = Inr (list_all word_char (drop k (cstr (ts ! i))))"
proof (induction "length (cstr (ts ! i)) - k" arbitrary: k)
  case 0
  then have "k = length (cstr (ts ! i))" by simp
  then have "str_at (ts ! i) k = Inr NUL" using cstr_end by simp
  then show ?case using 0 by (simp add: parseWord_loop.simps [of ts i k] sent_at_def)
next
  case (Suc n)
  then have k: "k < length (cstr (ts ! i))" by simp
  note c = cstr_at [OF k]
  have "n = length (cstr (ts ! i)) - Suc k" using Suc(2) by simp
  then have IH: "parseWord_loop ts i (Suc k) = Inr (list_all word_char (drop (Suc k) (cstr (ts ! i))))"
    using Suc k by simp
  have "drop k (cstr (ts ! i)) = cstr (ts ! i) ! k # drop (Suc k) (cstr (ts ! i))"
    using k by (simp add: Cons_nth_drop_Suc)
  then show ?case
    using Suc.prems c IH parseLetter_eq [of i ts k]
    by (simp add: parseWord_loop.simps [of ts i k] sent_at_def)
qed

text \<open>\<open>parseWord\<close> takes one token when it is a word, and nothing otherwise.\<close>

lemma parseWord_eq:
  "i \<le> length ts \<Longrightarrow>
     parseWord ts i = Inr (if i < length ts \<and> is_word (ts ! i) then (True, Suc i) else (False, i))"
  by (auto simp: parseWord_def sent_at_def parseWord_loop_eq is_word_def)

section \<open>Progress of the lexical functions\<close>

lemma parseWord_progress: "parseWord ts i = Inr (True, j) \<Longrightarrow> j = Suc i \<and> i < length ts"
  by (auto simp: parseWord_def res_simps sent_at_Some split: option.splits if_splits)

lemma parseWord_stays: "parseWord ts i = Inr (False, j) \<Longrightarrow> j = i"
  by (auto simp: parseWord_def res_simps split: option.splits if_splits)

lemma parseRedirection_progress: "parseRedirection ts i r = Inr (True, j, r') \<Longrightarrow> j = Suc (Suc i)"
  by (auto simp: parseRedirection_def Let_def res_simps split: option.splits if_splits prod.splits
      dest!: parseWord_progress)

lemma parseSimpleCommandElement_progress:
  "parseSimpleCommandElement ts i e h = Inr (True, j, e', h') \<Longrightarrow> i < j"
  by (auto simp: parseSimpleCommandElement_def res_simps split: option.splits if_splits prod.splits
      dest!: parseWord_progress parseRedirection_progress)

text \<open>
  \<open>parseSimpleCommand\<close> fills the first node of the list it is given, allocates the next one and
  parses on; when that fails it frees the next node again.
\<close>

function parseSimpleCommand :: "string list \<Rightarrow> nat \<Rightarrow> Simple_Command_Element_List \<Rightarrow> heap
    \<Rightarrow> (bool \<times> nat \<times> Simple_Command_Element_List \<times> heap) res" where
  "parseSimpleCommand sentence current_index l h =
     bind_res (sent_at sentence current_index) (\<lambda>t.
       case t of
         None \<Rightarrow> Inr (False, current_index, l, h)
       | Some s \<Rightarrow>
         (case l of
            [] \<Rightarrow> Inl Null_Deref
          | (a, e) # next \<Rightarrow>
              bind_res (parseSimpleCommandElement sentence current_index e h) (\<lambda>(ok, i, e1, h1).
                if \<not> ok then Inr (False, current_index, (a, e1) # next, h1)
                else (case makeNewSimpleCommandElementList h1 of
                  ([], h2) \<Rightarrow> Inr (False, i, [(a, e1)], h2)
                | (n # ns, h2) \<Rightarrow>
                    bind_res (parseSimpleCommand sentence i (n # ns) h2) (\<lambda>(ok2, i2, next2, h3).
                      if \<not> ok2
                      then bind_res (freeSimpleCommandElementList next2 h3) (\<lambda>h4.
                        Inr (True, i2, [(a, e1)], h4))
                      else Inr (True, i2, (a, e1) # next2, h3))))))"
  by pat_completeness auto
termination
  by (relation "measure (\<lambda>(ts, i, l, h). length ts - i)")
    (auto simp: sent_at_Some dest!: parseSimpleCommandElement_progress)

declare parseSimpleCommand.simps [simp del]

text \<open>
  Induction over a run of \<open>parseSimpleCommand\<close> that returns: one case per way the code can go.
\<close>

lemma parseSimpleCommand_run_induct [consumes 1, case_names stop elem_fails no_node last more]:
  assumes run: "parseSimpleCommand ts i l h = Inr (b, j, l', h')"
    and stop: "\<And>i l h. i = length ts \<Longrightarrow> P i l h False i l h"
    and elem_fails: "\<And>i a e nx h k e1 h1. i < length ts \<Longrightarrow>
       parseSimpleCommandElement ts i e h = Inr (False, k, e1, h1) \<Longrightarrow>
       P i ((a, e) # nx) h False i ((a, e1) # nx) h1"
    and no_node: "\<And>i a e nx h k e1 h1 h2. i < length ts \<Longrightarrow>
       parseSimpleCommandElement ts i e h = Inr (True, k, e1, h1) \<Longrightarrow>
       makeNewSimpleCommandElementList h1 = ([], h2) \<Longrightarrow>
       P i ((a, e) # nx) h False k [(a, e1)] h2"
    and last: "\<And>i a e nx h k e1 h1 n h2 j n2 h3 h4. i < length ts \<Longrightarrow>
       parseSimpleCommandElement ts i e h = Inr (True, k, e1, h1) \<Longrightarrow>
       makeNewSimpleCommandElementList h1 = (n, h2) \<Longrightarrow> n \<noteq> [] \<Longrightarrow>
       P k n h2 False j n2 h3 \<Longrightarrow>
       freeSimpleCommandElementList n2 h3 = Inr h4 \<Longrightarrow> P i ((a, e) # nx) h True j [(a, e1)] h4"
    and more: "\<And>i a e nx h k e1 h1 n h2 j n2 h3. i < length ts \<Longrightarrow>
       parseSimpleCommandElement ts i e h = Inr (True, k, e1, h1) \<Longrightarrow>
       makeNewSimpleCommandElementList h1 = (n, h2) \<Longrightarrow> n \<noteq> [] \<Longrightarrow>
       P k n h2 True j n2 h3 \<Longrightarrow> P i ((a, e) # nx) h True j ((a, e1) # n2) h3"
  shows "P i l h b j l' h'"
proof -
  have "parseSimpleCommand ts' i l h = Inr (b, j, l', h') \<Longrightarrow> ts' = ts \<Longrightarrow> P i l h b j l' h'" for ts'
  proof (induction ts' i l h arbitrary: b j l' h' rule: parseSimpleCommand.induct)
    case (1 ts' i l h)
    note unfold = "1.prems"(1) [unfolded parseSimpleCommand.simps [of ts' i l h], unfolded "1.prems"(2)]
    obtain t where t: "sent_at ts i = Inr t" using unfold by (cases "sent_at ts i") auto
    show ?case
    proof (cases t)
      case None
      then show ?thesis using unfold t stop by (auto simp: sent_at_None)
    next
      case (Some s)
      then have i: "i < length ts" using t by (simp add: sent_at_Some)
      obtain a e nx where l: "l = (a, e) # nx" using unfold t Some by (cases l) auto
      obtain ok k e1 h1 where el: "parseSimpleCommandElement ts i e h = Inr (ok, k, e1, h1)"
        using unfold t Some l by (cases "parseSimpleCommandElement ts i e h") auto
      obtain n h2 where mk: "makeNewSimpleCommandElementList h1 = (n, h2)" by fastforce
      note unfold = unfold [unfolded t Some l, simplified, unfolded el, simplified, unfolded mk, simplified]
      show ?thesis
      proof (cases "ok \<and> n \<noteq> []")
        case False
        then show ?thesis using unfold l el mk i elem_fails no_node by (auto split: if_splits list.splits)
      next
        case True
        then obtain m ms where n: "n = m # ms" by (cases n) auto
        obtain b2 j2 n2 h3 where rec: "parseSimpleCommand ts k n h2 = Inr (b2, j2, n2, h3)"
          using unfold True n by (cases "parseSimpleCommand ts k n h2") auto
        have "P k n h2 b2 j2 n2 h3"
          using "1.IH" [unfolded "1.prems"(2), OF t Some l refl el refl refl refl _ mk [symmetric] n] rec True n
          by simp
        then show ?thesis
          using unfold True n rec l i el mk last more
          by (cases b2) (auto simp: bind_res_eq_Inr)
      qed
    qed
  qed
  then show ?thesis using run by blast
qed

text \<open>The index never goes back, and a parsed command has consumed at least one token.\<close>

lemma parseSimpleCommand_progress:
  "parseSimpleCommand ts i l h = Inr (b, j, l', h') \<Longrightarrow> i \<le> j \<and> (b \<longrightarrow> i < j)"
  by (induction rule: parseSimpleCommand_run_induct)
    (auto dest!: parseSimpleCommandElement_progress)

section \<open>Pipelines\<close>

text \<open>
  \<open>parsePipeLine\<close> first looks whether the command starts with a word (a token it only looks at),
  then parses the command and, with \<open>parsePipeLine2\<close>, a bar and the rest of the pipeline. A rest
  that does not parse is given back: the index returns to the bar.
\<close>

function parsePipeLine :: "string list \<Rightarrow> nat \<Rightarrow> Simple_Command_List \<Rightarrow> heap
    \<Rightarrow> (bool \<times> nat \<times> Simple_Command_List \<times> heap) res"
and parsePipeLine2 :: "string list \<Rightarrow> nat \<Rightarrow> Simple_Command_List \<Rightarrow> heap
    \<Rightarrow> (bool \<times> nat \<times> Simple_Command_List \<times> heap) res" where
  "parsePipeLine sentence current_index l h =
     bind_res (sent_at sentence current_index) (\<lambda>t.
       case t of
         None \<Rightarrow> Inr (False, current_index, l, h)
       | Some s \<Rightarrow> bind_res (parseWord sentence current_index) (\<lambda>(ok, i).
           if \<not> ok then Inr (False, i, l, h)
           else (case l of
             [] \<Rightarrow> Inl Null_Deref
           | (a, c) # next \<Rightarrow>
               bind_res (parseSimpleCommand sentence (i - 1) (element_list c) h) (\<lambda>(ok2, j, el, h1).
                 if \<not> ok2 then Inr (False, current_index, (a, c\<lparr>element_list := el\<rparr>) # next, h1)
                 else bind_res (parsePipeLine2 sentence j ((a, c\<lparr>element_list := el\<rparr>) # next) h1)
                   (\<lambda>(ok3, k, l3, h3). Inr (True, (if ok3 then k else j), l3, h3))))))"
| "parsePipeLine2 sentence current_index previous h =
     bind_res (sent_at sentence current_index) (\<lambda>t.
       case t of
         None \<Rightarrow> Inr (False, current_index, previous, h)
       | Some s \<Rightarrow>
           if \<not> strcmp_eq s ''|'' then Inr (False, current_index, previous, h)
           else (case previous of
             [] \<Rightarrow> Inl Null_Deref
           | p # next \<Rightarrow>
               (case makeNewSimpleCommandList h of
                  ([], h1) \<Rightarrow> Inr (False, Suc current_index, [p], h1)
                | (n # ns, h1) \<Rightarrow>
                    bind_res (parsePipeLine sentence (Suc current_index) (n # ns) h1)
                      (\<lambda>(ok, i, next2, h2).
                        if \<not> ok
                        then bind_res (freeSimpleCommandList next2 h2) (\<lambda>h3.
                          Inr (False, Suc current_index, [p], h3))
                        else Inr (True, i, p # next2, h2)))))"
  by pat_completeness auto
termination
  by (relation "measure (\<lambda>x. case x of Inl (ts, i, l, h) \<Rightarrow> length ts - i | Inr (ts, i, l, h) \<Rightarrow> length ts - i)")
    (auto simp: sent_at_Some dest!: parseSimpleCommand_progress parseWord_progress)

declare parsePipeLine.simps [simp del] parsePipeLine2.simps [simp del]

text \<open>
  Induction over a run of \<open>parsePipeLine\<close> that returns, \<open>parsePipeLine2\<close> unfolded into it.
\<close>

lemma parsePipeLine_run_induct
    [consumes 1, case_names stop no_word cmd_fails no_bar no_node rest_fails rest]:
  assumes run: "parsePipeLine ts i l h = Inr (b, j, l', h')"
    and stop: "\<And>i l h. i = length ts \<Longrightarrow> P i l h False i l h"
    and no_word: "\<And>i l h. i < length ts \<Longrightarrow> parseWord ts i = Inr (False, i) \<Longrightarrow> P i l h False i l h"
    and cmd_fails: "\<And>i a c nx h k el h1. i < length ts \<Longrightarrow> parseWord ts i = Inr (True, Suc i) \<Longrightarrow>
       parseSimpleCommand ts i (element_list c) h = Inr (False, k, el, h1) \<Longrightarrow>
       P i ((a, c) # nx) h False i ((a, c\<lparr>element_list := el\<rparr>) # nx) h1"
    and no_bar: "\<And>i a c nx h j el h1. i < length ts \<Longrightarrow> parseWord ts i = Inr (True, Suc i) \<Longrightarrow>
       parseSimpleCommand ts i (element_list c) h = Inr (True, j, el, h1) \<Longrightarrow> j \<le> length ts \<Longrightarrow>
       \<not> (j < length ts \<and> strcmp_eq (ts ! j) ''|'') \<Longrightarrow>
       P i ((a, c) # nx) h True j ((a, c\<lparr>element_list := el\<rparr>) # nx) h1"
    and no_node: "\<And>i a c nx h j el h1 h2. i < length ts \<Longrightarrow> parseWord ts i = Inr (True, Suc i) \<Longrightarrow>
       parseSimpleCommand ts i (element_list c) h = Inr (True, j, el, h1) \<Longrightarrow>
       j < length ts \<Longrightarrow> strcmp_eq (ts ! j) ''|'' \<Longrightarrow> makeNewSimpleCommandList h1 = ([], h2) \<Longrightarrow>
       P i ((a, c) # nx) h True j [(a, c\<lparr>element_list := el\<rparr>)] h2"
    and rest_fails: "\<And>i a c nx h j el h1 n h2 k n2 h3 h4. i < length ts \<Longrightarrow>
       parseWord ts i = Inr (True, Suc i) \<Longrightarrow>
       parseSimpleCommand ts i (element_list c) h = Inr (True, j, el, h1) \<Longrightarrow> i < j \<Longrightarrow>
       j < length ts \<Longrightarrow> strcmp_eq (ts ! j) ''|'' \<Longrightarrow> makeNewSimpleCommandList h1 = (n, h2) \<Longrightarrow> n \<noteq> [] \<Longrightarrow>
       P (Suc j) n h2 False k n2 h3 \<Longrightarrow> freeSimpleCommandList n2 h3 = Inr h4 \<Longrightarrow>
       P i ((a, c) # nx) h True j [(a, c\<lparr>element_list := el\<rparr>)] h4"
    and rest: "\<And>i a c nx h j el h1 n h2 k n2 h3. i < length ts \<Longrightarrow>
       parseWord ts i = Inr (True, Suc i) \<Longrightarrow>
       parseSimpleCommand ts i (element_list c) h = Inr (True, j, el, h1) \<Longrightarrow> i < j \<Longrightarrow>
       j < length ts \<Longrightarrow> strcmp_eq (ts ! j) ''|'' \<Longrightarrow> makeNewSimpleCommandList h1 = (n, h2) \<Longrightarrow> n \<noteq> [] \<Longrightarrow>
       P (Suc j) n h2 True k n2 h3 \<Longrightarrow>
       P i ((a, c) # nx) h True k ((a, c\<lparr>element_list := el\<rparr>) # n2) h3"
  shows "P i l h b j l' h'"
  using run
proof (induction "length ts - i" arbitrary: i l h b j l' h' rule: less_induct)
  case less
  note unfold = less.prems [unfolded parsePipeLine.simps [of ts i l h]]
  obtain t where t: "sent_at ts i = Inr t" using unfold by (cases "sent_at ts i") auto
  show ?case
  proof (cases t)
    case None
    then show ?thesis using unfold t stop by (auto simp: sent_at_None)
  next
    case (Some s)
    then have i: "i < length ts" using t by (simp add: sent_at_Some)
    obtain w k where w: "parseWord ts i = Inr (w, k)"
      using unfold t Some by (cases "parseWord ts i") auto
    show ?thesis
    proof (cases w)
      case False
      then show ?thesis using unfold t Some i w no_word parseWord_stays by fastforce
    next
      case True
      then have k: "k = Suc i" "parseWord ts i = Inr (True, Suc i)" using w parseWord_progress by auto
      obtain a c nx where l: "l = (a, c) # nx" using unfold t Some k by (cases l) auto
      obtain ok m el h1 where cmd: "parseSimpleCommand ts i (element_list c) h = Inr (ok, m, el, h1)"
        using unfold t Some k l by (cases "parseSimpleCommand ts i (element_list c) h") auto
      show ?thesis
      proof (cases ok)
        case False
        then show ?thesis using unfold t Some k l cmd i cmd_fails by auto
      next
        case True
        let ?p = "(a, c\<lparr>element_list := el\<rparr>)"
        have m: "i < m" using cmd True parseSimpleCommand_progress by blast
        obtain ok3 q l3 h3 where p2: "parsePipeLine2 ts m (?p # nx) h1 = Inr (ok3, q, l3, h3)"
          using unfold t Some k l cmd True by (cases "parsePipeLine2 ts m (?p # nx) h1") auto
        then have r: "b" "j = (if ok3 then q else m)" "l' = l3" "h' = h3"
          using unfold t Some k l cmd True by auto
        note unfold2 = p2 [unfolded parsePipeLine2.simps [of ts m]]
        obtain t2 where t2: "sent_at ts m = Inr t2" using unfold2 by (cases "sent_at ts m") auto
        show ?thesis
        proof (cases "m < length ts \<and> strcmp_eq (ts ! m) ''|''")
          case False
          then have "\<not> ok3" "l3 = ?p # nx" "h3 = h1" "m \<le> length ts"
            using unfold2 t2 by (auto simp: sent_at_def split: if_splits)
          then show ?thesis using no_bar i k cmd True False r l by auto
        next
          case bar: True
          then have t2: "sent_at ts m = Inr (Some (ts ! m))" by (simp add: sent_at_def)
          obtain n h2 where mk: "makeNewSimpleCommandList h1 = (n, h2)" by fastforce
          show ?thesis
          proof (cases n)
            case Nil
            then show ?thesis using unfold2 t2 bar mk no_node i k cmd True r l by auto
          next
            case (Cons x xs)
            obtain ok5 k5 n5 h5 where rec: "parsePipeLine ts (Suc m) n h2 = Inr (ok5, k5, n5, h5)"
              using unfold2 t2 bar mk Cons by (cases "parsePipeLine ts (Suc m) n h2") auto
            have "length ts - Suc m < length ts - i" using m bar by auto
            then have P: "P (Suc m) n h2 ok5 k5 n5 h5" using rec by (rule less.hyps)
            show ?thesis
            proof (cases ok5)
              case False
              then show ?thesis using unfold2 t2 bar mk Cons rec P rest_fails [OF i k(2) _ m] cmd True r l
                by (auto simp: bind_res_eq_Inr)
            next
              case True
              then show ?thesis using unfold2 t2 bar mk Cons rec P rest [OF i k(2) _ m] cmd \<open>ok\<close> r l
                by auto
            qed
          qed
        qed
      qed
    qed
  qed
qed

definition parseInput :: "string list \<Rightarrow> (nat \<times> Simple_List) option \<Rightarrow> heap
    \<Rightarrow> (bool \<times> (nat \<times> Simple_List) option \<times> heap) res" where
  "parseInput sentence simple_list_ptr h =
     bind_res (sent_at sentence 0) (\<lambda>t.
       case t of
         None \<Rightarrow> Inr (False, simple_list_ptr, h)
       | Some s \<Rightarrow>
         (case simple_list_ptr of
            None \<Rightarrow> Inl Null_Deref
          | Some (a, sl) \<Rightarrow>
              bind_res (parsePipeLine sentence 0 (simple_command_list (pipeline sl)) h)
                (\<lambda>(ok, i, cl, h1).
                  let sl1 = sl\<lparr>pipeline := \<lparr>simple_command_list = cl\<rparr>\<rparr> in
                  if \<not> ok then Inr (False, Some (a, sl1), h1)
                  else bind_res (sent_at sentence i) (\<lambda>t1.
                    let (sl2, i2) =
                      (case t1 of
                         Some s1 \<Rightarrow> if strcmp_eq s1 ''&''
                                     then (sl1\<lparr>hasDaemonAmpersand := 1\<rparr>, Suc i) else (sl1, i)
                       | None \<Rightarrow> (sl1, i))
                    in bind_res (sent_at sentence i2) (\<lambda>t2.
                      Inr (t2 = None, Some (a, sl2), h1))))))"

end
