(* ===== verification/ParserMemory.thy ===== *)
theory ParserMemory
  imports Parser
begin

text \<open>
  The memory discipline of the parser: for every function, which blocks the tree it returns owns,
  whatever requests the allocator refuses. The blocks of a tree are live and all different, so
  freeing it is always defined; and when nothing is refused nothing leaks. Here are also the
  properties about freeing a tree after a parse, and the two places where the code loses memory
  or writes through NULL when a request is refused.
\<close>

text \<open>Facts that evaluate the parser on given tokens.\<close>

lemmas parser_eval = parseInput_def parsePipeLine.simps parsePipeLine2.simps
  parseSimpleCommand.simps parseSimpleCommandElement_def parseWord_eq sent_at_def
  makeNewSimpleCommandElementList_def makeNewSimpleCommandList_def sizeof_defs
  word_chars_eval cstr_def NUL_def strcmp_eq_def

lemma parseRedirection_block: "parseRedirection ts i r = Inr (b, j, r') \<Longrightarrow> redir_blocks r' = redir_blocks r"
  by (auto simp: parseRedirection_def Let_def res_simps split: option.splits if_splits prod.splits)

lemma parseSimpleCommandElement_own:
  assumes run: "parseSimpleCommandElement ts i e h = Inr (b, j, e', h')"
    and ok: "heap_ok h" and e: "redirection_pointer e = None"
  shows "own_rel {} h (set (redir_blocks (redirection_pointer e'))) h'"
    and "distinct (redir_blocks (redirection_pointer e'))"
    and "\<not> b \<Longrightarrow> redirection_pointer e' = None"
proof -
  obtain r h1 where mk: "makeNewRedirection h = (r, h1)" by fastforce
  note r = makeNewRedirection_own [OF mk ok]
  have free: "freeRedirection r2 h1 = Inr h2 \<Longrightarrow> redir_blocks r2 = redir_blocks r \<Longrightarrow> own_rel {} h {} h2"
    for r2 h2
  proof -
    assume "redir_blocks r2 = redir_blocks r" and f: "freeRedirection r2 h1 = Inr h2"
    then have s: "sound (redir_blocks r2) h1" using r own_rel_live by (simp add: sound_def)
    then have "h2 = release (redir_blocks r2) h1" using f freeRedirection_sound by simp
    then have "own_rel (set (redir_blocks r)) h1 {} h2"
      using own_rel_release [OF s] \<open>redir_blocks r2 = redir_blocks r\<close> by simp
    with r(1) show ?thesis by (rule own_rel_trans)
  qed
  show "own_rel {} h (set (redir_blocks (redirection_pointer e'))) h'"
    and "distinct (redir_blocks (redirection_pointer e'))"
    and "\<not> b \<Longrightarrow> redirection_pointer e' = None"
    using run mk r e free
    by (auto simp: parseSimpleCommandElement_def res_simps split: option.splits if_splits
        dest!: parseRedirection_block)
qed

text \<open>An element parsed into a fresh node at a.\<close>

lemma parseSimpleCommandElement_node:
  assumes run: "parseSimpleCommandElement ts i uninitialised_element h = Inr (b, j, e1, h1)"
    and ok: "heap_ok h" and a: "a \<in> live h"
  shows "own_rel {a} h ({a} \<union> set (redir_blocks (redirection_pointer e1))) h1"
    and "distinct (a # redir_blocks (redirection_pointer e1))" and "heap_ok h1"
    and "\<not> b \<Longrightarrow> redirection_pointer e1 = None"
proof -
  have "redirection_pointer uninitialised_element = None" by (simp add: uninitialised_element_def)
  note e1 = parseSimpleCommandElement_own [OF run ok this]
  have "own_rel {a} h {a} h" using a by simp
  note ext = own_rel_extend [OF this e1(1)]
  show "own_rel {a} h ({a} \<union> set (redir_blocks (redirection_pointer e1))) h1" by (rule ext(1))
  show "distinct (a # redir_blocks (redirection_pointer e1))" using ext(2) e1(2) by simp
  show "heap_ok h1" using own_rel_ok [OF e1(1) ok] .
  show "\<not> b \<Longrightarrow> redirection_pointer e1 = None" by (rule e1(3))
qed

lemma freeSimpleCommandElementList_own:
  assumes "freeSimpleCommandElementList l h = Inr h'" "sound (elems_blocks l) h"
  shows "own_rel (set (elems_blocks l)) h {} h'"
  using assms freeSimpleCommandElementList_sound own_rel_release by fastforce

lemma freeSimpleCommandList_own:
  assumes "freeSimpleCommandList l h = Inr h'" "sound (cmds_blocks l) h"
  shows "own_rel (set (cmds_blocks l)) h {} h'"
  using assms freeSimpleCommandList_sound own_rel_release by fastforce

text \<open>The next node of a command.\<close>

lemma makeNewSimpleCommandElementList_node:
  assumes "makeNewSimpleCommandElementList h = (n, h')" "heap_ok h" "n \<noteq> []"
  obtains a where "n = [(a, uninitialised_element)]" "own_rel {} h {a} h'" "heap_ok h'" "a \<in> live h'"
proof -
  note n = makeNewSimpleCommandElementList_own [OF assms(1,2)]
  obtain a where a: "n = [(a, uninitialised_element)]" using n(4) assms(3) by blast
  then have "own_rel {} h {a} h'" using n(1) by (simp add: uninitialised_element_def)
  then show thesis using that a own_rel_ok [OF _ assms(2)] own_rel_live by blast
qed

text \<open>A command parsed into a fresh node.\<close>

lemma parseSimpleCommand_own:
  assumes "parseSimpleCommand ts i l h = Inr (b, j, l', h')"
    and "heap_ok h" "l = [(a, uninitialised_element)]" "a \<in> live h"
  shows "own_rel {a} h (set (elems_blocks l')) h' \<and> distinct (elems_blocks l')"
  using assms
proof (induction arbitrary: a rule: parseSimpleCommand_run_induct)
  case (stop i l h)
  then show ?case by (simp add: uninitialised_element_def)
next
  case (elem_fails i a' e nx h k e1 h1)
  then have "parseSimpleCommandElement ts i uninitialised_element h = Inr (False, k, e1, h1)" by simp
  note e1 = parseSimpleCommandElement_node [OF this elem_fails(3,5)]
  show ?case using e1(1,4) elem_fails by simp
next
  case (no_node i a' e nx h k e1 h1 h2)
  then have "parseSimpleCommandElement ts i uninitialised_element h = Inr (True, k, e1, h1)" by simp
  note e1 = parseSimpleCommandElement_node [OF this no_node(4,6)]
  have "own_rel {} h1 {} h2"
    using makeNewSimpleCommandElementList_own(1) [OF no_node(3) e1(3)] by simp
  from own_rel_extend(1) [OF e1(1) this] e1(2) show ?case using no_node by simp
next
  case (last i a' e nx h k e1 h1 n h2 j n2 h3 h4)
  then have "parseSimpleCommandElement ts i uninitialised_element h = Inr (True, k, e1, h1)" by simp
  note e1 = parseSimpleCommandElement_node [OF this last(7,9)]
  obtain a2 where a2: "n = [(a2, uninitialised_element)]" "own_rel {} h1 {a2} h2" "heap_ok h2" "a2 \<in> live h2"
    using makeNewSimpleCommandElementList_node [OF last(3) e1(3) last(4)] .
  have n2: "own_rel {} h1 (set (elems_blocks n2)) h3" "distinct (elems_blocks n2)"
    using last.IH [OF a2(3,1,4)] own_rel_trans [OF a2(2)] by auto
  then have "own_rel (set (elems_blocks n2)) h3 {} h4"
    using freeSimpleCommandElementList_own [OF last(5)] own_rel_live by (auto simp: sound_def)
  from own_rel_extend(1) [OF e1(1) own_rel_trans [OF n2(1) this]] e1(2) show ?case using last by simp
next
  case (more i a' e nx h k e1 h1 n h2 j n2 h3)
  then have "parseSimpleCommandElement ts i uninitialised_element h = Inr (True, k, e1, h1)" by simp
  note e1 = parseSimpleCommandElement_node [OF this more(6,8)]
  obtain a2 where a2: "n = [(a2, uninitialised_element)]" "own_rel {} h1 {a2} h2" "heap_ok h2" "a2 \<in> live h2"
    using makeNewSimpleCommandElementList_node [OF more(3) e1(3) more(4)] .
  have n2: "own_rel {} h1 (set (elems_blocks n2)) h3" "distinct (elems_blocks n2)"
    using more.IH [OF a2(3,1,4)] own_rel_trans [OF a2(2)] by auto
  from own_rel_extend [OF e1(1) n2(1)] e1(2) n2(2) show ?case using more by (auto simp: Un_assoc)
qed

text \<open>The same inside a pipeline node a that owns the command node b.\<close>

lemma parseCommand_own:
  assumes "parseSimpleCommand ts i [(b, uninitialised_element)] h = Inr (ok, j, el, h1)"
    and "heap_ok h" "a \<noteq> b" "{a, b} \<subseteq> live h"
  shows "own_rel {a, b} h ({a} \<union> set (elems_blocks el)) h1"
    and "distinct (a # elems_blocks el)" and "heap_ok h1"
proof -
  have el: "own_rel {b} h (set (elems_blocks el)) h1" "distinct (elems_blocks el)"
    using parseSimpleCommand_own [OF assms(1,2) refl] assms(4) by auto
  have "{a} \<subseteq> live h - {b}" using assms by auto
  note fr = own_rel_frame [OF el(1) this]
  show "own_rel {a, b} h ({a} \<union> set (elems_blocks el)) h1" using fr(1) by (simp add: insert_commute)
  show "distinct (a # elems_blocks el)" using fr(2) el(2) by simp
  show "heap_ok h1" using own_rel_ok [OF el(1) assms(2)] .
qed

lemma makeNewSimpleCommandList_node:
  assumes "makeNewSimpleCommandList h = (n, h')" "heap_ok h" "n \<noteq> []"
  obtains a b where "n = [(a, \<lparr>element_list = [(b, uninitialised_element)]\<rparr>)]"
    "own_rel {} h {a, b} h'" "heap_ok h'" "a \<noteq> b" "{a, b} \<subseteq> live h'"
proof -
  note n = makeNewSimpleCommandList_own [OF assms(1,2)]
  obtain a b where ab: "n = [(a, \<lparr>element_list = [(b, uninitialised_element)]\<rparr>)]"
    using n(4) assms(3) by blast
  then have "own_rel {} h {a, b} h'" "a \<noteq> b"
    using n(1,2) by (simp_all add: uninitialised_element_def)
  then show thesis using that ab own_rel_ok [OF _ assms(2)] own_rel_live by blast
qed

text \<open>A pipeline parsed into a fresh node, whose command has a fresh node too.\<close>

lemma parsePipeLine_own:
  assumes "parsePipeLine ts i l h = Inr (ok, j, l', h')" "heap_ok h"
    "l = [(a, \<lparr>element_list = [(b, uninitialised_element)]\<rparr>)]" "a \<noteq> b" "{a, b} \<subseteq> live h"
  shows "own_rel {a, b} h (set (cmds_blocks l')) h' \<and> distinct (cmds_blocks l')"
  using assms
proof (induction arbitrary: a b rule: parsePipeLine_run_induct)
  case (stop i l h)
  then show ?case by (simp add: uninitialised_element_def)
next
  case (no_word i l h)
  then show ?case by (simp add: uninitialised_element_def)
next
  case (cmd_fails i a' c nx h k el h1)
  then show ?case using parseCommand_own [of ts i b h _ _ el h1 a] by auto
next
  case (no_bar i a' c nx h j el h1)
  then show ?case using parseCommand_own [of ts i b h _ _ el h1 a] by auto
next
  case (no_node i a' c nx h j el h1 h2)
  then have "parseSimpleCommand ts i [(b, uninitialised_element)] h = Inr (True, j, el, h1)" by simp
  note el = parseCommand_own [OF this no_node(7,9,10)]
  have "own_rel {} h1 {} h2"
    using makeNewSimpleCommandList_own(1) [OF no_node(6) el(3)] by simp
  from own_rel_extend(1) [OF el(1) this] el(2) show ?case using no_node by simp
next
  case (rest_fails i a' c nx h j el h1 n h2 k n2 h3 h4)
  then have "parseSimpleCommand ts i [(b, uninitialised_element)] h = Inr (True, j, el, h1)" by simp
  note el = parseCommand_own [OF this rest_fails(11,13,14)]
  obtain p q where n: "n = [(p, \<lparr>element_list = [(q, uninitialised_element)]\<rparr>)]"
      "own_rel {} h1 {p, q} h2" "heap_ok h2" "p \<noteq> q" "{p, q} \<subseteq> live h2"
    using makeNewSimpleCommandList_node [OF rest_fails(7) el(3) rest_fails(8)] .
  have n2: "own_rel {} h1 (set (cmds_blocks n2)) h3" "distinct (cmds_blocks n2)"
    using rest_fails.IH [OF n(3,1,4,5)] own_rel_trans [OF n(2)] by auto
  then have "own_rel (set (cmds_blocks n2)) h3 {} h4"
    using freeSimpleCommandList_own [OF rest_fails(9)] own_rel_live by (auto simp: sound_def)
  from own_rel_extend(1) [OF el(1) own_rel_trans [OF n2(1) this]] el(2)
  show ?case using rest_fails by simp
next
  case (rest i a' c nx h j el h1 n h2 k n2 h3)
  then have "parseSimpleCommand ts i [(b, uninitialised_element)] h = Inr (True, j, el, h1)" by simp
  note el = parseCommand_own [OF this rest(10,12,13)]
  obtain p q where n: "n = [(p, \<lparr>element_list = [(q, uninitialised_element)]\<rparr>)]"
      "own_rel {} h1 {p, q} h2" "heap_ok h2" "p \<noteq> q" "{p, q} \<subseteq> live h2"
    using makeNewSimpleCommandList_node [OF rest(7) el(3) rest(8)] .
  have n2: "own_rel {} h1 (set (cmds_blocks n2)) h3" "distinct (cmds_blocks n2)"
    using rest.IH [OF n(3,1,4,5)] own_rel_trans [OF n(2)] by auto
  from own_rel_extend [OF el(1) n2(1)] el(2) n2(2) show ?case using rest by (auto simp: Un_assoc)
qed

text \<open>The whole tree.\<close>

lemma parseInput_run:
  assumes "parseInput ts (Some (p, t)) h = Inr (b, l', h')"
  shows "l' = Some (p, t) \<and> h' = h \<or>
     (\<exists>q j cl t'. parsePipeLine ts 0 (simple_command_list (pipeline t)) h = Inr (q, j, cl, h') \<and>
        l' = Some (p, t') \<and> simple_command_list (pipeline t') = cl)"
proof (cases "ts = []")
  case True
  then show ?thesis using assms by (simp add: parseInput_def sent_at_def)
next
  case False
  then have t0: "sent_at ts 0 = Inr (Some (ts ! 0))" by (simp add: sent_at_def)
  obtain q j cl h1 where pl:
    "parsePipeLine ts 0 (simple_command_list (pipeline t)) h = Inr (q, j, cl, h1)"
    using assms t0 by (cases "parsePipeLine ts 0 (simple_command_list (pipeline t)) h")
      (auto simp: parseInput_def)
  show ?thesis
  proof (cases q)
    case False
    then show ?thesis using assms t0 pl by (auto simp: parseInput_def)
  next
    case True
    obtain t1 where t1: "sent_at ts j = Inr t1"
      using assms t0 pl True by (cases "sent_at ts j") (auto simp: parseInput_def)
    then show ?thesis
      using assms t0 pl True
      by (cases t1) (auto simp: parseInput_def Let_def bind_res_eq_Inr split: if_splits)
  qed
qed

lemma parseInput_own:
  assumes run: "parseInput ts (Some (p, t)) h = Inr (b, l', h')"
    and ok: "heap_ok h" and t: "empty_list_tree t" and s: "sound (list_blocks (Some (p, t))) h"
  shows "own_rel (set (list_blocks (Some (p, t)))) h (set (list_blocks l')) h'"
    and "distinct (list_blocks l')"
proof -
  obtain a c where cl: "simple_command_list (pipeline t) = [(a, \<lparr>element_list = [(c, uninitialised_element)]\<rparr>)]"
    using t by (auto simp: empty_list_tree_def)
  then have d: "a \<noteq> c" "{a, c} \<subseteq> live h" "p \<in> live h - {a, c}" "set (list_blocks (Some (p, t))) = {p, a, c}"
    using s by (auto simp: sound_def uninitialised_element_def)
  have pl: "own_rel {p, a, c} h ({p} \<union> set (cmds_blocks cl')) h1 \<and> distinct (p # cmds_blocks cl')"
    if "parsePipeLine ts 0 (simple_command_list (pipeline t)) h = Inr (q, j, cl', h1)" for q j cl' h1
  proof -
    have o: "own_rel {a, c} h (set (cmds_blocks cl')) h1 \<and> distinct (cmds_blocks cl')"
      using parsePipeLine_own [OF that ok cl d(1,2)] .
    then show ?thesis using own_rel_frame [of "{a, c}" h "set (cmds_blocks cl')" h1 "{p}"] d(3)
      by (auto simp: insert_commute)
  qed
  have "own_rel {p, a, c} h (set (list_blocks l')) h' \<and> distinct (list_blocks l')"
    using parseInput_run [OF run]
  proof
    assume eq: "l' = Some (p, t) \<and> h' = h"
    have "{p, a, c} \<subseteq> live h" "distinct (list_blocks (Some (p, t)))" using s d(4) by (auto simp: sound_def)
    then show ?thesis using eq d(4) by (metis own_rel_refl)
  next
    assume "\<exists>q j cl t'. parsePipeLine ts 0 (simple_command_list (pipeline t)) h = Inr (q, j, cl, h') \<and>
        l' = Some (p, t') \<and> simple_command_list (pipeline t') = cl"
    then obtain q j t' where
      "parsePipeLine ts 0 (simple_command_list (pipeline t)) h =
         Inr (q, j, simple_command_list (pipeline t'), h')" and l': "l' = Some (p, t')" by blast
    from pl [OF this(1)] l' show ?thesis by simp
  qed
  then show "own_rel (set (list_blocks (Some (p, t)))) h (set (list_blocks l')) h'"
    and "distinct (list_blocks l')" using d(4) by auto
qed

section \<open>Properties\<close>

text \<open>
  C14. What the comment of \<open>parseInput\<close> promises: whether the parse succeeds or fails, and whatever
  requests the allocator refuses on the way, a call to \<open>freeSimpleList\<close> on the tree that is left
  is defined (no block is freed twice, none that is not live), it frees no block of anybody else,
  and when no request was refused it frees everything the parse has allocated.
\<close>

theorem parse_then_free:
  assumes "heap_ok h" "makeNewSimpleList h = (Some (p, t), h1)"
    "parseInput ts (Some (p, t)) h1 = Inr (b, l, h2)"
  shows "\<exists>h3. freeSimpleList l h2 = Inr h3 \<and> live h \<subseteq> live h3 \<and> (generous h \<longrightarrow> live h3 = live h)"
proof -
  note mk = makeNewSimpleList_own [OF assms(2,1)]
  have ok1: "heap_ok h1" using own_rel_ok [OF mk(1) assms(1)] .
  have s: "sound (list_blocks (Some (p, t))) h1"
    using own_rel_live [OF mk(1)] mk(2) by (simp add: sound_def)
  note own = parseInput_own [OF assms(3) ok1 mk(4) [OF refl] s]
  have o: "own_rel {} h (set (list_blocks l)) h2" using mk(1) own(1) by (rule own_rel_trans)
  have s2: "sound (list_blocks l) h2" using own_rel_live [OF o] own(2) by (simp add: sound_def)
  have "own_rel {} h {} (release (list_blocks l) h2)"
    using o own_rel_release [OF s2] by (rule own_rel_trans)
  then show ?thesis using freeSimpleList_sound [OF s2] by (auto simp: own_rel_def)
qed

theorem parse_then_free_witness:
  "\<exists>h3. freeSimpleList (Some (0, \<lparr>pipeline = \<lparr>simple_command_list =
        [(1, \<lparr>element_list = [(2, \<lparr>isRedirection = 0, redirection_pointer = None,
                                    element_word = Some ''ls''\<rparr>)]\<rparr>)]\<rparr>,
        hasDaemonAmpersand = 0\<rparr>))
      \<lparr>live = {0, 1, 2}, fresh = 4, grants = (\<lambda>k n. True)\<rparr> = Inr h3 \<and> {} \<subseteq> live h3 \<and>
    (generous (new_heap (\<lambda>k n. True)) \<longrightarrow> live h3 = {})"
proof -
  let ?t = "\<lparr>pipeline = \<lparr>simple_command_list = [(1, \<lparr>element_list = [(2, uninitialised_element)]\<rparr>)]\<rparr>,
            hasDaemonAmpersand = 0\<rparr>"
  have mk: "makeNewSimpleList (new_heap (\<lambda>k n. True)) =
      (Some (0, ?t), \<lparr>live = {2, 1, 0}, fresh = 3, grants = (\<lambda>k n. True)\<rparr>)"
    by (simp add: makeNewSimpleList_def makeNewSimpleCommandList_def numeral_2_eq_2 [symmetric]
        makeNewSimpleCommandElementList_def malloc_def granted_def new_heap_def sizeof_defs)
  have run: "parseInput [''ls''] (Some (0, ?t)) \<lparr>live = {2, 1, 0}, fresh = 3, grants = (\<lambda>k n. True)\<rparr> =
      Inr (True, Some (0, \<lparr>pipeline = \<lparr>simple_command_list =
        [(1, \<lparr>element_list = [(2, \<lparr>isRedirection = 0, redirection_pointer = None,
                                    element_word = Some ''ls''\<rparr>)]\<rparr>)]\<rparr>,
        hasDaemonAmpersand = 0\<rparr>), \<lparr>live = {2, 1, 0}, fresh = 4, grants = (\<lambda>k n. True)\<rparr>)"
    by (simp add: parser_eval uninitialised_element_def malloc_def granted_def mfree_def cong: bind_res_weak_cong)
  from parse_then_free [OF heap_ok_new mk run] show ?thesis by (simp add: insert_commute)
qed

text \<open>
  Memory lost when the allocator runs dry: when \<open>makeNewSimpleList\<close> answers NULL although
  its first request was granted (a later one was refused), the block of that first request stays
  live and nobody has its address: the function returns without freeing it.
\<close>

theorem makeNewSimpleList_leaks:
  assumes "heap_ok h" "makeNewSimpleList h = (None, h')" "granted sizeof_Simple_List h"
  shows "fresh h \<in> live h' \<and> fresh h \<notin> live h"
proof -
  obtain h1 where m: "malloc sizeof_Simple_List h = (Some (fresh h), h1)" "live h1 = insert (fresh h) (live h)"
    using assms(3) by (simp add: malloc_def)
  have ok1: "heap_ok h1" using own_rel_ok [OF own_rel_malloc [OF m(1) assms(1)] assms(1)] .
  have mk: "makeNewSimpleCommandList h1 = ([], h')"
    using assms(2) m by (auto simp: makeNewSimpleList_def split: prod.splits list.splits)
  from makeNewSimpleCommandList_own(1) [OF this ok1] have "live h1 \<subseteq> live h'"
    by (simp add: own_rel_def)
  then show ?thesis using m(2) assms(1) by auto
qed

theorem makeNewSimpleList_leaks_witness:
  "fresh (new_heap (\<lambda>k n. k = 0)) \<in> live (snd (makeNewSimpleList (new_heap (\<lambda>k n. k = 0)))) \<and>
   fresh (new_heap (\<lambda>k n. k = 0)) \<notin> live (new_heap (\<lambda>k n. k = 0))"
  by (rule makeNewSimpleList_leaks [OF heap_ok_new])
    (simp_all add: makeNewSimpleList_def makeNewSimpleCommandList_def sizeof_defs
      makeNewSimpleCommandElementList_def malloc_def granted_def new_heap_def)

text \<open>
  A redirection token met when \<open>makeNewRedirection\<close> is refused: the code hands the NULL it
  got to \<open>parseRedirection\<close>, which writes through it.
\<close>

theorem redirection_refused_null_deref:
  assumes "i < length ts" "strcmp_eq (ts ! i) ''<'' \<or> strcmp_eq (ts ! i) ''>''"
    "parseWord ts i = Inr (False, i)" "\<not> granted sizeof_Redirection h"
  shows "parseSimpleCommandElement ts i e h = Inl Null_Deref"
proof -
  have "malloc sizeof_Redirection h = (None, h\<lparr>fresh := Suc (fresh h)\<rparr>)"
    using assms(4) by (simp add: malloc_def)
  then show ?thesis
    using assms(1,2,3)
    by (auto simp: parseSimpleCommandElement_def makeNewRedirection_def parseRedirection_def
        sent_at_def Let_def)
qed

theorem redirection_refused_null_deref_witness:
  "parseSimpleCommandElement [''cat'', ''<'', ''in''] 1 uninitialised_element (new_heap (\<lambda>k n. False))
     = Inl Null_Deref"
  by (rule redirection_refused_null_deref)
    (simp_all add: granted_def new_heap_def strcmp_eq_def parseWord_eq not_words)

end
