(* ===== verification/ParserCorrect.thy ===== *)
theory ParserCorrect
  imports ParserMemory
begin

text \<open>
  The parser does what the grammar asks for. As long as no request for memory is refused, every
  function of parser.c returns (it never runs into undefined behaviour), succeeds exactly when
  the reference parser of theory Syntax does, stops at the same token, and leaves a tree that
  stands for the same command. The properties lift this to \<open>parseInput\<close>.
\<close>

lemma makeNewRedirection_generous:
  "generous h \<Longrightarrow> makeNewRedirection h = (Some (fresh h, \<lparr>isInputRedirection = None, redirection_word = None\<rparr>),
      h\<lparr>live := insert (fresh h) (live h), fresh := Suc (fresh h)\<rparr>)"
  by (simp add: makeNewRedirection_def malloc_generous sizeof_defs)

lemma freeRedirection_fresh: "a \<in> live h \<Longrightarrow> generous h \<Longrightarrow>
   \<exists>h'. freeRedirection (Some (a, r)) h = Inr h' \<and> generous h'"
  by (simp add: mfree_def generous_def)

lemma drop_Cons: "i < length ts \<Longrightarrow> drop i ts = ts ! i # drop (Suc i) ts"
  by (simp add: Cons_nth_drop_Suc)

text \<open>\<open>parseRedirection\<close> at a token that is not a word, given a node to fill.\<close>

lemma parseRedirection_correct:
  assumes "i < length ts" "\<not> is_word (ts ! i)"
  shows "\<exists>b j r'. parseRedirection ts i (Some (a, r)) = Inr (b, j, Some (a, r')) \<and>
    (case read_elem (drop i ts) of None \<Rightarrow> \<not> b
     | Some (x, us) \<Rightarrow> b \<and> us = drop j ts \<and> j \<le> length ts \<and> abs_redirection r' = Some x)"
proof (cases "Suc i < length ts")
  case True
  then have d: "drop i ts = ts ! i # ts ! Suc i # drop (Suc (Suc i)) ts"
    using assms(1) by (simp add: drop_Cons)
  show ?thesis
    using assms True
    by (cases "is_word (ts ! Suc i)")
      (auto simp: parseRedirection_def Let_def sent_at_def parseWord_eq read_elem_def d abs_redirection_def)
next
  case False
  then have d: "drop i ts = [ts ! i]" using assms(1) by (simp add: drop_Cons)
  show ?thesis
    using assms False
    by (auto simp: parseRedirection_def Let_def sent_at_def parseWord_eq read_elem_def d)
qed

lemma parseSimpleCommandElement_correct:
  assumes "i \<le> length ts" "generous h"
  shows "\<exists>b j e' h'. parseSimpleCommandElement ts i e h = Inr (b, j, e', h') \<and> generous h' \<and>
    (case read_elem (drop i ts) of None \<Rightarrow> \<not> b
     | Some (x, us) \<Rightarrow> b \<and> us = drop j ts \<and> j \<le> length ts \<and> abs_elem e' = Some x)"
proof (cases "i < length ts")
  case False
  then show ?thesis
    using assms by (intro exI [of _ False]) (simp add: parseSimpleCommandElement_def sent_at_def read_elem_def)
next
  case True
  show ?thesis
  proof (cases "is_word (ts ! i)")
    case w: True
    then show ?thesis
      using True assms
      by (intro exI [of _ True]) (simp add: parseSimpleCommandElement_def sent_at_def parseWord_eq read_elem_def drop_Cons abs_elem_def)
  next
    case w: False
    let ?r = "\<lparr>isInputRedirection = None, redirection_word = None\<rparr>"
    let ?h = "h\<lparr>live := insert (fresh h) (live h), fresh := Suc (fresh h)\<rparr>"
    obtain b j r' where r: "parseRedirection ts i (Some (fresh h, ?r)) = Inr (b, j, Some (fresh h, r'))"
      "case read_elem (drop i ts) of None \<Rightarrow> \<not> b
       | Some (x, us) \<Rightarrow> b \<and> us = drop j ts \<and> j \<le> length ts \<and> abs_redirection r' = Some x"
      using parseRedirection_correct [OF True w] by blast
    have g: "generous ?h" using assms(2) by (simp add: generous_def)
    obtain h2 where "freeRedirection (Some (fresh h, r')) ?h = Inr h2" "generous h2"
      using freeRedirection_fresh [of "fresh h" ?h] g by auto
    then show ?thesis
      using r g True w makeNewRedirection_generous [OF assms(2)]
      by (cases b) (auto simp: parseSimpleCommandElement_def sent_at_def parseWord_eq abs_elem_def
          split: option.splits)
  qed
qed

section \<open>Commands\<close>

lemma read_elems_none: "fst (read_elems ts) = [] \<Longrightarrow> snd (read_elems ts) = ts"
  by (cases "read_elem ts") (auto simp: read_elems_stop read_elems_more)

lemma parseSimpleCommand_correct:
  assumes "i \<le> length ts" "generous h" "heap_ok h" "a \<in> live h"
  shows "\<exists>b j l' h'. parseSimpleCommand ts i [(a, uninitialised_element)] h = Inr (b, j, l', h') \<and>
    (b \<longleftrightarrow> fst (read_elems (drop i ts)) \<noteq> []) \<and>
    (if b then j \<le> length ts \<and> drop j ts = snd (read_elems (drop i ts)) \<and>
               abs_command l' = Some (fst (read_elems (drop i ts)))
     else j = i)"
  using assms
proof (induction "length ts - i" arbitrary: i a h rule: less_induct)
  case less
  show ?case
  proof (cases "i < length ts")
    case False
    then show ?thesis
      using less.prems by (intro exI [of _ False]) (simp add: parseSimpleCommand.simps [of ts "length ts"] sent_at_def)
  next
    case True
    obtain b j e' h1 where el: "parseSimpleCommandElement ts i uninitialised_element h = Inr (b, j, e', h1)"
      "generous h1" "case read_elem (drop i ts) of None \<Rightarrow> \<not> b
        | Some (x, us) \<Rightarrow> b \<and> us = drop j ts \<and> j \<le> length ts \<and> abs_elem e' = Some x"
      using parseSimpleCommandElement_correct [OF less.prems(1,2)] by blast
    note unfold = parseSimpleCommand.simps [of ts i "[(a, uninitialised_element)]"]
    show ?thesis
    proof (cases "read_elem (drop i ts)")
      case None
      then show ?thesis using el True
        by (intro exI [of _ False]) (simp add: unfold sent_at_def read_elems_stop)
    next
      case (Some p)
      obtain x us where p: "p = (x, us)" by fastforce
      have b: b "us = drop j ts" "j \<le> length ts" "abs_elem e' = Some x" using el(3) Some p by auto
      have e: "parseSimpleCommandElement ts i uninitialised_element h = Inr (True, j, e', h1)"
        using el(1) b(1) by simp
      have j: "i < j" using e parseSimpleCommandElement_progress by blast
      have "redirection_pointer uninitialised_element = None" by (simp add: uninitialised_element_def)
      note own = parseSimpleCommandElement_own [OF e less.prems(3) this]
      have ok1: "heap_ok h1" using own(1) less.prems(3) by (rule own_rel_ok)
      obtain n h2 where mk: "makeNewSimpleCommandElementList h1 = (n, h2)" by fastforce
      have n0: "n \<noteq> []" using makeNewSimpleCommandElementList_own(3) [OF mk ok1] el(2) by blast
      obtain a2 where n: "n = [(a2, uninitialised_element)]" "own_rel {} h1 {a2} h2" "heap_ok h2"
          "a2 \<in> live h2"
        using makeNewSimpleCommandElementList_node [OF mk ok1 n0] .
      have g2: "generous h2" using n(2) el(2) own_rel_generous by blast
      have rest: "read_elems (drop i ts) = (x # fst (read_elems (drop j ts)), snd (read_elems (drop j ts)))"
        using read_elems_more Some p b(2) by auto
      have m: "length ts - j < length ts - i" using j b(3) True by linarith
      obtain b2 k n2 h3 where rec: "parseSimpleCommand ts j n h2 = Inr (b2, k, n2, h3)"
        "b2 \<longleftrightarrow> fst (read_elems (drop j ts)) \<noteq> []"
        "if b2 then k \<le> length ts \<and> drop k ts = snd (read_elems (drop j ts)) \<and>
                     abs_command n2 = Some (fst (read_elems (drop j ts))) else k = j"
        using less.hyps [OF m b(3) g2 n(3,4)] unfolding n(1) [symmetric] by blast
      have "own_rel {a2} h2 (set (elems_blocks n2)) h3 \<and> distinct (elems_blocks n2)"
        using parseSimpleCommand_own [OF rec(1) n(3,1,4)] .
      then have "sound (elems_blocks n2) h3" by (auto simp: sound_def own_rel_def)
      then have "freeSimpleCommandElementList n2 h3 = Inr (release (elems_blocks n2) h3)"
        by (rule freeSimpleCommandElementList_sound)
      then show ?thesis
        using True e mk n(1) rec b(3,4) rest
        by (cases b2) (auto simp: unfold sent_at_def simp: read_elems_none)
    qed
  qed
qed

section \<open>Pipelines\<close>

lemma read_elems_of_word:
  assumes "ts \<noteq> []" "is_word (hd ts)"
  shows "fst (read_elems ts) \<noteq> []"
  using assms read_elems_word [of "hd ts" "tl ts" "fst (read_elems ts)" "snd (read_elems ts)"]
  by auto

text \<open>The reference parser, one command at a time.\<close>

lemma read_pipeline_step:
  assumes "ts \<noteq> []" "is_word (hd ts)" "read_elems ts = (c, us)"
  shows "read_pipeline ts =
     (if us \<noteq> [] \<and> strcmp_eq (hd us) ''|''
      then (case read_pipeline (tl us) of None \<Rightarrow> Some ([c], us) | Some (cs, vs) \<Rightarrow> Some (c # cs, vs))
      else Some ([c], us))"
proof -
  have "us \<noteq> [] \<Longrightarrow> length (tl us) < length ts"
    using read_elems_shorter [of ts] read_elems_of_word [OF assms(1,2)] assms(3) by auto
  then show ?thesis using assms by (subst read_pipeline.simps) auto
qed

lemma parsePipeLine_correct:
  assumes "i \<le> length ts" "generous h" "heap_ok h" "a \<noteq> c" "{a, c} \<subseteq> live h"
  shows "\<exists>b j l' h'. parsePipeLine ts i [(a, \<lparr>element_list = [(c, uninitialised_element)]\<rparr>)] h = Inr (b, j, l', h') \<and>
    (case read_pipeline (drop i ts) of None \<Rightarrow> \<not> b
     | Some (cs, us) \<Rightarrow> b \<and> j \<le> length ts \<and> drop j ts = us \<and> abs_pipeline l' = Some cs)"
  using assms
proof (induction "length ts - i" arbitrary: i a c h rule: less_induct)
  case less
  let ?el = "[(c, uninitialised_element)]"
  note unfold = parsePipeLine.simps [of ts i "[(a, \<lparr>element_list = ?el\<rparr>)]" h]
  note pw = parseWord_eq [OF less.prems(1)]
  show ?case
  proof (cases "i < length ts \<and> is_word (ts ! i)")
    case False
    then have "read_pipeline (drop i ts) = None"
      using less.prems(1) by (subst read_pipeline.simps) (auto simp: hd_drop_conv_nth)
    then show ?thesis
      using False less.prems(1) by (intro exI [of _ False]) (auto simp: unfold sent_at_def pw)
  next
    case True
    then have hd: "drop i ts \<noteq> []" "is_word (hd (drop i ts))" by (auto simp: hd_drop_conv_nth)
    obtain x us where x: "read_elems (drop i ts) = (x, us)" by fastforce
    have "c \<in> live h" using less.prems(5) by simp
    from parseSimpleCommand_correct [OF less.prems(1-3) this] read_elems_of_word [OF hd] x
    obtain j el h1 where cmd: "parseSimpleCommand ts i ?el h = Inr (True, j, el, h1)"
      "j \<le> length ts" "drop j ts = us" "abs_command el = Some x" by auto
    have ij: "i < j" using cmd(1) parseSimpleCommand_progress by blast
    have own: "own_rel {c} h (set (elems_blocks el)) h1"
      using parseSimpleCommand_own [OF cmd(1) less.prems(3) refl] less.prems(5) by simp
    have g1: "generous h1" and ok1: "heap_ok h1"
      using own_rel_generous [OF own] own_rel_ok [OF own] less.prems(2,3) by auto
    note step = read_pipeline_step [OF hd x]
    have run: "parsePipeLine ts i [(a, \<lparr>element_list = ?el\<rparr>)] h =
        bind_res (parsePipeLine2 ts j [(a, \<lparr>element_list = el\<rparr>)] h1)
          (\<lambda>(ok3, k, l3, h3). Inr (True, (if ok3 then k else j), l3, h3))"
      using True cmd(1) by (simp add: unfold sent_at_def pw)
    note unfold2 = parsePipeLine2.simps [of ts j "[(a, \<lparr>element_list = el\<rparr>)]" h1]
    show ?thesis
    proof (cases "j < length ts \<and> strcmp_eq (ts ! j) ''|''")
      case False
      then have "parsePipeLine2 ts j [(a, \<lparr>element_list = el\<rparr>)] h1 = Inr (False, j, [(a, \<lparr>element_list = el\<rparr>)], h1)"
        using cmd(2) by (auto simp: unfold2 sent_at_def)
      moreover have "read_pipeline (drop i ts) = Some ([x], us)"
        using False step cmd(2,3) by (auto simp: hd_drop_conv_nth)
      ultimately show ?thesis using run cmd by (intro exI [of _ True]) simp
    next
      case bar: True
      have us: "us \<noteq> []" "hd us = ts ! j" "tl us = drop (Suc j) ts"
        using bar cmd(3) by (auto simp: hd_drop_conv_nth tl_drop drop_Suc)
      obtain n h2 where mk: "makeNewSimpleCommandList h1 = (n, h2)" by fastforce
      have "n \<noteq> []" using makeNewSimpleCommandList_own(3) [OF mk ok1 g1] .
      then obtain p q where n: "n = [(p, \<lparr>element_list = [(q, uninitialised_element)]\<rparr>)]"
        "own_rel {} h1 {p, q} h2" "heap_ok h2" "p \<noteq> q" "{p, q} \<subseteq> live h2"
        using makeNewSimpleCommandList_node [OF mk ok1] by metis
      have g2: "generous h2" using own_rel_generous [OF n(2)] g1 by simp
      have m: "length ts - Suc j < length ts - i" "Suc j \<le> length ts" using ij bar by auto
      obtain b2 k l2 h3 where rec: "parsePipeLine ts (Suc j) n h2 = Inr (b2, k, l2, h3)"
        "case read_pipeline (drop (Suc j) ts) of None \<Rightarrow> \<not> b2
         | Some (cs, us) \<Rightarrow> b2 \<and> k \<le> length ts \<and> drop k ts = us \<and> abs_pipeline l2 = Some cs"
        using less.hyps [OF m g2 n(3,4,5)] unfolding n(1) [symmetric] by blast
      have "own_rel {p, q} h2 (set (cmds_blocks l2)) h3 \<and> distinct (cmds_blocks l2)"
        using parsePipeLine_own [OF rec(1) n(3,1,4,5)] .
      then have "sound (cmds_blocks l2) h3" by (auto simp: sound_def own_rel_def)
      then have fr: "freeSimpleCommandList l2 h3 = Inr (release (cmds_blocks l2) h3)"
        by (rule freeSimpleCommandList_sound)
      show ?thesis
      proof (cases b2)
        case False
        then have "parsePipeLine2 ts j [(a, \<lparr>element_list = el\<rparr>)] h1 =
            Inr (False, Suc j, [(a, \<lparr>element_list = el\<rparr>)], release (cmds_blocks l2) h3)"
          using bar mk rec n(1) fr by (simp add: unfold2 sent_at_def)
        then show ?thesis using False run rec(2) step us bar cmd by (auto split: option.splits)
      next
        case True
        then have "parsePipeLine2 ts j [(a, \<lparr>element_list = el\<rparr>)] h1 =
            Inr (True, k, (a, \<lparr>element_list = el\<rparr>) # l2, h3)"
          using bar mk rec n(1) by (simp add: unfold2 sent_at_def)
        then show ?thesis using True run rec(2) step us bar cmd by (auto split: option.splits)
      qed
    qed
  qed
qed

section \<open>The whole input\<close>

lemma makeNewSimpleList_generous:
  assumes "generous h" "heap_ok h"
  obtains p t h1 where "makeNewSimpleList h = (Some (p, t), h1)" "empty_list_tree t" "heap_ok h1"
    "generous h1" "sound (list_blocks (Some (p, t))) h1"
proof -
  obtain l h1 where mk: "makeNewSimpleList h = (l, h1)" by fastforce
  note own = makeNewSimpleList_own [OF mk assms(2)]
  obtain p t where l: "l = Some (p, t)" using own(3) assms(1) by auto
  show thesis
    using that mk l own(2) own(4) [OF l] own_rel_ok [OF own(1)] own_rel_generous [OF own(1)]
      own_rel_live [OF own(1)] assms by (auto simp: sound_def)
qed

lemma parseInput_correct:
  assumes "generous h" "heap_ok h" "empty_list_tree t" "sound (list_blocks (Some (p, t))) h"
  shows "\<exists>b l' h'. parseInput ts (Some (p, t)) h = Inr (b, l', h') \<and>
    (case read_list ts of None \<Rightarrow> \<not> b | Some r \<Rightarrow> b \<and> abs_list l' = Some r)"
proof (cases "ts = []")
  case True
  then show ?thesis
    by (intro exI [of _ False]) (simp add: parseInput_def sent_at_def read_list_def read_pipeline.simps [of "[]"])
next
  case False
  obtain a c where cl: "simple_command_list (pipeline t) = [(a, \<lparr>element_list = [(c, uninitialised_element)]\<rparr>)]"
    and d: "hasDaemonAmpersand t = 0" using assms(3) by (auto simp: empty_list_tree_def)
  have ac: "a \<noteq> c" "{a, c} \<subseteq> live h"
    using assms(4) cl by (auto simp: sound_def uninitialised_element_def)
  obtain q j l' h' where pl: "parsePipeLine ts 0 (simple_command_list (pipeline t)) h = Inr (q, j, l', h')"
    "case read_pipeline ts of None \<Rightarrow> \<not> q
     | Some (cs, us) \<Rightarrow> q \<and> j \<le> length ts \<and> drop j ts = us \<and> abs_pipeline l' = Some cs"
    using parsePipeLine_correct [of 0 ts h a c] assms(1,2) ac cl by auto
  show ?thesis
  proof (cases "read_pipeline ts")
    case None
    then show ?thesis
      using False pl by (intro exI [of _ False]) (auto simp: parseInput_def sent_at_def read_list_def)
  next
    case (Some r)
    obtain cs us where r: "r = (cs, us)" by fastforce
    have j: "q" "j \<le> length ts" "us = drop j ts" "abs_pipeline l' = Some cs" using pl(2) Some r by auto
    show ?thesis
    proof (cases "j < length ts")
      case False
      then show ?thesis
        using \<open>ts \<noteq> []\<close> pl(1) j Some r d
        by (intro exI [of _ True]) (simp add: parseInput_def sent_at_def read_list_def abs_list_def)
    next
      case True
      have us: "hd us = ts ! j" "tl us = [] \<longleftrightarrow> Suc j = length ts"
        using True j(3) by (auto simp: hd_drop_conv_nth drop_Cons)
      show ?thesis
        using \<open>ts \<noteq> []\<close> pl(1) j Some r True us
        by (auto simp: parseInput_def sent_at_def read_list_def abs_list_def Let_def)
    qed
  qed
qed

text \<open>
  A parse as the shell runs it, on the tree it makes for it: the answer and the tree left.
\<close>

definition parse_tokens :: "string list \<Rightarrow> heap \<Rightarrow> (bool \<times> (nat \<times> Simple_List) option \<times> heap) res" where
  "parse_tokens ts h = (case makeNewSimpleList h of (l, h1) \<Rightarrow> parseInput ts l h1)"

lemma parse_tokens_correct:
  assumes "generous h" "heap_ok h"
  shows "\<exists>b l h'. parse_tokens ts h = Inr (b, l, h') \<and>
    (case read_list ts of None \<Rightarrow> \<not> b | Some r \<Rightarrow> b \<and> abs_list l = Some r)"
proof -
  obtain p t h1 where mk: "makeNewSimpleList h = (Some (p, t), h1)" "empty_list_tree t" "heap_ok h1"
    "generous h1" "sound (list_blocks (Some (p, t))) h1"
    using makeNewSimpleList_generous [OF assms] .
  from parseInput_correct [OF mk(4,3,2,5), of ts] show ?thesis
    by (simp add: parse_tokens_def mk(1))
qed

section \<open>Properties\<close>



lemma parse_tokens_grammar:
  assumes "generous h" "heap_ok h" "list_all c_string ts" "parse_tokens ts h = Inr (True, l, h')"
  shows "g_simple_list ts \<longleftrightarrow> g_words ts"
  using parse_tokens_correct [OF assms(1,2), of ts] assms(4) read_list_iff [OF assms(3)] g_simple_list_write
  by (auto split: option.splits)

text \<open>
  C19. The parser and the grammar the exercise gives (bash.txt, with its production for words as it
  stands): a sentence the parser accepts is a sentence of the grammar exactly when every token of it
  that the parser takes for a word is a word of the grammar, that is, starts with a letter and goes
  on with letters and underscores. So apart from words the parser accepts nothing else than the
  grammar does.
\<close>

theorem parser_accepts_grammar:
  assumes "generous h" "heap_ok h" "list_all c_string ts" "parse_tokens ts h = Inr (True, l, h')"
  shows "g_simple_list ts \<longleftrightarrow> (\<forall>t \<in> set ts. is_word t \<longrightarrow> g_word t)"
  using parse_tokens_grammar [OF assms] by (simp add: g_words_def)

theorem parser_accepts_grammar_witness:
  "g_simple_list [''ls'', ''>'', ''a_b''] \<and> \<not> g_simple_list [''ls'', ''>'', ''_b'']"
proof -
  have c: "list_all c_string [''ls'', ''>'', ''a_b'']" "list_all c_string [''ls'', ''>'', ''_b'']"
    by (simp_all add: NUL_def)
  have "read_list [''ls'', ''>'', f] = Some ([[Word ''ls'', Redirect_Out f]], False)" if "c_string f" "is_word f" for f
    using that by (subst read_list_iff) (simp_all add: wf_pipeline_def write_list_def word_chars_eval cstr_def NUL_def)
  then have r: "\<exists>l h'. parse_tokens [''ls'', ''>'', f] (new_heap (\<lambda>k n. True)) = Inr (True, l, h')"
    if "c_string f" "is_word f" for f
    using that parse_tokens_correct [OF generous_new heap_ok_new, of "[''ls'', ''>'', f]"] by auto
  have f: "c_string ''a_b''" "c_string ''_b''" by (simp_all add: NUL_def)
  have w: "is_word ''a_b''" "is_word ''_b''" by (simp_all add: word_chars_eval cstr_def NUL_def)
  obtain l h' where a: "parse_tokens [''ls'', ''>'', ''a_b''] (new_heap (\<lambda>k n. True)) = Inr (True, l, h')"
    using r [OF f(1) w(1)] by blast
  obtain k g' where b: "parse_tokens [''ls'', ''>'', ''_b''] (new_heap (\<lambda>k n. True)) = Inr (True, k, g')"
    using r [OF f(2) w(2)] by blast
  show ?thesis
    using parser_accepts_grammar [OF generous_new heap_ok_new c(1) a]
      parser_accepts_grammar [OF generous_new heap_ok_new c(2) b] w
    by (simp add: g_word_eval)
qed

text \<open>
  The words of the parser are more than those of the grammar: it also takes the full stop, the slash
  and the dash, which bash.txt gives leave for, but lets words start with an underscore, and takes
  the empty token for one. Each of these is a sentence it accepts and the grammar does not have.
\<close>

lemma parser_words_beyond_grammar:
  assumes "generous h" "heap_ok h" "w \<in> {'''', ''_x'', ''-l'', ''./a''}"
  shows "\<not> g_simple_list [w] \<and> (\<exists>l h'. parse_tokens [w] h = Inr (True, l, h'))"
proof -
  have w: "c_string w" "is_word w" "\<not> g_word w"
    using assms(3) by (auto simp: c_string_def NUL_def word_chars_eval cstr_def g_word_eval)
  have "read_list [w] = Some ([[Word w]], False)"
    using w by (subst read_list_iff) (simp_all add: wf_pipeline_def write_list_def)
  then obtain l h' where l: "parse_tokens [w] h = Inr (True, l, h')"
    using parse_tokens_correct [OF assms(1,2), of "[w]"] by auto
  with parse_tokens_grammar [OF assms(1,2) _ l] w show ?thesis by (auto simp: g_words_def)
qed

text \<open>
  The converse does not hold: a command that starts with its redirection, \<open>< f p\<close>, is a
  sentence of bash.txt, and the parser rejects it, whatever the words are.
\<close>

theorem redirection_first_rejected:
  assumes "generous h" "heap_ok h" "g_word f" "g_word p"
  shows "g_simple_list [''<'', f, p] \<and> (\<exists>l h'. parse_tokens [''<'', f, p] h = Inr (False, l, h'))"
proof -
  have "g_command ([''<'', f] @ [p])"
    using assms(3,4) by (intro g_command.intros g_element.intros)
  then have g: "g_simple_list [''<'', f, p]"
    by (auto intro: g_simple_list.intros g_pipeline.intros)
  have "read_list [''<'', f, p] = None"
    by (simp add: read_list_def read_pipeline.simps [of "[''<'', f, p]"])
  then show ?thesis using parse_tokens_correct [OF assms(1,2), of "[''<'', f, p]"] g by auto
qed

theorem redirection_first_rejected_witness:
  "g_simple_list [''<'', ''in'', ''cat''] \<and>
   (\<exists>l h'. parse_tokens [''<'', ''in'', ''cat''] (new_heap (\<lambda>k n. True)) = Inr (False, l, h'))"
  by (rule redirection_first_rejected)
    (simp_all add: g_word_eval)

text \<open>
  A refused request can change the command: of a program and one argument, when the four
  requests before the node after the argument are granted and the fifth is refused, the parse
  succeeds and the tree holds the program alone. The argument is dropped without an error.
\<close>

theorem refused_memory_drops_argument:
  assumes "is_word p" "is_word a" "\<And>k n. k < 5 \<Longrightarrow> g k n \<longleftrightarrow> k < 4"
  shows "\<exists>l h'. parse_tokens [p, a] (new_heap g) = Inr (True, l, h') \<and> abs_list l = Some ([[Word p]], False)"
proof -
  let ?t = "\<lparr>pipeline = \<lparr>simple_command_list = [(1, \<lparr>element_list = [(2, uninitialised_element)]\<rparr>)]\<rparr>,
            hasDaemonAmpersand = 0\<rparr>"
  let ?e = "\<lambda>w. \<lparr>isRedirection = 0, redirection_pointer = None, element_word = Some w\<rparr>"
  let ?h = "\<lambda>n L. \<lparr>live = L, fresh = n, grants = g\<rparr>"
  note ev = malloc_def granted_def assms(3) sizeof_defs
  have mk: "makeNewSimpleList (new_heap g) = (Some (0, ?t), ?h 3 {2, 1, 0})"
    by (simp add: makeNewSimpleList_def makeNewSimpleCommandList_def ev numeral_2_eq_2 [symmetric]
        makeNewSimpleCommandElementList_def new_heap_def)
  have el: "parseSimpleCommandElement [p, a] i uninitialised_element h =
      Inr (True, Suc i, ?e ([p, a] ! i), h)" if "i < 2" for i h
    using that assms(1,2)
    by (auto simp: parseSimpleCommandElement_def sent_at_def parseWord_eq less_2_cases_iff
        uninitialised_element_def)
  have c1: "parseSimpleCommand [p, a] 1 [(3, uninitialised_element)] (?h 4 {3, 2, 1, 0}) =
      Inr (False, 2, [(3, ?e a)], ?h 5 {3, 2, 1, 0})"
    by (subst parseSimpleCommand.simps)
      (simp add: sent_at_def el makeNewSimpleCommandElementList_def ev)
  have c0: "parseSimpleCommand [p, a] 0 [(2, uninitialised_element)] (?h 3 {2, 1, 0}) =
      Inr (True, 2, [(2, ?e p)], ?h 5 {2, 1, 0})"
    using c1
    by (subst parseSimpleCommand.simps)
      (simp add: sent_at_def el makeNewSimpleCommandElementList_def ev mfree_def)
  have pl: "parsePipeLine [p, a] 0 (simple_command_list (pipeline ?t)) (?h 3 {2, 1, 0}) =
      Inr (True, 2, [(1, \<lparr>element_list = [(2, ?e p)]\<rparr>)], ?h 5 {2, 1, 0})"
    using assms(1) c0
    by (subst parsePipeLine.simps) (simp add: sent_at_def parseWord_eq parsePipeLine2.simps)
  show ?thesis
    using pl by (simp add: parse_tokens_def mk parseInput_def sent_at_def abs_list_def abs_elem_def)
qed

theorem refused_memory_drops_argument_witness:
  "\<exists>l h'. parse_tokens [''rm'', ''old''] (new_heap (\<lambda>k n. k < 4)) = Inr (True, l, h') \<and>
     abs_list l = Some ([[Word ''rm'']], False)"
  by (rule refused_memory_drops_argument) (simp_all add: word_chars_eval cstr_def NUL_def)

end
