(* ===== verification/Posix.thy ===== *)
theory Posix
  imports CPrelude
begin

text \<open>
  The part of POSIX the shell works with: a process's table of file descriptors and the calls
  that change it, as the standard documents them. A new descriptor is the lowest one that is
  free. Whether a file can be opened, a pipe made, a process forked or a program executed is up
  to the environment \<open>env\<close>; every theorem quantifies over it.
\<close>

text \<open>
  What a descriptor refers to: one the shell was started with, an end of the k-th pipe, or a
  file opened for reading or created for writing.
\<close>

datatype open_file = Inherited nat | Pipe_R nat | Pipe_W nat | Opened string | Created string

record fdtable =
  slots :: "nat \<Rightarrow> open_file option"
  limit :: nat

text \<open>
  The environment of one job: the answers of the calls for the k-th command of the pipeline,
  and whether the process ignores the statuses of its children (SA_NOCLDWAIT).
\<close>

datatype wstatus = Exited int | Signaled int

record env =
  my_pid :: int
  fork_pid :: "nat \<Rightarrow> nat option"
  prctl_ret :: "nat \<Rightarrow> int"
  parent_of :: "nat \<Rightarrow> int"
  pipe_ok :: "nat \<Rightarrow> bool"
  open_ok :: "string \<Rightarrow> bool"
  creat_ok :: "string \<Rightarrow> bool"
  exec_ok :: "string \<Rightarrow> bool"
  program_status :: "nat \<Rightarrow> wstatus"
  nocldwait :: bool

definition get_fd :: "int \<Rightarrow> fdtable \<Rightarrow> open_file option" where
  "get_fd fd t = (if 0 \<le> fd then slots t (nat fd) else None)"

definition put_fd :: "nat \<Rightarrow> open_file option \<Rightarrow> fdtable \<Rightarrow> fdtable" where
  "put_fd n f t = t\<lparr>slots := (slots t)(n := f)\<rparr>"

definition lowest_free :: "fdtable \<Rightarrow> nat option" where
  "lowest_free t = List.find (\<lambda>n. slots t n = None) [0..<limit t]"

definition new_fd :: "open_file \<Rightarrow> fdtable \<Rightarrow> int \<times> fdtable" where
  "new_fd f t = (case lowest_free t of None \<Rightarrow> (-1, t) | Some n \<Rightarrow> (int n, put_fd n (Some f) t))"

definition sys_open :: "env \<Rightarrow> string option \<Rightarrow> fdtable \<Rightarrow> int \<times> fdtable" where
  "sys_open env w t =
     (case w of None \<Rightarrow> (-1, t) | Some s \<Rightarrow> if open_ok env s then new_fd (Opened s) t else (-1, t))"

definition sys_creat :: "env \<Rightarrow> string option \<Rightarrow> fdtable \<Rightarrow> int \<times> fdtable" where
  "sys_creat env w t =
     (case w of None \<Rightarrow> (-1, t) | Some s \<Rightarrow> if creat_ok env s then new_fd (Created s) t else (-1, t))"

definition sys_close :: "int \<Rightarrow> fdtable \<Rightarrow> int \<times> fdtable" where
  "sys_close fd t = (if get_fd fd t = None then (-1, t) else (0, put_fd (nat fd) None t))"

definition sys_dup2 :: "int \<Rightarrow> nat \<Rightarrow> fdtable \<Rightarrow> int \<times> fdtable" where
  "sys_dup2 old new t =
     (if get_fd old t = None \<or> limit t \<le> new then (-1, t)
      else (int new, put_fd new (get_fd old t) t))"

text \<open>\<open>pipe\<close> writes the two descriptors only when it succeeds.\<close>

definition sys_pipe :: "env \<Rightarrow> nat \<Rightarrow> int \<times> int \<Rightarrow> fdtable \<Rightarrow> int \<times> (int \<times> int) \<times> fdtable" where
  "sys_pipe env k old t =
     (if \<not> pipe_ok env k then (-1, old, t)
      else case new_fd (Pipe_R k) t of (r, t1) \<Rightarrow>
        if r < 0 then (-1, old, t)
        else case new_fd (Pipe_W k) t1 of (w, t2) \<Rightarrow>
          if w < 0 then (-1, old, t) else (0, (r, w), t2))"

text \<open>What \<open>fork\<close> answers in the parent: -1, or the positive pid of the child.\<close>

definition fork_ret :: "env \<Rightarrow> nat \<Rightarrow> int" where
  "fork_ret env k = (case fork_pid env k of None \<Rightarrow> -1 | Some p \<Rightarrow> int p + 1)"

section \<open>Lemmas\<close>

lemma slots_put_fd [simp]: "slots (put_fd n f t) m = (if m = n then f else slots t m)"
  by (simp add: put_fd_def)

lemma limit_put_fd [simp]: "limit (put_fd n f t) = limit t"
  by (simp add: put_fd_def)

lemma get_fd_int [simp]: "get_fd (int n) t = slots t n"
  by (simp add: get_fd_def)

lemma fdtable_eqI: "limit t = limit u \<Longrightarrow> (\<And>n. slots t n = slots u n) \<Longrightarrow> t = (u :: fdtable)"
  by (cases t; cases u) auto

lemma lowest_free_Some:
  "lowest_free t = Some n \<longleftrightarrow> n < limit t \<and> slots t n = None \<and> (\<forall>m<n. slots t m \<noteq> None)"
  by (auto simp: lowest_free_def find_Some_iff)

lemma lowest_free_exists:
  assumes "slots t m = None" "m < limit t"
  obtains n where "lowest_free t = Some n" "n \<le> m"
proof -
  have "lowest_free t \<noteq> None" using assms by (auto simp: lowest_free_def find_None_iff)
  then obtain n where n: "lowest_free t = Some n" by auto
  then have "\<not> m < n" using assms by (auto simp: lowest_free_Some)
  then show thesis using that n by simp
qed

lemma new_fd_Some:
  "lowest_free t = Some n \<Longrightarrow> new_fd f t = (int n, put_fd n (Some f) t)"
  by (simp add: new_fd_def)

lemma sys_close_open: "slots t n \<noteq> None \<Longrightarrow> sys_close (int n) t = (0, put_fd n None t)"
  by (simp add: sys_close_def)

lemma sys_dup2_open:
  "slots t n \<noteq> None \<Longrightarrow> m < limit t \<Longrightarrow> sys_dup2 (int n) m t = (int m, put_fd m (slots t n) t)"
  by (simp add: sys_dup2_def)

text \<open>\<open>lowest_free\<close> of a table given slot by slot.\<close>

lemma lowest_freeI: "n < limit t \<Longrightarrow> slots t n = None \<Longrightarrow> (\<And>m. m < n \<Longrightarrow> slots t m \<noteq> None) \<Longrightarrow> lowest_free t = Some n"
  by (simp add: lowest_free_Some)

end
