(* ===== verification/Interpreter.thy ===== *)
theory Interpreter
  imports Posix Syntax DynamicByteArray
begin

text \<open>
  The interpreter of the iwish shell (Lab2/iwish/src/interpreter.c) with \<open>safelyFork\<close>
  (SafelyFork.c). The processes of a job are followed each on its own: a child has a copy of the
  descriptors its parent had at the fork. A command of the pipeline ends in one of three ways:
  it runs a program (with its arguments and descriptors), it exits with a status, or it crashes.
\<close>

section \<open>safelyFork\<close>

text \<open>
  As a function of what the calls in it answer: \<open>getpid\<close> before the fork, \<open>fork\<close>, and, in the
  child, \<open>prctl\<close> and \<open>getppid\<close>.
\<close>

definition safelyFork :: "int \<Rightarrow> int \<Rightarrow> int \<Rightarrow> int \<Rightarrow> int" where
  "safelyFork original_parent_pid child_pid prctl_answer ppid =
     (if child_pid < 0 then -1
      else if child_pid = 0
      then (if prctl_answer < 0 then -1
            else if ppid \<noteq> original_parent_pid then -1
            else child_pid)
      else child_pid)"

section \<open>One command\<close>

definition handleRedirection :: "env \<Rightarrow> (nat \<times> Redirection) option \<Rightarrow> fdtable \<Rightarrow> (int \<times> fdtable) res" where
  "handleRedirection env redirection t =
     (case redirection of
        None \<Rightarrow> Inr (-1, t)
      | Some (a, r) \<Rightarrow>
          (case isInputRedirection r of
             None \<Rightarrow> Inl Uninit_Read
           | Some inp \<Rightarrow>
               (case (if inp \<noteq> 0 then sys_open env (redirection_word r) t
                      else sys_creat env (redirection_word r) t) of
                  (file, t1) \<Rightarrow>
                    if file < 0 then Inr (-1, t1)
                    else (case sys_dup2 file (if inp \<noteq> 0 then 0 else 1) t1 of
                            (d, t2) \<Rightarrow> if d < 0 then Inr (-1, t2) else Inr (0, t2)))))"

text \<open>The pointer to the array may be NULL: \<open>handleCommandList\<close> does not check it.\<close>

type_synonym argument_array = "string option DynamicByteArray option"

definition handleCommandlineArgument :: "string option \<Rightarrow> argument_array \<Rightarrow> heap
    \<Rightarrow> (int \<times> argument_array \<times> heap) res" where
  "handleCommandlineArgument arg dynArr h =
     (case dynArr of
        None \<Rightarrow> Inl Null_Deref
      | Some arr \<Rightarrow> bind_res (DBA_addElemToArr arr (enc_ptr arg) h) (\<lambda>(r, arr1, h1). Inr (r, Some arr1, h1)))"

fun handleCommandElementList :: "env \<Rightarrow> Simple_Command_Element_List \<Rightarrow> argument_array
    \<Rightarrow> fdtable \<Rightarrow> heap \<Rightarrow> (int \<times> argument_array \<times> fdtable \<times> heap) res" where
  "handleCommandElementList env [] dynArr t h = Inr (0, dynArr, t, h)"
| "handleCommandElementList env ((a, e) # next) dynArr t h =
     (if isRedirection e \<noteq> 0
      then bind_res (handleRedirection env (redirection_pointer e) t) (\<lambda>(r, t1).
             if r < 0 then Inr (-1, dynArr, t1, h)
             else handleCommandElementList env next dynArr t1 h)
      else bind_res (handleCommandlineArgument (element_word e) dynArr h) (\<lambda>(r, arr1, h1).
             if r < 0 then Inr (-1, arr1, t, h1)
             else handleCommandElementList env next arr1 t h1))"

text \<open>
  \<open>handleCommandList\<close> either runs a program, and does not return, or returns -1. The answer of
  the append of the terminating NULL is not looked at. \<open>execvp\<close> reads the argument array up to
  its NULL; its first argument is the program, and a NULL there crashes.
\<close>

datatype command_end = Execs "string list" fdtable | Returns int

definition execute_arguments :: "env \<Rightarrow> string option DynamicByteArray \<Rightarrow> fdtable \<Rightarrow> heap \<Rightarrow> command_end res" where
  "execute_arguments env arr t h =
     bind_res (DBA_addElemToArr arr (enc_ptr None) h) (\<lambda>(r, arr1, h1).
       case DBA_getInternalArray arr1 of (newargv, bytes) \<Rightarrow>
         bind_res (mfree (Some (dba_block arr1)) h1) (\<lambda>h2.
         bind_res (read_ptrs bytes) (\<lambda>argv.
           if argv = [] then Inl Null_Deref
           else if exec_ok env (hd argv) then Inr (Execs argv t)
           else bind_res (mfree (Some newargv) h2) (\<lambda>h3. Inr (Returns (-1))))))"

definition handleCommandList :: "env \<Rightarrow> Simple_Command_List \<Rightarrow> int \<Rightarrow> int \<Rightarrow> fdtable \<Rightarrow> heap
    \<Rightarrow> command_end res" where
  "handleCommandList env l incomingInputPipe incomingOutputPipe t h =
     (case l of
        [] \<Rightarrow> Inr (Returns (-1))
      | (a, c) # next \<Rightarrow>
        (case (if 0 \<le> incomingInputPipe then sys_dup2 incomingInputPipe 0 t else (0, t)) of (d0, t1) \<Rightarrow>
         if d0 < 0 then Inr (Returns (-1))
         else case (if 0 \<le> incomingOutputPipe then sys_dup2 incomingOutputPipe 1 t1 else (0, t1)) of (d1, t2) \<Rightarrow>
         if d1 < 0 then Inr (Returns (-1))
         else bind_res (DBA_makeNewDynamicByteArray 8 h) (\<lambda>(dynArr, h1).
           bind_res (handleCommandElementList env (element_list c) dynArr t2 h1) (\<lambda>(r, arr, t3, h2).
             if r < 0 then bind_res (mfree (map_option dba_block arr) h2) (\<lambda>h3. Inr (Returns (-1)))
             else (case arr of None \<Rightarrow> Inl Null_Deref
                   | Some arr1 \<Rightarrow> execute_arguments env arr1 t3 h2)))))"

section \<open>The pipeline\<close>

definition closePipe :: "int \<times> int \<Rightarrow> fdtable \<Rightarrow> fdtable" where
  "closePipe p t =
     (if fst p \<noteq> -1 \<and> snd p \<noteq> -1 then snd (sys_close (snd p) (snd (sys_close (fst p) t))) else t)"

definition close_end :: "int \<Rightarrow> fdtable \<Rightarrow> fdtable" where
  "close_end fd t = (if fd \<noteq> -1 then snd (sys_close fd t) else t)"

lemma slots_close_end [simp]:
  "slots (close_end fd t) n = (if 0 \<le> fd \<and> n = nat fd then None else slots t n)"
  by (auto simp: close_end_def sys_close_def get_fd_def)

lemma limit_close_end [simp]: "limit (close_end fd t) = limit t"
  by (auto simp: close_end_def sys_close_def)

lemma slots_closePipe [simp]:
  "slots (closePipe p t) n =
     (if fst p \<noteq> -1 \<and> snd p \<noteq> -1 \<and> (0 \<le> fst p \<and> n = nat (fst p) \<or> 0 \<le> snd p \<and> n = nat (snd p))
      then None else slots t n)"
  by (auto simp: closePipe_def sys_close_def get_fd_def)

lemma limit_closePipe [simp]: "limit (closePipe p t) = limit t"
  by (auto simp: closePipe_def sys_close_def)

datatype child = Runs "string list" fdtable | Exits int | Crashes ub

definition EXIT_SUCCESS :: int where "EXIT_SUCCESS = 0"
definition EXIT_FAILURE :: int where "EXIT_FAILURE = 1"

text \<open>
  The child of the k-th fork, with the descriptors of its parent at the fork. Whatever goes wrong
  in it, it returns EXIT_FAILURE, which its copy of the job handler exits with.
\<close>

definition child_process :: "env \<Rightarrow> nat \<Rightarrow> heap \<Rightarrow> Simple_Command_List \<Rightarrow> int \<times> int \<Rightarrow> int \<times> int \<Rightarrow> fdtable
    \<Rightarrow> child" where
  "child_process env k h current_command_list incomingPipe outgoingPipe t =
     (if safelyFork (my_pid env) 0 (prctl_ret env k) (parent_of env k) < 0 then Exits EXIT_FAILURE
      else
        let t1 = close_end (snd incomingPipe) t;
            t2 = close_end (fst outgoingPipe) t1
        in (case handleCommandList env current_command_list (fst incomingPipe) (snd outgoingPipe) t2 h of
              Inl u \<Rightarrow> Crashes u
            | Inr (Execs argv t3) \<Rightarrow> Runs argv t3
            | Inr (Returns r) \<Rightarrow> Exits EXIT_FAILURE))"

text \<open>
  The first loop of \<open>interpretSimpleList\<close>, from the k-th command on: whether all commands were
  initiated, the descriptors of the parent afterwards, and the children in order.
\<close>

fun launch :: "env \<Rightarrow> heap \<Rightarrow> Simple_Command_List \<Rightarrow> nat \<Rightarrow> int \<times> int \<Rightarrow> int \<times> int \<Rightarrow> fdtable
    \<Rightarrow> bool \<times> fdtable \<times> child list" where
  "launch env h [] k incomingPipe outgoingPipe t = (True, t, [])"
| "launch env h (c # next) k incomingPipe outgoingPipe t =
     (case (if next \<noteq> [] then sys_pipe env k outgoingPipe t else (0, (-1, -1), t)) of
        (r, outgoing, t1) \<Rightarrow>
          if r < 0 then (False, closePipe outgoing (closePipe incomingPipe t1), [])
          else if safelyFork (my_pid env) (fork_ret env k) (prctl_ret env k) (parent_of env k) < 0
          then (False, closePipe outgoing (closePipe incomingPipe t1), [])
          else
            let child = child_process env k h (c # next) incomingPipe outgoing t1;
                t2 = close_end (fst incomingPipe) t1;
                t3 = close_end (snd outgoing) t2
            in (case launch env h next (Suc k) outgoing incomingPipe t3 of
                  (ok, t4, children) \<Rightarrow> (ok, t4, child # children)))"

section \<open>Waiting\<close>

text \<open>How a child ends, and the answers of the calls of \<open>wait\<close> before the one that fails.\<close>

definition child_status :: "env \<Rightarrow> nat \<Rightarrow> child \<Rightarrow> wstatus" where
  "child_status env k c =
     (case c of Runs argv t \<Rightarrow> program_status env k | Exits n \<Rightarrow> Exited n | Crashes u \<Rightarrow> Signaled 11)"

definition wait_answers :: "env \<Rightarrow> child list \<Rightarrow> wstatus list" where
  "wait_answers env children =
     (if nocldwait env then []
      else map (\<lambda>(k, c). child_status env k c) (enumerate 0 children))"

text \<open>
  The process after its first loop: it is in the loop that waits, with the status it has so far, or
  leaves with a status. One turn of that loop, by what \<open>wait\<close> answers; \<open>None\<close> is the failure that
  ends it.
\<close>

datatype handler_code = Waits int | Leaves int

fun wait_body :: "wstatus option \<Rightarrow> int \<Rightarrow> handler_code" where
  "wait_body None exitstatus = Leaves exitstatus"
| "wait_body (Some w) exitstatus = Waits (if w = Exited EXIT_FAILURE then EXIT_FAILURE else exitstatus)"

fun handler_runs :: "wstatus list \<Rightarrow> handler_code \<Rightarrow> int" where
  "handler_runs ws (Leaves r) = r"
| "handler_runs [] (Waits exitstatus) = (case wait_body None exitstatus of Leaves r \<Rightarrow> r | Waits r \<Rightarrow> r)"
| "handler_runs (w # ws) (Waits exitstatus) = handler_runs ws (wait_body (Some w) exitstatus)"

definition start_job :: "env \<Rightarrow> heap \<Rightarrow> (nat \<times> Simple_List) option \<Rightarrow> fdtable
    \<Rightarrow> handler_code \<times> fdtable \<times> child list" where
  "start_job env h l t =
     (case l of
        None \<Rightarrow> (Leaves EXIT_FAILURE, t, [])
      | Some (a, sl) \<Rightarrow>
          (case launch env h (simple_command_list (pipeline sl)) 0 (-1, -1) (-1, -1) t of
             (ok, t1, children) \<Rightarrow> (if ok then Waits EXIT_SUCCESS else Leaves EXIT_FAILURE, t1, children)))"

definition finish_job :: "env \<Rightarrow> handler_code \<times> fdtable \<times> child list \<Rightarrow> int \<times> fdtable \<times> child list" where
  "finish_job env job = (case job of (code, t, children) \<Rightarrow> (handler_runs (wait_answers env children) code, t, children))"

definition interpretSimpleList :: "env \<Rightarrow> heap \<Rightarrow> (nat \<times> Simple_List) option \<Rightarrow> fdtable
    \<Rightarrow> int \<times> fdtable \<times> child list" where
  "interpretSimpleList env h l t = finish_job env (start_job env h l t)"

text \<open>The status the waiting ends with, as a fold over the answers; and the whole function at once.\<close>

fun wait_loop :: "wstatus list \<Rightarrow> int \<Rightarrow> int" where
  "wait_loop [] exitstatus = exitstatus"
| "wait_loop (w # ws) exitstatus = wait_loop ws (if w = Exited EXIT_FAILURE then EXIT_FAILURE else exitstatus)"

lemma handler_runs_waits [simp]: "handler_runs ws (Waits e) = wait_loop ws e"
  by (induction ws arbitrary: e) simp_all

lemma interpretSimpleList_unfold:
  "interpretSimpleList env h l t =
     (case l of
        None \<Rightarrow> (EXIT_FAILURE, t, [])
      | Some (a, sl) \<Rightarrow>
          (case launch env h (simple_command_list (pipeline sl)) 0 (-1, -1) (-1, -1) t of
             (ok, t1, children) \<Rightarrow>
               if \<not> ok then (EXIT_FAILURE, t1, children)
               else (wait_loop (wait_answers env children) EXIT_SUCCESS, t1, children)))"
  by (simp add: interpretSimpleList_def finish_job_def start_job_def split: option.split prod.split)

end
