(* ===== verification/CommandRun.thy ===== *)
theory CommandRun
  imports Interpreter
begin

text \<open>
  One command of a pipeline (\<open>handleCommandElementList\<close> and \<open>handleCommandList\<close>): its words
  become the argument array of \<open>execvp\<close>, its redirections, in order, replace descriptors 0 and 1.
  The lemmas hold for every tree that stands for a command in the sense of theory Syntax, so for
  every tree the parser builds.
\<close>

fun words :: "Command \<Rightarrow> string list" where
  "words [] = []"
| "words (Word w # c) = w # words c"
| "words (_ # c) = words c"

text \<open>What a command reads from and writes to, when it starts with \<open>f\<close>.\<close>

fun input_of :: "open_file \<Rightarrow> Command \<Rightarrow> open_file" where
  "input_of f [] = f"
| "input_of f (Redirect_In w # c) = input_of (Opened w) c"
| "input_of f (_ # c) = input_of f c"

fun output_of :: "open_file \<Rightarrow> Command \<Rightarrow> open_file" where
  "output_of f [] = f"
| "output_of f (Redirect_Out w # c) = output_of (Created w) c"
| "output_of f (_ # c) = output_of f c"

definition files_ok :: "env \<Rightarrow> Command \<Rightarrow> bool" where
  "files_ok env c \<longleftrightarrow>
     (\<forall>w. (Redirect_In w \<in> set c \<longrightarrow> open_ok env w) \<and> (Redirect_Out w \<in> set c \<longrightarrow> creat_ok env w))"

lemma files_ok_Cons [simp]:
  "files_ok env (Word w # c) \<longleftrightarrow> files_ok env c"
  "files_ok env (Redirect_In w # c) \<longleftrightarrow> open_ok env w \<and> files_ok env c"
  "files_ok env (Redirect_Out w # c) \<longleftrightarrow> creat_ok env w \<and> files_ok env c"
  by (auto simp: files_ok_def)

text \<open>All descriptors from \<open>b\<close> on are free.\<close>

definition free_from :: "nat \<Rightarrow> fdtable \<Rightarrow> bool" where
  "free_from b t \<longleftrightarrow> (\<forall>n\<ge>b. slots t n = None)"

text \<open>The pipe ends a process holds.\<close>

definition pipe_ends :: "fdtable \<Rightarrow> open_file set" where
  "pipe_ends t = {f. (\<exists>n. slots t n = Some f) \<and> (\<exists>j. f = Pipe_R j \<or> f = Pipe_W j)}"

lemma pipe_ends_put_file [simp]:
  "pipe_ends (put_fd n (Some (Opened w)) t) \<subseteq> pipe_ends t"
  "pipe_ends (put_fd n (Some (Created w)) t) \<subseteq> pipe_ends t"
  by (auto simp: pipe_ends_def split: if_splits)

lemma pipe_ends_put_slot: "pipe_ends (put_fd n (slots t m) t) \<subseteq> pipe_ends t"
  by (auto simp: pipe_ends_def split: if_splits)

section \<open>Redirections\<close>

lemma new_fd_cases:
  obtains (full) "new_fd f t = (-1, t)"
  | (got) n where "new_fd f t = (int n, put_fd n (Some f) t)" "slots t n = None" "n < limit t"
  by (cases "lowest_free t") (auto simp: new_fd_def lowest_free_Some)

text \<open>A redirection never gives a process a pipe end it did not have.\<close>

lemma sys_dup2_pipe_ends: "sys_dup2 fd m t = (r, t') \<Longrightarrow> pipe_ends t' \<subseteq> pipe_ends t"
  using pipe_ends_put_slot by (auto simp: sys_dup2_def get_fd_def split: if_splits)

lemma handleRedirection_pipe_ends:
  assumes "handleRedirection env r t = Inr (b, t')"
  shows "pipe_ends t' \<subseteq> pipe_ends t"
proof -
  have open_ends: "pipe_ends t1 \<subseteq> pipe_ends t"
    if "sys_open env w t = (fd, t1) \<or> sys_creat env w t = (fd, t1)" for w fd t1
    using that
    by (auto dest!: pipe_ends_put_file [THEN subsetD] simp: sys_open_def sys_creat_def new_fd_def split: option.splits if_splits)
  show ?thesis
    using assms open_ends sys_dup2_pipe_ends
    by (fastforce simp: handleRedirection_def split: option.splits if_splits prod.splits)
qed

lemma handleRedirection_In:
  assumes "abs_redirection r = Some (Redirect_In w)" "open_ok env w" "lowest_free t = Some n" "n \<noteq> 0"
    "0 < limit t"
  shows "handleRedirection env (Some (a, r)) t =
     Inr (0, put_fd 0 (Some (Opened w)) (put_fd n (Some (Opened w)) t))"
  using assms
  by (auto simp: handleRedirection_def abs_redirection_def sys_open_def new_fd_Some sys_dup2_open
      split: option.splits if_splits)

lemma handleRedirection_Out:
  assumes "abs_redirection r = Some (Redirect_Out w)" "creat_ok env w" "lowest_free t = Some n"
    "1 < limit t"
  shows "handleRedirection env (Some (a, r)) t =
     Inr (0, put_fd 1 (Some (Created w)) (put_fd n (Some (Created w)) t))"
  using assms
  by (auto simp: handleRedirection_def abs_redirection_def sys_creat_def new_fd_Some sys_dup2_open
      split: option.splits if_splits)

section \<open>The elements of a command\<close>

lemma handleCommandElementList_pipe_ends:
  "handleCommandElementList env l arr t h = Inr (r, arr', t', h') \<Longrightarrow> pipe_ends t' \<subseteq> pipe_ends t"
proof (induction env l arr t h rule: handleCommandElementList.induct)
  case (2 env a e nx arr t h)
  show ?case
  proof (cases "isRedirection e = 0")
    case True
    then show ?thesis using 2 by (fastforce simp: bind_res_eq_Inr split: if_splits)
  next
    case False
    then obtain r1 t1 where t1: "handleRedirection env (redirection_pointer e) t = Inr (r1, t1)"
      using 2(3) by (auto simp: bind_res_eq_Inr)
    then have "pipe_ends t1 \<subseteq> pipe_ends t" by (rule handleRedirection_pipe_ends)
    then show ?thesis using 2(1) [OF False t1] 2(3) False t1 by (auto split: if_splits)
  qed
qed simp

text \<open>An argument array under construction.\<close>

definition arguments_held :: "string option DynamicByteArray \<Rightarrow> heap \<Rightarrow> string list \<Rightarrow> bool" where
  "arguments_held arr h ws \<longleftrightarrow> dba_inv arr \<and> type_size arr = 8 \<and> dba_owned arr \<subseteq> live h \<and>
     heap_ok h \<and> generous h \<and> dba_contents arr = map (\<lambda>w. enc_ptr (Some w)) ws"

lemma argument_added:
  assumes "arguments_held arr h ws" "length ws < 2 ^ 58"
  obtains arr' h' where "DBA_addElemToArr arr (enc_ptr p) h = Inr (0, arr', h')"
    "dba_inv arr'" "type_size arr' = 8" "dba_owned arr' \<subseteq> live h'" "heap_ok h'" "generous h'"
    "dba_contents arr' = dba_contents arr @ [enc_ptr p]"
proof -
  have len: "unat (nr_of_elements arr) = length ws"
    using assms(1) length_dba_contents [of arr] by (simp add: arguments_held_def)
  have pre: "dba_inv arr" "dba_fits arr (enc_ptr p)" "heap_ok h" "dba_owned arr \<subseteq> live h"
    using assms(1) by (auto simp: arguments_held_def dba_fits_def)
  show thesis
    using pre
  proof (cases rule: DBA_add_cases)
    case (refused h')
    have "dba_small arr (length (dba_contents arr))"
      using assms len by (simp add: dba_small_def arguments_held_def)
    moreover have "dba_inv arr" "generous h" using assms(1) by (simp_all add: arguments_held_def)
    ultimately show thesis using refused(4) dba_small_granted [OF _ refused(3)] by blast
  next
    case (stored arr' h')
    show thesis
      using that [OF stored(1,2)] stored assms(1)
      by (auto simp: arguments_held_def own_step_def heap_le_ok heap_le_generous)
  qed
qed

lemma handleCommandElementList_ok:
  assumes "abs_command l = Some c" "files_ok env c" "arguments_held arr h ws"
    "length ws + length c < 2 ^ 58" "free_from b t" "b + length c \<le> limit t" "2 \<le> b"
    "slots t 0 = Some i" "slots t 1 = Some out"
  shows "\<exists>arr' t' h'. handleCommandElementList env l (Some arr) t h = Inr (0, Some arr', t', h') \<and>
    arguments_held arr' h' (ws @ words c) \<and>
    slots t' 0 = Some (input_of i c) \<and> slots t' 1 = Some (output_of out c)"
  using assms
proof (induction l arbitrary: c arr h ws t b i out)
  case Nil
  then show ?case by simp
next
  case (Cons n l)
  obtain a e where n: "n = (a, e)" by fastforce
  then obtain x c' where x: "abs_elem e = Some x" "abs_command l = Some c'" "c = x # c'"
    using Cons.prems(1) by (auto split: option.splits)
  show ?case
  proof (cases x)
    case (Word w)
    then have e: "isRedirection e = 0" "element_word e = Some w"
      using x(1) by (auto simp: abs_elem_def abs_redirection_def split: if_splits option.splits)
    have "length ws < 2 ^ 58" using Cons.prems(4) by linarith
    from argument_added [OF Cons.prems(3) this, of "Some w"]
    obtain arr1 h1 where add: "DBA_addElemToArr arr (enc_ptr (Some w)) h = Inr (0, arr1, h1)"
      "arguments_held arr1 h1 (ws @ [w])"
      using Cons.prems(3) by (metis (no_types, lifting) arguments_held_def list.simps(8,9) map_append)
    have "\<exists>arr' t' h'. handleCommandElementList env l (Some arr1) t h1 = Inr (0, Some arr', t', h') \<and>
      arguments_held arr' h' ((ws @ [w]) @ words c') \<and>
      slots t' 0 = Some (input_of i c') \<and> slots t' 1 = Some (output_of out c')"
      by (rule Cons.IH [OF x(2) _ add(2), of b]) (use Cons.prems x Word in auto)
    then show ?thesis using n e add(1) x(3) Word by (simp add: handleCommandlineArgument_def)
  next
    case (Redirect_In w)
    then obtain p r where e: "isRedirection e \<noteq> 0" "redirection_pointer e = Some (p, r)"
        "abs_redirection r = Some x"
      using x(1) by (auto simp: abs_elem_def split: if_splits option.splits)
    have "slots t b = None" "b < limit t" using Cons.prems(5,6) x(3) by (auto simp: free_from_def)
    then obtain m where m: "lowest_free t = Some m" "m \<le> b" by (rule lowest_free_exists)
    then have m2: "2 \<le> m" using Cons.prems(8,9)
      by (auto simp: lowest_free_Some) (metis One_nat_def less_2_cases not_le option.distinct(1))
    let ?t = "put_fd 0 (Some (Opened w)) (put_fd m (Some (Opened w)) t)"
    have r: "handleRedirection env (redirection_pointer e) t = Inr (0, ?t)"
      using handleRedirection_In [of r w env t m p] e m m2 Redirect_In Cons.prems(2,6,7) x(3) by simp
    have "\<exists>arr' t' h'. handleCommandElementList env l (Some arr) ?t h = Inr (0, Some arr', t', h') \<and>
      arguments_held arr' h' (ws @ words c') \<and>
      slots t' 0 = Some (input_of (Opened w) c') \<and> slots t' 1 = Some (output_of out c')"
      by (rule Cons.IH [OF x(2) _ Cons.prems(3), of "Suc b"])
        (use Cons.prems x Redirect_In m m2 in \<open>auto simp: free_from_def\<close>)
    then show ?thesis using n e(1) r x(3) Redirect_In by simp
  next
    case (Redirect_Out w)
    then obtain p r where e: "isRedirection e \<noteq> 0" "redirection_pointer e = Some (p, r)"
        "abs_redirection r = Some x"
      using x(1) by (auto simp: abs_elem_def split: if_splits option.splits)
    have "slots t b = None" "b < limit t" using Cons.prems(5,6) x(3) by (auto simp: free_from_def)
    then obtain m where m: "lowest_free t = Some m" "m \<le> b" by (rule lowest_free_exists)
    then have m2: "2 \<le> m" using Cons.prems(8,9)
      by (auto simp: lowest_free_Some) (metis One_nat_def less_2_cases not_le option.distinct(1))
    let ?t = "put_fd 1 (Some (Created w)) (put_fd m (Some (Created w)) t)"
    have r: "handleRedirection env (redirection_pointer e) t = Inr (0, ?t)"
      using handleRedirection_Out [of r w env t m p] e m m2 Redirect_Out Cons.prems(2,6,7) x(3) by simp
    have "\<exists>arr' t' h'. handleCommandElementList env l (Some arr) ?t h = Inr (0, Some arr', t', h') \<and>
      arguments_held arr' h' (ws @ words c') \<and>
      slots t' 0 = Some (input_of i c') \<and> slots t' 1 = Some (output_of (Created w) c')"
      by (rule Cons.IH [OF x(2) _ Cons.prems(3), of "Suc b"])
        (use Cons.prems x Redirect_Out m m2 in \<open>auto simp: free_from_def\<close>)
    then show ?thesis using n e(1) r x(3) Redirect_Out by simp
  qed
qed

section \<open>Executing\<close>

lemma execute_arguments_ok:
  assumes "arguments_held arr h ws" "ws \<noteq> []" "length ws < 2 ^ 58" "exec_ok env (hd ws)"
  shows "execute_arguments env arr t h = Inr (Execs ws t)"
proof -
  obtain arr' h' where a: "DBA_addElemToArr arr (enc_ptr None) h = Inr (0, arr', h')"
    "dba_owned arr' \<subseteq> live h'" "dba_contents arr' = dba_contents arr @ [enc_ptr None]"
    using argument_added [OF assms(1,3)] .
  have "elements arr' = concat (map (\<lambda>w. enc_ptr (Some w)) ws) @ enc_ptr None @
      drop (unat (nr_of_elements arr') * unat (type_size arr')) (elements arr')"
    using elements_contents [of arr'] a(3) assms(1) by (simp add: arguments_held_def)
  then have "read_ptrs (elements arr') = Inr ws" by (metis read_ptrs_array)
  moreover have "dba_block arr' \<in> live h'" using a(2) by (simp add: dba_owned_def)
  ultimately show ?thesis
    using a(1) assms(2,4)
    by (simp add: execute_arguments_def DBA_getInternalArray_def mfree_def)
qed

lemma handleCommandList_pipe_ends:
  assumes "handleCommandList env l p q t h = Inr (Execs argv t')"
  shows "pipe_ends t' \<subseteq> pipe_ends t"
proof -
  obtain a c nx where l: "l = (a, c) # nx" using assms by (cases l) (auto simp: handleCommandList_def)
  obtain d0 t1 where d0: "(if 0 \<le> p then sys_dup2 p 0 t else (0, t)) = (d0, t1)" by fastforce
  obtain d1 t2 where d1: "(if 0 \<le> q then sys_dup2 q 1 t1 else (0, t1)) = (d1, t2)" by fastforce
  have "pipe_ends t1 \<subseteq> pipe_ends t" using d0 sys_dup2_pipe_ends by (simp split: if_splits)
  moreover have "pipe_ends t2 \<subseteq> pipe_ends t1" using d1 sys_dup2_pipe_ends by (simp split: if_splits)
  ultimately have t2: "pipe_ends t2 \<subseteq> pipe_ends t" by blast
  obtain dynArr h1 r arr h2 where "handleCommandElementList env (element_list c) dynArr t2 h1 = Inr (r, arr, t', h2)"
    using assms l d0 d1
    by (auto simp: handleCommandList_def execute_arguments_def bind_res_eq_Inr DBA_getInternalArray_def
        split: if_splits option.splits)
  from handleCommandElementList_pipe_ends [OF this] t2 show ?thesis by blast
qed

text \<open>A whole command, given what its descriptors 0 and 1 are after the pipes are connected.\<close>

lemma handleCommandList_ok:
  assumes "abs_command (element_list c) = Some x" "wf_command x" "files_ok env x" "exec_ok env (hd (words x))"
    "generous h" "heap_ok h" "length x < 2 ^ 57"
    "(if 0 \<le> p then sys_dup2 p 0 t else (0, t)) = (d0, t1)" "0 \<le> d0"
    "(if 0 \<le> q then sys_dup2 q 1 t1 else (0, t1)) = (d1, t2)" "0 \<le> d1"
    "free_from b t2" "b + length x \<le> limit t2" "2 \<le> b" "slots t2 0 = Some i" "slots t2 1 = Some out"
  shows "\<exists>t'. handleCommandList env ((a, c) # nx) p q t h = Inr (Execs (words x) t') \<and>
     slots t' 0 = Some (input_of i x) \<and> slots t' 1 = Some (output_of out x)"
proof -
  have le: "length (words x) \<le> length x" by (induction x rule: words.induct) auto
  have ne: "words x \<noteq> []" using assms(2) by (cases x rule: wf_command.cases) auto
  have sz: "(0 :: size_t) < 8" "unat (8 :: size_t) < 2 ^ 58" by simp_all
  obtain arr :: "string option DynamicByteArray" and h1 where
    mk: "DBA_makeNewDynamicByteArray 8 h = Inr (Some arr, h1)" "arguments_held arr h1 []"
    using sz assms(6)
  proof (cases rule: DBA_make_cases [where ?'p = "string option"])
    case (none h')
    then show thesis using assms(5) by simp
  next
    case (made arr h')
    then show thesis
      using that assms(5,6) by (auto simp: arguments_held_def own_step_def heap_le_ok heap_le_generous)
  qed
  obtain arr' t' h' where el:
    "handleCommandElementList env (element_list c) (Some arr) t2 h1 = Inr (0, Some arr', t', h')"
    "arguments_held arr' h' (words x)"
    "slots t' 0 = Some (input_of i x)" "slots t' 1 = Some (output_of out x)"
    using handleCommandElementList_ok [OF assms(1,3) mk(2) _ assms(12-16)] assms(7) by auto
  have "execute_arguments env arr' t' h' = Inr (Execs (words x) t')"
    using execute_arguments_ok [OF el(2) ne _ assms(4)] le assms(7) by simp
  then show ?thesis
    using mk(1) el assms(8-11) by (simp add: handleCommandList_def)
qed

lemma read_ptrs_unterminated: "read_ptrs (concat (map (\<lambda>q. enc_ptr (Some q)) qs)) = Inl Out_Of_Bounds"
  by (induction qs) (simp_all add: read_ptrs.simps [of "[]"])

section \<open>Properties\<close>

text \<open>
  The argument array may lack its NULL: when the words of a command fill the array exactly
  (sixteen of them, or any doubling of that) and the allocator refuses to grow it, the append of
  the NULL fails, nobody looks at its answer, and \<open>execvp\<close> reads past the end of the block.
\<close>

theorem argv_unterminated:
  assumes "dba_inv arr" "type_size arr = 8" "dba_owned arr \<subseteq> live h" "heap_ok h"
    "dba_contents arr = map (\<lambda>w. enc_ptr (Some w)) ws" "nr_of_elements arr = capacity arr"
    "\<not> granted (2 * (unat (capacity arr) * 8)) h"
  shows "execute_arguments env arr t h = Inl Out_Of_Bounds"
proof -
  have fits: "dba_fits arr (enc_ptr None)" using assms(2) by (simp add: dba_fits_def)
  show ?thesis
    using assms(1) fits assms(4,3)
  proof (cases rule: DBA_add_cases)
    case (refused h')
    have "length (elements arr) = unat (nr_of_elements arr) * unat (type_size arr)"
      using assms(1,6) by (simp add: dba_inv_def)
    then have "elements arr = concat (map (\<lambda>w. enc_ptr (Some w)) ws)"
      using elements_contents [of arr] assms(5) by simp
    moreover have "dba_block arr \<in> live h'" using refused(2) by (auto simp: own_step_def dba_owned_def)
    ultimately show ?thesis
      using refused(1) by (simp add: execute_arguments_def DBA_getInternalArray_def mfree_def read_ptrs_unterminated)
  next
    case (stored arr' h')
    have "length (dba_contents arr) = unat (capacity arr)" using assms(6) by simp
    have "DBA_addElemToArr arr (enc_ptr None) h = Inr (-1, arr, h\<lparr>fresh := Suc (fresh h)\<rparr>)"
      using assms(1-4,6,7) resize_bytes_exact(2) [OF assms(1)]
      by (auto simp: DBA_addElemToArr_def DBA_resizeArr_def crealloc_def dba_inv_def dba_owned_def word_less_nat_alt)
    then show ?thesis using stored(1) by simp
  qed
qed

definition full_arguments :: "string option DynamicByteArray" where
  "full_arguments = \<lparr>dba_block = 0, type_size = 8, nr_of_elements = 2, capacity = 2, elements_block = 1,
     elements = enc_ptr (Some ''ls'') @ enc_ptr (Some ''-l'')\<rparr>"

theorem argv_unterminated_witness:
  "\<forall>env t. execute_arguments env full_arguments t \<lparr>live = {0, 1}, fresh = 2, grants = (\<lambda>k n. False)\<rparr> =
     Inl Out_Of_Bounds"
  by (intro allI, rule argv_unterminated [where ws = "[''ls'', ''-l'']"])
    (simp_all add: full_arguments_def dba_inv_def dba_owned_def heap_ok_def granted_def dba_contents_def
      dba_elem_def upt_rec)

end
