(* ===== verification/Pipelines.thy ===== *)
theory Pipelines
  imports CommandRun
begin

text \<open>
  The pipelines of the shell (\<open>interpretSimpleList\<close>). A job starts with descriptors 0, 1 and 2
  open and the others free, so the pipes it makes get the descriptors 3, 4 and 5, again and
  again: \<open>in_pipe k\<close> is the pair of numbers that \<open>incomingPipe\<close> holds at the k-th command, and
  \<open>job_table\<close> and \<open>piped_table\<close> the job's descriptors before and after it makes the k-th pipe.
  From these, what each command of a pipeline of any length finds on its descriptors.
\<close>

definition std_table :: "nat \<Rightarrow> fdtable" where
  "std_table L = \<lparr>slots = (\<lambda>n. if n < 3 then Some (Inherited n) else None), limit = L\<rparr>"

text \<open>No call of the job fails.\<close>

definition smooth :: "env \<Rightarrow> bool" where
  "smooth env \<longleftrightarrow> (\<forall>k. fork_pid env k \<noteq> None \<and> 0 \<le> prctl_ret env k \<and> parent_of env k = my_pid env \<and>
     pipe_ok env k)"

definition read_fd :: "nat \<Rightarrow> nat" where
  "read_fd k = (if odd k then 3 else 4)"

definition write_fd :: "nat \<Rightarrow> nat" where
  "write_fd k = (if k = 1 then 4 else 5)"

definition in_pipe :: "nat \<Rightarrow> int \<times> int" where
  "in_pipe k = (if k = 0 then (-1, -1) else (int (read_fd k), int (write_fd k)))"

definition job_table :: "nat \<Rightarrow> nat \<Rightarrow> fdtable" where
  "job_table L k = (if k = 0 then std_table L else put_fd (read_fd k) (Some (Pipe_R (k - 1))) (std_table L))"

definition piped_table :: "nat \<Rightarrow> nat \<Rightarrow> fdtable" where
  "piped_table L k =
     put_fd (write_fd (Suc k)) (Some (Pipe_W k)) (put_fd (read_fd (Suc k)) (Some (Pipe_R k)) (job_table L k))"

lemma slots_std [simp]: "slots (std_table L) n = (if n < 3 then Some (Inherited n) else None)"
  by (simp add: std_table_def)

lemma limit_tables [simp]:
  "limit (std_table L) = L" "limit (job_table L k) = L" "limit (piped_table L k) = L"
  by (simp_all add: std_table_def job_table_def piped_table_def)

lemma slots_job: "slots (job_table L k) n =
   (if 0 < k \<and> n = read_fd k then Some (Pipe_R (k - 1)) else slots (std_table L) n)"
  by (simp add: job_table_def)

lemma less_5_cases: "m < (5::nat) \<Longrightarrow> m < 3 \<or> m = 3 \<or> m = 4"
  by linarith

text \<open>The k-th pipe of the job.\<close>

lemma job_pipe:
  assumes "pipe_ok env k" "6 \<le> L"
  shows "sys_pipe env k old (job_table L k) = (0, in_pipe (Suc k), piped_table L k)"
proof -
  let ?t1 = "put_fd (read_fd (Suc k)) (Some (Pipe_R k)) (job_table L k)"
  have r: "lowest_free (job_table L k) = Some (read_fd (Suc k))"
    using assms(2) by (intro lowest_freeI) (auto simp: slots_job read_fd_def split: if_splits dest!: odd_pos)
  have w: "lowest_free ?t1 = Some (write_fd (Suc k))"
    using assms(2)
    by (intro lowest_freeI)
      (auto simp: slots_job read_fd_def write_fd_def split: if_splits dest!: less_5_cases odd_pos)
  show ?thesis
    using assms(1) by (simp add: sys_pipe_def new_fd_Some [OF r] new_fd_Some [OF w] in_pipe_def piped_table_def)
qed

text \<open>The job closes the ends it does not need: it keeps only what the next command reads from.\<close>

lemma job_closes:
  "close_end (snd (in_pipe (Suc k))) (close_end (fst (in_pipe k)) (piped_table L k)) = job_table L (Suc k)"
  by (rule fdtable_eqI)
    (auto simp: in_pipe_def piped_table_def slots_job read_fd_def write_fd_def dest: odd_pos)

lemma job_closes_last: "close_end (-1) (close_end (fst (in_pipe k)) (job_table L k)) = std_table L"
  by (rule fdtable_eqI)
    (auto simp: in_pipe_def slots_job read_fd_def)

text \<open>The k-th child of a pipeline; \<open>feeds\<close> says that a command follows it.\<close>

definition stage :: "env \<Rightarrow> heap \<Rightarrow> nat \<Rightarrow> Simple_Command_List \<Rightarrow> nat \<Rightarrow> bool \<Rightarrow> child" where
  "stage env h L cs k feeds =
     child_process env k h cs (in_pipe k) (if feeds then in_pipe (Suc k) else (-1, -1))
       (if feeds then piped_table L k else job_table L k)"

lemma safelyFork_parent: "smooth env \<Longrightarrow> \<not> safelyFork (my_pid env) (fork_ret env k) a b < 0"
  by (auto simp: smooth_def safelyFork_def fork_ret_def split: option.splits)

lemma safelyFork_child:
  "smooth env \<Longrightarrow> safelyFork (my_pid env) 0 (prctl_ret env k) (parent_of env k) = 0"
  by (auto simp: smooth_def safelyFork_def not_less)

lemma launch_stages:
  assumes "smooth env" "6 \<le> L" "cs \<noteq> []"
  shows "\<exists>ch. launch env h cs k (in_pipe k) old (job_table L k) = (True, std_table L, ch) \<and>
    length ch = length cs \<and>
    (\<forall>i<length cs. ch ! i = stage env h L (drop i cs) (k + i) (Suc i < length cs))"
  using assms(3)
proof (induction cs arbitrary: k old)
  case (Cons c cs)
  note fork = safelyFork_parent [OF assms(1)]
  have ok: "pipe_ok env k" using assms(1) by (simp add: smooth_def)
  show ?case
  proof (cases "cs = []")
    case True
    then show ?thesis
      using fork job_closes_last [of k L] by (auto simp: Let_def stage_def)
  next
    case False
    then obtain ch where ch:
      "launch env h cs (Suc k) (in_pipe (Suc k)) (in_pipe k) (job_table L (Suc k)) = (True, std_table L, ch)"
      "length ch = length cs"
      "\<forall>i<length cs. ch ! i = stage env h L (drop i cs) (Suc k + i) (Suc i < length cs)"
      using Cons.IH by blast
    let ?c = "child_process env k h (c # cs) (in_pipe k) (in_pipe (Suc k)) (piped_table L k)"
    have "launch env h (c # cs) k (in_pipe k) old (job_table L k) = (True, std_table L, ?c # ch)"
      using False fork job_pipe [OF ok assms(2)] job_closes [of k L] ch(1) by (simp add: Let_def)
    moreover have "(?c # ch) ! i = stage env h L (drop i (c # cs)) (k + i) (Suc i < length (c # cs))"
      if "i < length (c # cs)" for i
      using that ch(3) False by (cases i) (auto simp: stage_def)
    ultimately show ?thesis using ch(2) by auto
  qed
qed simp

text \<open>
  When a call fails, the job closes both pipes it has the numbers of, some of them stale: closing
  these does no harm, and what is open beyond the standard descriptors is among the others.
\<close>

lemmas failure_tables = in_pipe_def piped_table_def slots_job read_fd_def write_fd_def

lemma no_pipe_closes:
  "closePipe (in_pipe (k - 1)) (closePipe (in_pipe k) (job_table L k)) = std_table L"
  by (rule fdtable_eqI) (auto simp: failure_tables)

lemma no_fork_closes:
  "closePipe (in_pipe (Suc k)) (closePipe (in_pipe k) (piped_table L k)) = std_table L"
  by (rule fdtable_eqI) (auto simp: failure_tables dest: odd_pos)

lemma no_last_fork_closes:
  "closePipe (-1, -1) (closePipe (in_pipe k) (job_table L k)) = std_table L"
  by (rule fdtable_eqI) (auto simp: failure_tables)

lemma Ex_Not [simp]: "Ex Not"
  by (rule exI [of _ False]) simp

lemma launch_restores:
  assumes "6 \<le> L" "cs \<noteq> []"
  shows "\<exists>ok ch. launch env h cs k (in_pipe k) (in_pipe (k - 1)) (job_table L k) = (ok, std_table L, ch)"
  using assms(2)
proof (induction cs arbitrary: k)
  case (Cons c cs)
  show ?case
  proof (cases "cs = []")
    case True
    then show ?thesis using no_last_fork_closes [of k L] job_closes_last [of k L] by (auto simp: Let_def)
  next
    case cs: False
    show ?thesis
    proof (cases "pipe_ok env k")
      case False
      then show ?thesis using cs no_pipe_closes [of k L]
        by (intro exI [of _ False]) (simp add: sys_pipe_def)
    next
      case True
      obtain ok ch where
        "launch env h cs (Suc k) (in_pipe (Suc k)) (in_pipe k) (job_table L (Suc k)) = (ok, std_table L, ch)"
        using Cons.IH [OF cs, of "Suc k"] by auto
      then show ?thesis
        using cs job_pipe [OF True assms(1)] job_closes [of k L] no_fork_closes [of k L]
        by (simp add: Let_def)
    qed
  qed
qed simp

section \<open>What a command of the pipeline finds\<close>

text \<open>Its descriptors after it has closed the pipe ends it takes for unused.\<close>

definition stage_table :: "nat \<Rightarrow> nat \<Rightarrow> bool \<Rightarrow> fdtable" where
  "stage_table L k feeds =
     close_end (fst (if feeds then in_pipe (Suc k) else (-1, -1)))
       (close_end (snd (in_pipe k)) (if feeds then piped_table L k else job_table L k))"

lemma stage_unfold:
  assumes "smooth env"
  shows "stage env h L cs k feeds =
     (case handleCommandList env cs (fst (in_pipe k)) (snd (if feeds then in_pipe (Suc k) else (-1, -1)))
             (stage_table L k feeds) h of
        Inl u \<Rightarrow> Crashes u
      | Inr (Execs argv t) \<Rightarrow> Runs argv t
      | Inr (Returns r) \<Rightarrow> Exits EXIT_FAILURE)"
  using safelyFork_child [OF assms, of k]
  by (simp add: stage_def child_process_def stage_table_def Let_def)

lemma stage_table_slots:
  "slots (stage_table L k feeds) n =
     (if n < 3 then Some (Inherited n)
      else if 0 < k \<and> n = read_fd k then Some (Pipe_R (k - 1))
      else if feeds \<and> k < 2 \<and> n = write_fd (Suc k) then Some (Pipe_W k)
      else None)"
  by (auto simp: stage_table_def in_pipe_def piped_table_def slots_job read_fd_def write_fd_def)

lemma stage_table_pipe_ends:
  "Pipe_W j \<in> pipe_ends (stage_table L k feeds) \<Longrightarrow> feeds \<and> j = k"
  by (auto simp: pipe_ends_def stage_table_slots split: if_splits)

text \<open>
  A command in the middle of a pipeline, the third or a later one, has closed the write end of
  its own pipe: its number is the one of the previous write end.
\<close>

lemma stage_middle_fails:
  assumes "smooth env" "2 \<le> k"
  shows "stage env h L (c # cs) k True = Exits EXIT_FAILURE"
proof -
  let ?t = "stage_table L k True"
  have lost: "slots t 5 = None" if "t = ?t \<or> (\<exists>m<5. t = put_fd m (slots ?t (read_fd k)) ?t)" for t
    using that assms(2) by (auto simp: stage_table_slots read_fd_def write_fd_def)
  have "get_fd 5 t = slots t 5" for t by (simp add: get_fd_def)
  then have "fst (sys_dup2 5 1 (snd (sys_dup2 (int (read_fd k)) 0 ?t))) < 0"
    using lost [of ?t] lost [of "put_fd 0 (slots ?t (read_fd k)) ?t"]
    by (auto simp: sys_dup2_def)
  then show ?thesis
    using assms
    by (cases c) (auto simp: stage_unfold handleCommandList_def in_pipe_def write_fd_def split: prod.splits)
qed

text \<open>The first two commands of a pipeline, and its last one, get their pipes and run.\<close>

lemma stage_runs:
  assumes "smooth env" "k < 2 \<or> \<not> feeds" "abs_command (element_list c) = Some x" "wf_command x"
    "files_ok env x" "exec_ok env (hd (words x))" "generous h" "heap_ok h" "length x < 2 ^ 57"
    "6 + length x \<le> L"
  shows "\<exists>t. stage env h L ((a, c) # nx) k feeds = Runs (words x) t \<and>
    slots t 0 = Some (input_of (if k = 0 then Inherited 0 else Pipe_R (k - 1)) x) \<and>
    slots t 1 = Some (output_of (if feeds then Pipe_W k else Inherited 1) x)"
proof -
  let ?t = "stage_table L k feeds"
  let ?p = "fst (in_pipe k)" and ?q = "snd (if feeds then in_pipe (Suc k) else (-1, -1))"
  have lim: "limit ?t = L" by (simp add: stage_table_def)
  let ?i = "if k = 0 then Inherited 0 else Pipe_R (k - 1)" and ?o = "if feeds then Pipe_W k else Inherited 1"
  let ?t1 = "if k = 0 then ?t else put_fd 0 (Some ?i) ?t"
  let ?t2 = "if feeds then put_fd 1 (Some ?o) ?t1 else ?t1"
  have rd: "0 < k \<Longrightarrow> slots ?t (read_fd k) = Some ?i" by (simp add: stage_table_slots read_fd_def)
  have wr: "feeds \<Longrightarrow> slots ?t1 (write_fd (Suc k)) = Some ?o"
    using assms(2) by (auto simp: stage_table_slots read_fd_def write_fd_def)
  have d0: "(if 0 \<le> ?p then sys_dup2 ?p 0 ?t else (0, ?t)) = (0, ?t1)"
    using rd lim assms(10) by (auto simp: in_pipe_def sys_dup2_open)
  have d1: "(if 0 \<le> ?q then sys_dup2 ?q 1 ?t1 else (0, ?t1)) = (if feeds then 1 else 0, ?t2)"
    using wr lim assms(10) by (auto simp: in_pipe_def sys_dup2_open)
  have "free_from 6 ?t2" by (auto simp: free_from_def stage_table_slots read_fd_def write_fd_def)
  moreover have "slots ?t2 0 = Some ?i" "slots ?t2 1 = Some ?o" "limit ?t2 = L"
    using lim by (auto simp: stage_table_slots read_fd_def write_fd_def)
  ultimately have "\<exists>t. handleCommandList env ((a, c) # nx) ?p ?q ?t h = Inr (Execs (words x) t) \<and>
      slots t 0 = Some (input_of ?i x) \<and> slots t 1 = Some (output_of ?o x)"
    by (intro handleCommandList_ok [OF assms(3-9) d0 _ d1, of 6]) (use assms(10) in simp_all)
  then obtain t where t: "handleCommandList env ((a, c) # nx) ?p ?q ?t h = Inr (Execs (words x) t)"
      "slots t 0 = Some (input_of ?i x)" "slots t 1 = Some (output_of ?o x)" by blast
  have "stage env h L ((a, c) # nx) k feeds = Runs (words x) t"
    unfolding stage_unfold [OF assms(1)] t(1) by simp
  with t(2,3) show ?thesis by blast
qed

lemma stage_pipe_ends:
  assumes "stage env h L cs k feeds = Runs argv t" "Pipe_W j \<in> pipe_ends t"
  shows "feeds \<and> j = k"
proof -
  obtain p q where "handleCommandList env cs p q (stage_table L k feeds) h = Inr (Execs argv t)"
    using assms(1)
    by (auto simp: stage_def child_process_def stage_table_def Let_def split: sum.splits command_end.splits if_splits)
  from handleCommandList_pipe_ends [OF this] assms(2) show ?thesis
    using stage_table_pipe_ends by blast
qed

section \<open>The job\<close>

lemma abs_pipeline_nth:
  "abs_pipeline l = Some cs \<Longrightarrow> length l = length cs \<and>
     (\<forall>k<length cs. abs_command (element_list (snd (l ! k))) = Some (cs ! k))"
proof (induction l arbitrary: cs)
  case (Cons n l)
  then show ?case by (cases n) (auto split: option.splits simp: nth_Cons split: nat.split)
qed simp

lemma set_map_enumerate:
  "x \<in> set (map (\<lambda>(k, c). f k c) (enumerate 0 l)) \<longleftrightarrow> (\<exists>k<length l. f k (l ! k) = x)"
  unfolding in_set_conv_nth by (auto simp: nth_enumerate_eq)

lemma wait_loop_eq: "wait_loop ws e = (if Exited EXIT_FAILURE \<in> set ws then EXIT_FAILURE else e)"
  by (induction ws arbitrary: e) auto

text \<open>A job on a tree, started with the descriptors 0, 1 and 2: its commands in order.\<close>

lemma job_stages:
  assumes "smooth env" "6 \<le> L" "simple_command_list (pipeline sl) \<noteq> []"
  obtains st ch where
    "interpretSimpleList env h (Some (a, sl)) (std_table L) = (st, std_table L, ch)"
    "length ch = length (simple_command_list (pipeline sl))"
    "\<And>k. k < length ch \<Longrightarrow>
       ch ! k = stage env h L (drop k (simple_command_list (pipeline sl))) k (Suc k < length ch)"
    "st = wait_loop (wait_answers env ch) EXIT_SUCCESS"
proof -
  obtain ch where ch:
    "launch env h (simple_command_list (pipeline sl)) 0 (in_pipe 0) (-1, -1) (job_table L 0) = (True, std_table L, ch)"
    "length ch = length (simple_command_list (pipeline sl))"
    "\<forall>i<length (simple_command_list (pipeline sl)). ch ! i =
       stage env h L (drop i (simple_command_list (pipeline sl))) (0 + i) (Suc i < length (simple_command_list (pipeline sl)))"
    using launch_stages [OF assms] by blast
  then show thesis
    using that by (simp add: interpretSimpleList_unfold in_pipe_def job_table_def)
qed

lemma pipeline_wired:
  assumes "smooth env" "generous h" "heap_ok h" "abs_pipeline (simple_command_list (pipeline sl)) = Some cs"
    "wf_pipeline cs" "k < length cs" "k < 2 \<or> Suc k = length cs"
    "files_ok env (cs ! k)" "exec_ok env (hd (words (cs ! k)))" "6 + length (cs ! k) \<le> L" "L < 2 ^ 57"
  shows "\<exists>st ch t. interpretSimpleList env h (Some (a, sl)) (std_table L) = (st, std_table L, ch) \<and>
     length ch = length cs \<and> ch ! k = Runs (words (cs ! k)) t \<and>
     slots t 0 = Some (input_of (if k = 0 then Inherited 0 else Pipe_R (k - 1)) (cs ! k)) \<and>
     slots t 1 = Some (output_of (if Suc k = length cs then Inherited 1 else Pipe_W k) (cs ! k))"
proof -
  let ?l = "simple_command_list (pipeline sl)"
  note l = abs_pipeline_nth [OF assms(4)]
  have ne: "?l \<noteq> []" and L: "6 \<le> L" using l assms(6,10) by auto
  obtain st ch where j: "interpretSimpleList env h (Some (a, sl)) (std_table L) = (st, std_table L, ch)"
    "length ch = length ?l" "\<And>k. k < length ch \<Longrightarrow> ch ! k = stage env h L (drop k ?l) k (Suc k < length ch)"
    using job_stages [OF assms(1) L ne] by blast
  obtain b c where bc: "?l ! k = (b, c)" by fastforce
  have d: "drop k ?l = (b, c) # drop (Suc k) ?l" using l assms(6) bc by (simp add: Cons_nth_drop_Suc [symmetric])
  have wf: "wf_command (cs ! k)" using assms(5,6) by (simp add: wf_pipeline_def list_all_length)
  have "k < 2 \<or> \<not> Suc k < length ch" using assms(7) j(2) l by auto
  moreover have "abs_command (element_list c) = Some (cs ! k)" using l assms(6) bc by (metis snd_conv)
  moreover have "length (cs ! k) < 2 ^ 57" using assms(10,11) by linarith
  ultimately obtain t where "ch ! k = Runs (words (cs ! k)) t"
    "slots t 0 = Some (input_of (if k = 0 then Inherited 0 else Pipe_R (k - 1)) (cs ! k))"
    "slots t 1 = Some (output_of (if Suc k < length ch then Pipe_W k else Inherited 1) (cs ! k))"
    using stage_runs [OF assms(1) _ _ wf assms(8,9,2,3) _ assms(10), of k "Suc k < length ch" c b]
      j(3) [of k] d j(2) l assms(6) by metis
  moreover have "Suc k < length ch \<longleftrightarrow> Suc k \<noteq> length cs" using j(2) l assms(6) by auto
  ultimately show ?thesis using j(1,2) l by auto
qed

text \<open>The children a job has made, although a later call may have failed.\<close>

lemma launch_children:
  assumes "6 \<le> L" "cs \<noteq> []" "launch env h cs k (in_pipe k) old (job_table L k) = (ok, t, ch)"
  shows "\<forall>i < length ch. ch ! i = stage env h L (drop i cs) (k + i) (Suc i < length cs)"
  using assms(2,3)
proof (induction cs arbitrary: k old ok t ch)
  case (Cons c cs)
  show ?case
  proof (cases "cs = []")
    case True
    then show ?thesis using Cons.prems(2) by (auto simp: Let_def stage_def split: if_splits)
  next
    case cs: False
    show ?thesis
    proof (cases "pipe_ok env k")
      case False
      then show ?thesis using Cons.prems(2) cs by (auto simp: sys_pipe_def)
    next
      case True
      let ?c = "child_process env k h (c # cs) (in_pipe k) (in_pipe (Suc k)) (piped_table L k)"
      obtain ok1 t1 ch1 where l: "launch env h cs (Suc k) (in_pipe (Suc k)) (in_pipe k) (job_table L (Suc k)) = (ok1, t1, ch1)"
        using prod_cases3 by blast
      then have "ch = [] \<or> ch = ?c # ch1"
        using Cons.prems(2) cs job_pipe [OF True assms(1)] job_closes [of k L] by (auto simp: Let_def split: if_splits)
      moreover have "(?c # ch1) ! i = stage env h L (drop i (c # cs)) (k + i) (Suc i < length (c # cs))"
        if "i < length (?c # ch1)" for i
        using that Cons.IH [OF cs l] cs by (cases i) (auto simp: stage_def)
      ultimately show ?thesis by auto
    qed
  qed
qed simp

lemma job_children:
  assumes "6 \<le> L" "interpretSimpleList env h (Some (a, sl)) (std_table L) = (st, t', ch)" "k < length ch"
  shows "ch ! k = stage env h L (drop k (simple_command_list (pipeline sl))) k
    (Suc k < length (simple_command_list (pipeline sl)))"
proof -
  let ?l = "simple_command_list (pipeline sl)"
  obtain ok t where l: "launch env h ?l 0 (in_pipe 0) (-1, -1) (job_table L 0) = (ok, t, ch)"
    using assms(2) by (auto simp: interpretSimpleList_unfold in_pipe_def job_table_def split: prod.splits if_splits)
  show ?thesis
  proof (cases "?l = []")
    case True
    then show ?thesis using l assms(3) by simp
  next
    case False
    then show ?thesis using launch_children [OF assms(1) _ l] assms(3) by auto
  qed
qed

lemma job_restores:
  assumes "6 \<le> L"
  shows "\<exists>st ch. interpretSimpleList env h l (std_table L) = (st, std_table L, ch)"
proof (cases l)
  case (Some p)
  obtain a sl where p: "p = (a, sl)" by fastforce
  let ?cs = "simple_command_list (pipeline sl)"
  have "\<exists>ok ch. launch env h ?cs 0 (-1, -1) (-1, -1) (std_table L) = (ok, std_table L, ch)"
    using launch_restores [OF assms, of ?cs env h 0]
    by (cases "?cs = []") (auto simp add: in_pipe_def job_table_def)
  then show ?thesis using Some p by (auto simp: interpretSimpleList_unfold)
qed (simp add: interpretSimpleList_unfold)

section \<open>Properties\<close>


definition calm_env :: env where
  "calm_env = \<lparr>my_pid = 1, fork_pid = (\<lambda>k. Some k), prctl_ret = (\<lambda>k. 0), parent_of = (\<lambda>k. 1),
     pipe_ok = (\<lambda>k. True), open_ok = (\<lambda>w. True), creat_ok = (\<lambda>w. True), exec_ok = (\<lambda>w. True),
     program_status = (\<lambda>k. Exited 0), nocldwait = True\<rparr>"

lemma smooth_calm [simp]: "smooth calm_env"
  by (simp add: smooth_def calm_env_def)

definition element_of_word :: "string \<Rightarrow> Simple_Command_Element" where
  "element_of_word w = \<lparr>isRedirection = 0, redirection_pointer = None, element_word = Some w\<rparr>"

definition word_pipeline :: "string list \<Rightarrow> Simple_List" where
  "word_pipeline ws =
     \<lparr>pipeline = \<lparr>simple_command_list = map (\<lambda>w. (0, \<lparr>element_list = [(1, element_of_word w)]\<rparr>)) ws\<rparr>,
      hasDaemonAmpersand = 0\<rparr>"


text \<open>
  C10. A pipeline of four or more commands does not work: every command from the third to the one
  before the last exits with a failure before it runs anything, whatever the commands are and
  although no call of the job fails. Before it connects its output it closes the number that
  was the write end of the previous pipe, which by then is the write end of its own.
\<close>

theorem long_pipeline_broken:
  assumes "smooth env" "6 \<le> L" "2 \<le> k" "Suc k < length (simple_command_list (pipeline sl))"
  shows "\<exists>st ch. interpretSimpleList env h (Some (a, sl)) (std_table L) = (st, std_table L, ch) \<and>
     length ch = length (simple_command_list (pipeline sl)) \<and> ch ! k = Exits EXIT_FAILURE"
proof -
  let ?l = "simple_command_list (pipeline sl)"
  have ne: "?l \<noteq> []" using assms(4) by auto
  obtain st ch where j: "interpretSimpleList env h (Some (a, sl)) (std_table L) = (st, std_table L, ch)"
    "length ch = length ?l" "\<And>k. k < length ch \<Longrightarrow> ch ! k = stage env h L (drop k ?l) k (Suc k < length ch)"
    using job_stages [OF assms(1,2) ne] by blast
  have "drop k ?l = ?l ! k # drop (Suc k) ?l" using assms(4) by (simp add: Cons_nth_drop_Suc [symmetric])
  then have "ch ! k = Exits EXIT_FAILURE"
    using j(2) j(3) [of k] assms(4) stage_middle_fails [OF assms(1,3)] by simp
  then show ?thesis using j(1,2) by blast
qed

theorem long_pipeline_broken_witness:
  "\<exists>st ch. interpretSimpleList calm_env (new_heap (\<lambda>k n. True)) (Some (0, word_pipeline [''a'', ''b'', ''c'', ''d'']))
       (std_table 16) = (st, std_table 16, ch) \<and> length ch = 4 \<and> ch ! 2 = Exits EXIT_FAILURE"
  using long_pipeline_broken [OF smooth_calm, of 16 2 "word_pipeline [''a'', ''b'', ''c'', ''d'']"
      "new_heap (\<lambda>k n. True)" 0]
  by (simp add: word_pipeline_def numeral_eq_Suc)

text \<open>
  C12. End of file gets through. Whatever calls of the job or of its commands fail: of all the
  processes of the job, the only one that runs with the write end of a pipe is the command the pipe
  belongs to, which another command of the line follows, and the job itself keeps no pipe end.
  So every reader sees the end of its input when the command before it is done, in pipelines of
  any length and with any redirections.
\<close>

theorem pipe_writers:
  assumes "6 \<le> L" "interpretSimpleList env h (Some (a, sl)) (std_table L) = (st, t', ch)"
    "k < length ch" "ch ! k = Runs argv t" "slots t n = Some (Pipe_W j)"
  shows "j = k \<and> Suc k < length (simple_command_list (pipeline sl)) \<and> t' = std_table L"
proof -
  have "Pipe_W j \<in> pipe_ends t" using assms(5) by (auto simp: pipe_ends_def)
  then have "Suc k < length (simple_command_list (pipeline sl)) \<and> j = k"
    using stage_pipe_ends job_children [OF assms(1-3)] assms(4) by metis
  moreover have "t' = std_table L" using job_restores [OF assms(1), of env h "Some (a, sl)"] assms(2) by auto
  ultimately show ?thesis by simp
qed

theorem pipe_writers_witness:
  "\<exists>st t' ch argv t. interpretSimpleList calm_env (new_heap (\<lambda>k n. True))
       (Some (0, word_pipeline [''ls'', ''wc''])) (std_table 16) = (st, t', ch) \<and> ch ! 0 = Runs argv t \<and>
     slots t 1 = Some (Pipe_W 0) \<and> Suc 0 < length ch \<and> t' = std_table 16"
proof -
  let ?cs = "[[Word ''ls''], [Word ''wc'']]"
  let ?l = "simple_command_list (pipeline (word_pipeline [''ls'', ''wc'']))"
  have l: "?l \<noteq> []" "length ?l = 2" by (simp_all add: word_pipeline_def)
  have c: "abs_command (element_list (snd (?l ! 0))) = Some [Word ''ls'']" "?l ! 0 = (0, snd (?l ! 0))"
    by (simp_all add: word_pipeline_def element_of_word_def abs_elem_def)
  have "(6::nat) \<le> 16" by simp
  then obtain st ch where "interpretSimpleList calm_env (new_heap (\<lambda>k n. True))
       (Some (0, word_pipeline [''ls'', ''wc''])) (std_table 16) = (st, std_table 16, ch)" "length ch = length ?l"
    "\<And>k. k < length ch \<Longrightarrow> ch ! k = stage calm_env (new_heap (\<lambda>k n. True)) 16 (drop k ?l) k (Suc k < length ch)"
    using job_stages [OF smooth_calm _ l(1)] by metis
  then have j: "interpretSimpleList calm_env (new_heap (\<lambda>k n. True))
       (Some (0, word_pipeline [''ls'', ''wc''])) (std_table 16) = (st, std_table 16, ch)" "length ch = 2"
    "ch ! 0 = stage calm_env (new_heap (\<lambda>k n. True)) 16 ?l 0 True"
    using l(2) by simp_all
  have "wf_command [Word ''ls'']" by (simp add: word_chars_eval cstr_def NUL_def)
  then have "\<exists>t. stage calm_env (new_heap (\<lambda>k n. True)) 16 ((0, snd (?l ! 0)) # tl ?l) 0 True =
        Runs (words [Word ''ls'']) t \<and>
      slots t 0 = Some (input_of (if 0 = (0::nat) then Inherited 0 else Pipe_R (0 - 1)) [Word ''ls'']) \<and>
      slots t 1 = Some (output_of (if True then Pipe_W 0 else Inherited 1) [Word ''ls''])"
    by (intro stage_runs) (use c in \<open>simp_all add: files_ok_def calm_env_def smooth_def\<close>)
  moreover have "(0, snd (?l ! 0)) # tl ?l = ?l" by (simp add: word_pipeline_def)
  ultimately obtain t where t: "ch ! 0 = Runs [''ls''] t" "slots t 1 = Some (Pipe_W 0)"
    using j(3) by auto
  have "0 = (0::nat) \<and> Suc 0 < length ?l \<and> std_table 16 = std_table 16"
    by (rule pipe_writers [OF _ j(1) _ t]) (use j(2) in simp_all)
  then have "Suc 0 < length ch" using j(2) l(2) by simp
  then show ?thesis using j(1) t by blast
qed

text \<open>
  C11. Whatever calls fail, and at whatever command of the pipeline, the job ends with exactly the
  descriptors it started with: no path through the loop loses a pipe end, and none closes a
  descriptor that is not a pipe's.
\<close>

theorem job_restores_descriptors:
  assumes "6 \<le> L"
  shows "\<exists>st ch. interpretSimpleList env h l (std_table L) = (st, std_table L, ch)"
  using assms by (rule job_restores)

theorem job_restores_descriptors_witness:
  "\<exists>st ch. interpretSimpleList (calm_env\<lparr>fork_pid := (\<lambda>k. if k = 2 then None else Some k)\<rparr>)
     (new_heap (\<lambda>k n. True)) (Some (0, word_pipeline [''a'', ''b'', ''c'', ''d''])) (std_table 16) =
     (st, std_table 16, ch)"
  by (rule job_restores_descriptors) simp

text \<open>
  The exit status of a job: when all its commands were initiated it is EXIT_FAILURE exactly
  if some command exited with EXIT_FAILURE and the process does not ignore the statuses of its
  children. Under SA_NOCLDWAIT, which \<open>main\<close> of iwish.c sets, \<open>wait\<close> never tells a status, and
  the job succeeds whatever its commands did.
\<close>

theorem job_status:
  assumes "smooth env" "6 \<le> L" "interpretSimpleList env h (Some (a, sl)) (std_table L) = (st, t', ch)"
  shows "st = (if \<not> nocldwait env \<and> (\<exists>k<length ch. child_status env k (ch ! k) = Exited EXIT_FAILURE)
               then EXIT_FAILURE else EXIT_SUCCESS)"
proof -
  have st: "st = wait_loop (wait_answers env ch) EXIT_SUCCESS"
  proof (cases "simple_command_list (pipeline sl) = []")
    case True
    then show ?thesis using assms(3) by (simp add: interpretSimpleList_unfold)
  next
    case False
    from job_stages [OF assms(1,2) this, of h a] assms(3) show ?thesis by (metis prod.inject)
  qed
  have "Exited EXIT_FAILURE \<in> set (wait_answers env ch) \<longleftrightarrow>
      \<not> nocldwait env \<and> (\<exists>k<length ch. child_status env k (ch ! k) = Exited EXIT_FAILURE)"
    by (auto simp: wait_answers_def set_map_enumerate simp del: set_map)
  then show ?thesis by (auto simp: st wait_loop_eq)
qed

theorem job_status_witness:
  "fst (interpretSimpleList calm_env (new_heap (\<lambda>k n. True)) (Some (0, word_pipeline [''a'', ''b'', ''c'', ''d'']))
     (std_table 16)) = EXIT_SUCCESS"
proof -
  obtain st t ch where j: "interpretSimpleList calm_env (new_heap (\<lambda>k n. True))
      (Some (0, word_pipeline [''a'', ''b'', ''c'', ''d''])) (std_table 16) = (st, t, ch)"
    using prod_cases3 by blast
  from job_status [OF smooth_calm _ j] j show ?thesis by (simp add: calm_env_def)
qed

end
