(* ===== verification/Iwish.thy ===== *)
theory Iwish
  imports Input ParserCorrect Pipelines
begin

text \<open>
  The shell itself (\<open>interpretInput\<close>, \<open>stringIsExitKeyword\<close> and \<open>main\<close> of
  Lab2/iwish/src/iwish.c): one turn of the loop of \<open>main\<close> reads a line, splits it, parses it and
  starts a job for it. The state of the shell between two turns is the rest of its input, its
  descriptors and its heap. The loop may run for ever, so \<open>shell_main\<close> is a
  \<open>partial_function\<close>.
\<close>

text \<open>The environments of the shell and of the job of its n-th turn.\<close>

record world =
  shell_env :: env
  job_env :: "nat \<Rightarrow> env"

type_synonym job = "int \<times> fdtable \<times> child list"

text \<open>
  What a turn does: the line is invalid, or a job is started (and the shell waits for it or not),
  or the shell exits.
\<close>

datatype outcome = Invalid_Input | Started bool "job res" | Shell_Exits int

text \<open>
  The process that handles the job: it interprets the tree and frees what the shell had
  allocated, in its own copy of the heap, before it exits.
\<close>

definition job_process :: "world \<Rightarrow> nat \<Rightarrow> nat \<Rightarrow> nat \<Rightarrow> (nat \<times> Simple_List) option \<Rightarrow> fdtable \<Rightarrow> heap \<Rightarrow> job res" where
  "job_process w n strings input simple_list t h =
     (let child_pid = safelyFork (my_pid (shell_env w)) 0 (prctl_ret (shell_env w) n) (parent_of (shell_env w) n);
          (exitStatus, t1, children) =
            (if child_pid < 0 then (EXIT_FAILURE, t, [])
             else interpretSimpleList (job_env w n) h simple_list t)
      in bind_res (freeSimpleList simple_list h) (\<lambda>h1.
         bind_res (mfree (Some strings) h1) (\<lambda>h2.
         bind_res (mfree (Some input) h2) (\<lambda>h3. Inr (exitStatus, t1, children)))))"

definition interpretInput :: "world \<Rightarrow> nat \<Rightarrow> nat \<Rightarrow> nat \<Rightarrow> string list \<Rightarrow> fdtable \<Rightarrow> heap
    \<Rightarrow> (outcome \<times> heap) res" where
  "interpretInput w n strings input sentence t h =
     (case makeNewSimpleList h of (simple_list, h1) \<Rightarrow>
      bind_res (parseInput sentence simple_list h1) (\<lambda>(isValidInput, l, h2).
        if \<not> isValidInput then bind_res (freeSimpleList l h2) (\<lambda>h3. Inr (Invalid_Input, h3))
        else if safelyFork (my_pid (shell_env w)) (fork_ret (shell_env w) n)
                  (prctl_ret (shell_env w) n) (parent_of (shell_env w) n) < 0
        then bind_res (freeSimpleList l h2) (\<lambda>h3.
             bind_res (mfree (Some strings) h3) (\<lambda>h4.
             bind_res (mfree (Some input) h4) (\<lambda>h5. Inr (Shell_Exits EXIT_FAILURE, h5))))
        else (case l of
                None \<Rightarrow> Inl Null_Deref
              | Some (a, sl) \<Rightarrow>
                  Inr (Started (hasDaemonAmpersand sl = 0) (job_process w n strings input l t h2), h2))))"

definition stringIsExitKeyword :: "string option \<Rightarrow> bool" where
  "stringIsExitKeyword s =
     (case s of None \<Rightarrow> False
      | Some k \<Rightarrow> strcmp_eq k ''exit'' \<or> strcmp_eq k ''quit'' \<or> strcmp_eq k ''q'')"

text \<open>The i-th entry of the array of strings, NULL after the last one.\<close>

definition strings_at :: "string list \<Rightarrow> nat \<Rightarrow> string option" where
  "strings_at ss i = (if i < length ss then Some (ss ! i) else None)"

text \<open>The characters of a block, up to the first byte that holds none.\<close>

definition chars_of :: "nat option memval list \<Rightarrow> string" where
  "chars_of bytes = map (\<lambda>b. case b of Byte c \<Rightarrow> c | _ \<Rightarrow> NUL) (takeWhile (\<lambda>b. \<exists>c. b = Byte c) bytes)"

datatype turn = Ends int | Goes_on outcome

definition shell_turn :: "world \<Rightarrow> nat \<Rightarrow> string \<Rightarrow> fdtable \<Rightarrow> heap \<Rightarrow> (turn \<times> string \<times> heap) res option" where
  "shell_turn w n stream t h =
     (case readInput stream h of
        None \<Rightarrow> None
      | Some r \<Rightarrow> Some (bind_res r (\<lambda>(inp, s1, h1).
          case inp of
            None \<Rightarrow> Inr (Ends EXIT_FAILURE, s1, h1)
          | Some (input, bytes) \<Rightarrow>
              bind_res (tokenise (chars_of bytes) h1) (\<lambda>(toks, buf, h2).
                case toks of
                  None \<Rightarrow> bind_res (mfree (Some input) h2) (\<lambda>h3. Inr (Ends EXIT_FAILURE, s1, h3))
                | Some (strings, tbytes) \<Rightarrow>
                    bind_res (strings_of buf tbytes) (\<lambda>sentence.
                      if stringIsExitKeyword (strings_at sentence 0) \<and> strings_at sentence 1 = None
                      then bind_res (mfree (Some strings) h2) (\<lambda>h3.
                           bind_res (mfree (Some input) h3) (\<lambda>h4. Inr (Ends 0, s1, h4)))
                      else bind_res (interpretInput w n strings input sentence t h2) (\<lambda>(out, h3).
                           case out of
                             Shell_Exits k \<Rightarrow> Inr (Ends k, s1, h3)
                           | _ \<Rightarrow> bind_res (mfree (Some strings) h3) (\<lambda>h4.
                                  bind_res (mfree (Some input) h4) (\<lambda>h5. Inr (Goes_on out, s1, h5))))))))) "

partial_function (option) shell_main :: "world \<Rightarrow> nat \<Rightarrow> string \<Rightarrow> fdtable \<Rightarrow> heap
    \<Rightarrow> (int \<times> outcome list \<times> heap) res option" where
  "shell_main w n stream t h =
     (case shell_turn w n stream t h of
        None \<Rightarrow> None
      | Some (Inl u) \<Rightarrow> Some (Inl u)
      | Some (Inr (Ends k, s1, h1)) \<Rightarrow> Some (Inr (k, [], h1))
      | Some (Inr (Goes_on out, s1, h1)) \<Rightarrow>
          Option.bind (shell_main w (Suc n) s1 t h1) (\<lambda>r.
            Some (bind_res r (\<lambda>(k, outs, h2). Inr (k, out # outs, h2)))))"

declare shell_main.simps [code]

section \<open>One turn\<close>

lemma chars_of_prefix: "take (Suc (length l)) bytes = map Byte (l @ [NUL]) \<Longrightarrow> \<exists>junk. chars_of bytes = l @ NUL # junk"
proof -
  assume t: "take (Suc (length l)) bytes = map Byte (l @ [NUL])"
  then obtain rest where "bytes = map Byte (l @ [NUL]) @ rest" by (metis append_take_drop_id)
  then show ?thesis by (simp add: chars_of_def takeWhile_append comp_def)
qed

definition exit_line :: "string list \<Rightarrow> bool" where
  "exit_line ws \<longleftrightarrow> ws = [''exit''] \<or> ws = [''quit''] \<or> ws = [''q'']"

lemma exit_line_test:
  assumes "list_all c_string ws"
  shows "stringIsExitKeyword (strings_at ws 0) \<and> strings_at ws 1 = None \<longleftrightarrow> exit_line ws"
proof -
  have "c_string ''exit''" "c_string ''quit''" "c_string ''q''" by (simp_all add: NUL_def)
  then show ?thesis
    using assms
    by (cases ws rule: remdups_adj.cases)
      (auto simp: stringIsExitKeyword_def strings_at_def exit_line_def)
qed

lemma split_words_c_string: "c_string s \<Longrightarrow> list_all c_string (split_words s)"
proof (induction "length s" arbitrary: s rule: less_induct)
  case less
  show ?case
  proof (cases s rule: words_cases)
    case (word sp w r s1)
    then have "c_string w" "c_string s1"
      using less.prems by (auto simp: c_string_def dest: list.set_sel(2) split: if_splits)
    then show ?thesis using less.hyps [OF word(8)] word(7) by simp
  qed simp
qed

text \<open>What a turn finds after reading and splitting: the words of the line, and two new blocks.\<close>

lemma turn_reads:
  assumes "generous h" "heap_ok h" "read_line s = Some (l, rest)" "c_string l" "length l < 2 ^ 57"
  obtains input bytes h1 strings tbytes buf h2 where
    "readInput s h = Some (Inr (Some (input, bytes), rest, h1))"
    "tokenise (chars_of bytes) h1 = Inr (Some (strings, tbytes), buf, h2)"
    "strings_of buf tbytes = Inr (split_words l)"
    "live h2 = {strings, input} \<union> live h" "input \<notin> live h" "strings \<notin> live h" "strings \<noteq> input"
    "heap_ok h2" "generous h2" "\<exists>junk. chars_of bytes = l @ NUL # junk"
proof -
  obtain input bytes h1 where r: "readInput s h = Some (Inr (Some (input, bytes), rest, h1))"
    "take (Suc (length l)) bytes = map Byte (l @ [NUL])" "live h1 = insert input (live h)" "input \<notin> live h"
    "heap_ok h1" "generous h1"
    using readInput_stores [OF assms(1-3)] assms(5) by auto
  obtain junk where "chars_of bytes = l @ NUL # junk" using chars_of_prefix [OF r(2)] by blast
  moreover obtain strings tbytes buf h2 where "tokenise (l @ NUL # junk) h1 = Inr (Some (strings, tbytes), buf, h2)"
    "strings_of buf tbytes = Inr (split_words l)" "live h2 = insert strings (live h1)" "strings \<notin> live h1"
    "heap_ok h2" "generous h2"
    using tokenise_words [OF r(6,5) assms(4,5)] by blast
  ultimately show thesis using that r by auto
qed

text \<open>The parse of a turn.\<close>

lemma turn_parses:
  assumes "generous h" "heap_ok h" "list_all c_string ts"
  obtains p t h1 b l h2 where "makeNewSimpleList h = (Some (p, t), h1)"
    "parseInput ts (Some (p, t)) h1 = Inr (b, l, h2)" "b \<Longrightarrow> \<exists>q sl. l = Some (q, sl)"
    "\<And>cs background. b \<and> abs_list l = Some (cs, background) \<longleftrightarrow> wf_pipeline cs \<and> ts = write_list cs background"
    "b \<Longrightarrow> abs_list l \<noteq> None"
    "own_rel {} h (set (list_blocks l)) h2" "sound (list_blocks l) h2" "heap_ok h2" "generous h2"
proof -
  obtain p t h1 where mk: "makeNewSimpleList h = (Some (p, t), h1)" "empty_list_tree t" "heap_ok h1"
    "generous h1" "sound (list_blocks (Some (p, t))) h1"
    using makeNewSimpleList_generous [OF assms(1,2)] .
  obtain b l h2 where run: "parseInput ts (Some (p, t)) h1 = Inr (b, l, h2)"
    "case read_list ts of None \<Rightarrow> \<not> b | Some r \<Rightarrow> b \<and> abs_list l = Some r"
    using parseInput_correct [OF mk(4,3,2,5), of ts] by blast
  have o: "own_rel {} h (set (list_blocks l)) h2"
    using makeNewSimpleList_own(1) [OF mk(1) assms(2)] parseInput_own(1) [OF run(1) mk(3,2,5)]
    by (rule own_rel_trans)
  have s: "sound (list_blocks l) h2"
    using parseInput_own(2) [OF run(1) mk(3,2,5)] own_rel_live [OF o] by (simp add: sound_def)
  have "b \<Longrightarrow> abs_list l \<noteq> None" using run(2) by (auto split: option.splits)
  moreover from this have "b \<Longrightarrow> \<exists>q sl. l = Some (q, sl)" by (cases l) (auto simp: abs_list_def)
  moreover have "b \<and> abs_list l = Some (cs, background) \<longleftrightarrow> wf_pipeline cs \<and> ts = write_list cs background"
    for cs background
    using run(2) read_list_iff [OF assms(3), of cs background] by (auto split: option.splits)
  ultimately show thesis
    using that mk(1) run(1) o s own_rel_ok [OF o assms(2)] own_rel_generous [OF o] assms(1) by blast
qed

text \<open>
  A whole turn on a line that does not end the shell: a line that writes a pipeline starts its
  job and leaves the blocks of the tree behind; any other line leaves the heap as it was.
\<close>

definition smooth_shell :: "world \<Rightarrow> bool" where
  "smooth_shell w \<longleftrightarrow> smooth (shell_env w)"

lemma job_process_run:
  assumes "smooth_shell w" "sound (list_blocks l) h" "strings \<in> live h" "input \<in> live h" "strings \<noteq> input"
    "{strings, input} \<inter> set (list_blocks l) = {}"
  shows "job_process w n strings input l t h = Inr (interpretSimpleList (job_env w n) h l t)"
  using assms safelyFork_child [of "shell_env w" n] freeSimpleList_sound [OF assms(2)]
  by (auto simp: job_process_def smooth_shell_def mfree_def release_def split: prod.splits)

lemma turn_interprets:
  assumes w: "smooth_shell w" and h: "generous h" "heap_ok h" and ts: "list_all c_string ts"
    and blocks: "strings \<in> live h" "input \<in> live h" "strings \<noteq> input"
  obtains (bad) h2 where "\<not> (\<exists>cs background. wf_pipeline cs \<and> ts = write_list cs background)"
      "interpretInput w n strings input ts t h = Inr (Invalid_Input, h2)" "live h2 = live h" "heap_ok h2" "generous h2"
  | (good) cs background q sl h2 where "wf_pipeline cs" "ts = write_list cs background"
      "abs_list (Some (q, sl)) = Some (cs, background)"
      "interpretInput w n strings input ts t h =
         Inr (Started (\<not> background) (Inr (interpretSimpleList (job_env w n) h2 (Some (q, sl)) t)), h2)"
      "live h2 = set (list_blocks (Some (q, sl))) \<union> live h" "set (list_blocks (Some (q, sl))) \<inter> live h = {}"
      "distinct (list_blocks (Some (q, sl)))" "heap_ok h2" "generous h2"
proof -
  obtain p t0 h1 b l h2 where mk: "makeNewSimpleList h = (Some (p, t0), h1)"
    "parseInput ts (Some (p, t0)) h1 = Inr (b, l, h2)" "b \<Longrightarrow> \<exists>q sl. l = Some (q, sl)"
    "\<And>cs background. b \<and> abs_list l = Some (cs, background) \<longleftrightarrow> wf_pipeline cs \<and> ts = write_list cs background"
    "b \<Longrightarrow> abs_list l \<noteq> None"
    "own_rel {} h (set (list_blocks l)) h2" "sound (list_blocks l) h2" "heap_ok h2" "generous h2"
    by (rule turn_parses [OF h ts]) blast
  have live2: "live h2 = set (list_blocks l) \<union> live h" "set (list_blocks l) \<inter> live h = {}"
    using own_rel_exact [OF mk(6) h(1)] own_rel_live [OF mk(6)] by auto
  show thesis
  proof (cases b)
    case False
    then have "interpretInput w n strings input ts t h = Inr (Invalid_Input, release (list_blocks l) h2)"
      using mk(1,2) freeSimpleList_sound [OF mk(7)] by (simp add: interpretInput_def)
    moreover have "live (release (list_blocks l) h2) = live h" using live2 by auto
    moreover have "heap_ok (release (list_blocks l) h2)" "generous (release (list_blocks l) h2)"
      using mk(8,9) by (simp_all add: release_def generous_def)
    ultimately show thesis using bad mk(4) False by blast
  next
    case True
    then obtain q sl where l: "l = Some (q, sl)" using mk(3) by blast
    obtain cs background where r: "abs_list l = Some (cs, background)" using mk(5) True by (cases "abs_list l") auto
    have ws: "wf_pipeline cs" "ts = write_list cs background" using mk(4) True r by blast+
    have bg: "hasDaemonAmpersand sl = 0 \<longleftrightarrow> \<not> background" using r l by (auto simp: abs_list_def)
    have "\<not> safelyFork (my_pid (shell_env w)) (fork_ret (shell_env w) n) (prctl_ret (shell_env w) n)
        (parent_of (shell_env w) n) < 0"
      using w safelyFork_parent by (simp add: smooth_shell_def)
    moreover have "job_process w n strings input l t h2 = Inr (interpretSimpleList (job_env w n) h2 l t)"
      by (rule job_process_run [OF w mk(7)]) (use blocks live2 in auto)
    ultimately have "interpretInput w n strings input ts t h =
        Inr (Started (\<not> background) (Inr (interpretSimpleList (job_env w n) h2 (Some (q, sl)) t)), h2)"
      using mk(1,2) True l bg by (simp add: interpretInput_def)
    then show thesis using good ws r l live2 mk(7,8,9) by (auto simp: sound_def)
  qed
qed

lemma shell_turn_cases:
  assumes w: "smooth_shell w" and h: "generous h" "heap_ok h" and l: "read_line s = Some (l, rest)" "c_string l"
    "length l < 2 ^ 57"
  obtains (ends) h' where "exit_line (split_words l)" "shell_turn w n s t h = Some (Inr (Ends 0, rest, h'))"
      "live h' = live h"
  | (invalid) h' where "\<not> exit_line (split_words l)"
      "\<not> (\<exists>cs background. wf_pipeline cs \<and> split_words l = write_list cs background)"
      "shell_turn w n s t h = Some (Inr (Goes_on Invalid_Input, rest, h'))" "live h' = live h" "heap_ok h'" "generous h'"
  | (started) cs background q sl hj h' where "\<not> exit_line (split_words l)" "wf_pipeline cs"
      "split_words l = write_list cs background" "abs_list (Some (q, sl)) = Some (cs, background)"
      "shell_turn w n s t h = Some (Inr (Goes_on (Started (\<not> background)
         (Inr (interpretSimpleList (job_env w n) hj (Some (q, sl)) t))), rest, h'))"
      "live h' = set (list_blocks (Some (q, sl))) \<union> live h" "set (list_blocks (Some (q, sl))) \<inter> live h = {}"
      "distinct (list_blocks (Some (q, sl)))" "heap_ok h'" "generous h'" "heap_ok hj" "generous hj"
proof -
  obtain input bytes h1 strings tbytes buf h2 where r:
    "readInput s h = Some (Inr (Some (input, bytes), rest, h1))"
    "tokenise (chars_of bytes) h1 = Inr (Some (strings, tbytes), buf, h2)"
    "strings_of buf tbytes = Inr (split_words l)"
    "live h2 = {strings, input} \<union> live h" "input \<notin> live h" "strings \<notin> live h" "strings \<noteq> input"
    "heap_ok h2" "generous h2"
    by (rule turn_reads [OF h l])
  let ?ts = "split_words l"
  have c: "list_all c_string ?ts" using split_words_c_string l(2) by blast
  note exits = exit_line_test [OF c]
  have free: "\<exists>h'. bind_res (mfree (Some strings) g) (\<lambda>h4. bind_res (mfree (Some input) h4) (\<lambda>h5. Inr (x h5))) = Inr (x h') \<and>
      live h' = live g - {strings, input} \<and> (heap_ok g \<longrightarrow> heap_ok h') \<and> (generous g \<longrightarrow> generous h')"
    if "{strings, input} \<subseteq> live g" for g :: heap and x :: "heap \<Rightarrow> turn \<times> string \<times> heap"
    using that r(7) by (auto simp: mfree_def heap_ok_def generous_def)
  have same: "live h2 - {strings, input} = live h" using r(4-6) by auto
  show thesis
  proof (cases "exit_line ?ts")
    case True
    obtain h' where h': "bind_res (mfree (Some strings) h2) (\<lambda>h4. bind_res (mfree (Some input) h4)
        (\<lambda>h5. Inr (Ends 0, rest, h5))) = Inr (Ends 0, rest, h')" "live h' = live h"
      using free [of h2 "\<lambda>h. (Ends 0, rest, h)"] r(4) same by auto
    show thesis by (rule ends [OF True _ h'(2)]) (use r(1-3) exits True h'(1) in \<open>simp add: shell_turn_def\<close>)
  next
    case False
    have blocks: "strings \<in> live h2" "input \<in> live h2" using r(4) by auto
    show thesis
      using w r(9,8) c blocks r(7)
    proof (cases rule: turn_interprets [where n = n and t = t])
      case (bad h3)
      obtain h' where h': "bind_res (mfree (Some strings) h3) (\<lambda>h4. bind_res (mfree (Some input) h4)
          (\<lambda>h5. Inr (Goes_on Invalid_Input, rest, h5))) = Inr (Goes_on Invalid_Input, rest, h')"
        "live h' = live h" "heap_ok h'" "generous h'"
        using free [of h3 "\<lambda>h. (Goes_on Invalid_Input, rest, h)"] bad(3-5) r(4) same by auto
      show thesis
        by (rule invalid [OF False bad(1) _ h'(2-4)])
          (use r(1-3) exits False bad(2) h'(1) in \<open>auto simp: shell_turn_def\<close>)
    next
      case (good cs background q sl h3)
      let ?out = "Started (\<not> background) (Inr (interpretSimpleList (job_env w n) h3 (Some (q, sl)) t))"
      obtain h' where h': "bind_res (mfree (Some strings) h3) (\<lambda>h4. bind_res (mfree (Some input) h4)
          (\<lambda>h5. Inr (Goes_on ?out, rest, h5))) = Inr (Goes_on ?out, rest, h')"
        "live h' = live h3 - {strings, input}" "heap_ok h'" "generous h'"
        using free [of h3 "\<lambda>h. (Goes_on ?out, rest, h)"] good(5,8,9) blocks by auto
      have live': "live h' = set (list_blocks (Some (q, sl))) \<union> live h"
        "set (list_blocks (Some (q, sl))) \<inter> live h = {}"
        using h'(2) good(5,6) r(4-6) by auto
      show thesis
        by (rule started [OF False good(1-3) _ live' good(7) h'(3,4) good(8,9)])
          (use r(1-3) exits False good(4) h'(1) in \<open>auto simp: shell_turn_def\<close>)
    qed
  qed
qed

section \<open>The whole run\<close>

lemma read_line_facts:
  "read_line s = Some (l, rest) \<Longrightarrow>
     length rest < length s \<and> length l \<le> 2 * length s \<and> set l \<subseteq> set s \<and> set rest \<subseteq> set s"
proof (induction s arbitrary: l rule: read_line.induct)
  case (2 c s)
  consider (line_end) "c = CHR 0x0A" | (backslash) "c = CHR 0x5C" | (plain) "c \<noteq> CHR 0x0A" "c \<noteq> CHR 0x5C" by blast
  then show ?case
  proof cases
    case line_end
    then show ?thesis using 2(3) by auto
  next
    case plain
    then obtain l2 where l2: "read_line s = Some (l2, rest)" "l = c # l2" using 2(3) by auto
    then show ?thesis using 2(2) [OF plain l2(1)] by auto
  next
    case backslash
    then obtain c2 s2 l2 where s: "s = c2 # s2" "read_line s2 = Some (l2, rest)"
      "l = (if c2 = CHR 0x0A then [] else [c, c2, c]) @ l2" using 2(3) by (auto split: list.splits)
    have "c \<noteq> CHR 0x0A" using backslash by simp
    from 2(1) [OF this backslash s(1,2)] show ?thesis using s(1,3) by auto
  qed
qed simp

text \<open>
  The lines the shell reads before the one that makes it exit; \<open>None\<close> when there is no such line.
\<close>

function exit_script :: "string \<Rightarrow> string list option" where
  "exit_script s =
     (case read_line s of None \<Rightarrow> None
      | Some (l, rest) \<Rightarrow> if exit_line (split_words l) then Some [] else map_option (Cons l) (exit_script rest))"
  by pat_completeness auto
termination
  by (relation "measure length") (auto dest: read_line_facts)

declare exit_script.simps [simp del]

text \<open>
  What the shell makes of a line: it starts a job exactly when the words write a pipeline, and waits
  for it unless they end with an ampersand.
\<close>

definition handles :: "string \<Rightarrow> outcome \<Rightarrow> bool" where
  "handles l out \<longleftrightarrow>
     (if \<exists>cs background. wf_pipeline cs \<and> split_words l = write_list cs background
      then \<exists>cs background job. wf_pipeline cs \<and> split_words l = write_list cs background \<and>
             out = Started (\<not> background) (Inr job)
      else out = Invalid_Input)"

text \<open>An input of the length the shell can hold, without NUL characters.\<close>

definition plain_input :: "string \<Rightarrow> bool" where
  "plain_input s \<longleftrightarrow> c_string s \<and> length s < 2 ^ 56"

lemma plain_input_line:
  assumes "plain_input s" "read_line s = Some (l, rest)"
  shows "c_string l" "length l < 2 ^ 57" "plain_input rest" "length rest < length s"
  using assms read_line_facts [OF assms(2)] by (auto simp: plain_input_def c_string_def)

lemma shell_main_Goes_on:
  assumes "shell_turn w n s t h = Some (Inr (Goes_on out, rest, h1))"
    "shell_main w (Suc n) rest t h1 = Some (Inr (k, outs, h2))"
  shows "shell_main w n s t h = Some (Inr (k, out # outs, h2))"
  by (subst shell_main.simps) (simp add: assms)

lemma shell_main_runs:
  assumes "smooth_shell w" "generous h" "heap_ok h" "plain_input s" "exit_script s = Some ls"
  shows "\<exists>outs h'. shell_main w n s t h = Some (Inr (0, outs, h')) \<and> list_all2 handles ls outs"
  using assms
proof (induction "length s" arbitrary: s n h ls rule: less_induct)
  case less
  note w = less.prems(1) note h = less.prems(2,3)
  obtain l rest where l: "read_line s = Some (l, rest)"
    using less.prems(5) by (subst (asm) exit_script.simps) (auto split: option.splits)
  note line = plain_input_line [OF less.prems(4) l]
  have script: "\<not> exit_line (split_words l) \<Longrightarrow> \<exists>ls'. ls = l # ls' \<and> exit_script rest = Some ls'"
    "exit_line (split_words l) \<Longrightarrow> ls = []"
    using less.prems(5) l by (subst (asm) exit_script.simps, auto)+
  show ?case
    using w h l line(1,2)
  proof (cases rule: shell_turn_cases [where n = n and t = t])
    case (ends h')
    have "shell_main w n s t h = Some (Inr (0, [], h'))" by (subst shell_main.simps) (simp add: ends(2))
    then show ?thesis using script(2) ends(1) by auto
  next
    case (invalid h')
    obtain ls' where ls: "ls = l # ls'" "exit_script rest = Some ls'" using script(1) invalid(1) by blast
    obtain outs h2 where "shell_main w (Suc n) rest t h' = Some (Inr (0, outs, h2))" "list_all2 handles ls' outs"
      using less.hyps [OF line(4) w invalid(6,5) line(3) ls(2)] by blast
    moreover have "handles l Invalid_Input" using invalid(2) by (auto simp: handles_def)
    ultimately show ?thesis using shell_main_Goes_on [OF invalid(3)] ls(1) by auto
  next
    case (started cs background q sl hj h')
    obtain ls' where ls: "ls = l # ls'" "exit_script rest = Some ls'" using script(1) started(1) by blast
    obtain outs h2 where "shell_main w (Suc n) rest t h' = Some (Inr (0, outs, h2))" "list_all2 handles ls' outs"
      using less.hyps [OF line(4) w started(10,9) line(3) ls(2)] by blast
    moreover have "handles l (Started (\<not> background) (Inr (interpretSimpleList (job_env w n) hj (Some (q, sl)) t)))"
      using started(2,3) unfolding handles_def by metis
    ultimately show ?thesis using shell_main_Goes_on [OF started(5)] ls(1) by fastforce
  qed
qed

lemma shell_turn_no_line:
  assumes "generous h" "heap_ok h" "read_line s = None"
  shows "shell_turn w n s t h = None"
proof (cases "readInput s h")
  case (Some r)
  show ?thesis
    using assms(2)
  proof (cases rule: char_array_made)
    case (none h')
    then show ?thesis using assms(1) by blast
  next
    case (made arr h')
    then obtain r' where "readInput_loop s arr h' = Some r'"
      using Some by (auto simp: readInput_def split: option.splits)
    from readInput_loop_returns [OF this made(2)] assms(3) show ?thesis by simp
  qed
qed (simp add: shell_turn_def)

lemma shell_main_stuck:
  assumes "smooth_shell w" "generous h" "heap_ok h" "plain_input s" "exit_script s = None"
  shows "shell_main w n s t h = None"
  using assms
proof (induction "length s" arbitrary: s n h rule: less_induct)
  case less
  note w = less.prems(1) note h = less.prems(2,3)
  show ?case
  proof (cases "read_line s")
    case None
    from shell_turn_no_line [OF h this] show ?thesis by (subst shell_main.simps) simp
  next
    case (Some p)
    then obtain l rest where l: "read_line s = Some (l, rest)" by (cases p) auto
    note line = plain_input_line [OF less.prems(4) l]
    have script: "\<not> exit_line (split_words l)" "exit_script rest = None"
      using less.prems(5) l by (subst (asm) exit_script.simps, auto split: if_splits)+
    show ?thesis
      using w h l line(1,2)
    proof (cases rule: shell_turn_cases [where n = n and t = t])
      case (ends h')
      then show ?thesis using script(1) by blast
    next
      case (invalid h')
      show ?thesis
        using less.hyps [OF line(4) w invalid(6,5) line(3) script(2)]
        by (subst shell_main.simps) (simp add: invalid(3))
    next
      case (started cs background q sl hj h')
      show ?thesis
        using less.hyps [OF line(4) w started(10,9) line(3) script(2)]
        by (subst shell_main.simps) (simp add: started(5))
    qed
  qed
qed

section \<open>What a job leaves behind\<close>

lemma tree_blocks:
  assumes "abs_list (Some (q, sl)) = Some (cs, background)" "wf_pipeline cs"
  shows "3 \<le> length (list_blocks (Some (q, sl)))"
proof -
  let ?l = "simple_command_list (pipeline sl)"
  have a: "abs_pipeline ?l = Some cs" using assms(1) by (auto simp: abs_list_def)
  obtain c cs' where cs: "cs = c # cs'" "wf_command c" using assms(2) by (cases cs) (auto simp: wf_pipeline_def)
  obtain p n l where l: "?l = (p, n) # l" using a cs(1) by (cases ?l) auto
  then have "abs_command (element_list n) = Some c" using a cs(1) by (auto split: option.splits)
  moreover have "c \<noteq> []" using cs(2) by auto
  ultimately obtain r e es where "element_list n = (r, e) # es" by (cases "element_list n") auto
  then show ?thesis using l by simp
qed

section \<open>Properties\<close>


definition calm_world :: world where
  "calm_world = \<lparr>shell_env = calm_env, job_env = (\<lambda>n. calm_env)\<rparr>"

lemma smooth_calm_world [simp]: "smooth_shell calm_world" "smooth (job_env calm_world n)"
  by (simp_all add: calm_world_def smooth_shell_def)

lemma calm_world_ok [simp]:
  "files_ok (job_env calm_world n) c" "exec_ok (job_env calm_world n) p"
  by (simp_all add: calm_world_def calm_env_def files_ok_def)

lemma ls_wc: "split_words ''ls | wc'' = write_list [[Word ''ls''], [Word ''wc'']] False"
  by (simp add: split_words.simps write_list_def)


text \<open>
  Memory over a turn: a turn that starts a job loses the tree of the line, at least three
  blocks that are live from then on and that nothing points to; every other turn, be it an
  invalid line or the end of the shell, leaves the heap exactly as it was.
\<close>

theorem started_job_leaks_tree:
  assumes "smooth_shell w" "generous h" "heap_ok h" "read_line s = Some (l, rest)" "c_string l" "length l < 2 ^ 57"
    "shell_turn w n s t h = Some (Inr (r, rest', h'))"
  shows "if \<exists>wait job. r = Goes_on (Started wait job)
         then live h \<subseteq> live h' \<and> 3 \<le> card (live h' - live h) else live h' = live h"
  using assms(1-6)
proof (cases rule: shell_turn_cases [where n = n and t = t])
  case (started cs background q sl hj h2)
  have "live h' - live h = set (list_blocks (Some (q, sl)))" using started(5-7) assms(7) by auto
  moreover have "card (set (list_blocks (Some (q, sl)))) = length (list_blocks (Some (q, sl)))"
    using started(8) by (rule distinct_card)
  ultimately show ?thesis using tree_blocks [OF started(4,2)] started(5,6) assms(7) by auto
qed (use assms(7) in auto)

theorem started_job_leaks_tree_witness:
  "\<exists>r rest h'. shell_turn calm_world 0 (''ls | wc'' @ [CHR 0x0A]) (std_table 16) (new_heap (\<lambda>k n. True)) =
       Some (Inr (r, rest, h')) \<and> 3 \<le> card (live h')"
proof -
  have r: "read_line (''ls | wc'' @ [CHR 0x0A]) = Some (''ls | wc'', [])" by simp
  have c: "c_string ''ls | wc''" "length ''ls | wc'' < 2 ^ 57" by (simp_all add: NUL_def)
  have wf: "wf_pipeline [[Word ''ls''], [Word ''wc'']]" by (simp add: wf_pipeline_def word_chars_eval cstr_def NUL_def)
  have e: "\<not> exit_line (split_words ''ls | wc'')" by (simp add: ls_wc exit_line_def write_list_def)
  obtain wait job h' where t: "shell_turn calm_world 0 (''ls | wc'' @ [CHR 0x0A]) (std_table 16) (new_heap (\<lambda>k n. True)) =
      Some (Inr (Goes_on (Started wait job), [], h'))"
    using smooth_calm_world(1) generous_new heap_ok_new r c
  proof (cases rule: shell_turn_cases [where n = 0 and t = "std_table 16"])
    case (invalid h')
    then show thesis using wf ls_wc by blast
  qed (use e in blast)+
  from started_job_leaks_tree [OF smooth_calm_world(1) generous_new heap_ok_new r c t] t show ?thesis by auto
qed

text \<open>
  C3. The shell serves its input. On an input that has a line \<open>exit\<close>, \<open>quit\<close> or \<open>q\<close>, with memory
  granted and no fork failing, \<open>main\<close> returns, with 0; before that it has handled every line in
  order, starting a job for exactly the lines that write a pipeline, to wait for it unless the line
  ends with an ampersand, and rejecting the others. It
  runs into no undefined behaviour, whatever the lines and whatever the jobs do.
\<close>

theorem shell_serves_input:
  assumes "smooth_shell w" "generous h" "heap_ok h" "plain_input s" "exit_script s = Some ls"
  shows "\<exists>outs h'. shell_main w n s t h = Some (Inr (0, outs, h')) \<and> list_all2 handles ls outs"
  using assms by (rule shell_main_runs)

theorem shell_serves_input_witness:
  "\<exists>outs h'. shell_main calm_world 0 ([CHR ''<'', CHR 0x0A] @ ''exit'' @ [CHR 0x0A]) (std_table 16)
       (new_heap (\<lambda>k n. True)) = Some (Inr (0, outs, h')) \<and> list_all2 handles [''<''] outs"
proof -
  have s: "split_words ''exit'' = [''exit'']" "split_words ''<'' = [''<'']" by (simp_all add: split_words.simps)
  have "exit_script ([CHR ''<'', CHR 0x0A] @ ''exit'' @ [CHR 0x0A]) = Some [''<'']"
    by (subst exit_script.simps, simp add: s exit_line_def, subst exit_script.simps) (simp add: s exit_line_def)
  moreover have "plain_input ([CHR ''<'', CHR 0x0A] @ ''exit'' @ [CHR 0x0A])" by (simp add: plain_input_def NUL_def)
  ultimately show ?thesis using shell_serves_input [OF smooth_calm_world(1) generous_new heap_ok_new] by blast
qed

text \<open>
  C40. The shell never notices the end of its input: on an input without a line that makes it
  exit, with memory granted and no fork of the shell failing, \<open>main\<close> does not return, whatever its
  jobs do.
\<close>

theorem shell_hangs_at_eof:
  assumes "smooth_shell w" "generous h" "heap_ok h" "plain_input s" "exit_script s = None"
  shows "shell_main w n s t h = None"
  using assms by (rule shell_main_stuck)

theorem shell_hangs_at_eof_witness:
  "shell_main calm_world 0 ''exit'' (std_table 16) (new_heap (\<lambda>k n. True)) = None"
  by (rule shell_hangs_at_eof)
    (simp_all add: exit_script.simps [of "''exit''"] plain_input_def NUL_def)

end
