(* ===== verification/Runs.thy ===== *)
theory Runs
  imports Main
begin

text \<open>
  Runs of concurrent programs. A program is a step relation on states; \<open>progressing\<close> is the
  contract of a program whose processes pass a token on: an invariant that knows how many steps
  have been made, a bound of that number, and a final state as the only one that cannot go on.
  A client gets from it that every run is finite, reaches the final state when it is not cut off,
  and that some run does.
\<close>

inductive run :: "('s \<Rightarrow> 's \<Rightarrow> bool) \<Rightarrow> nat \<Rightarrow> 's \<Rightarrow> 's \<Rightarrow> bool" for step where
  run_refl [intro]: "run step 0 s s"
| run_step: "run step m s s1 \<Longrightarrow> step s1 s2 \<Longrightarrow> run step (Suc m) s s2"

inductive_cases run_SucE: "run step (Suc m) s s'"
inductive_cases run_0E: "run step 0 s s'"

lemma run_first: "step s s1 \<Longrightarrow> run step m s1 s2 \<Longrightarrow> run step (Suc m) s s2"
  by (rotate_tac, induction rule: run.induct) (auto intro: run.intros)

definition stuck :: "('s \<Rightarrow> 's \<Rightarrow> bool) \<Rightarrow> 's \<Rightarrow> bool" where
  "stuck step s \<longleftrightarrow> (\<forall>s'. \<not> step s s')"

locale progressing =
  fixes step :: "'s \<Rightarrow> 's \<Rightarrow> bool"
    and inv :: "nat \<Rightarrow> 's \<Rightarrow> bool"
    and final :: "'s \<Rightarrow> bool"
    and bound :: nat
  assumes step_inv: "inv k s \<Longrightarrow> step s s' \<Longrightarrow> inv (Suc k) s'"
    and inv_bound: "inv k s \<Longrightarrow> k \<le> bound"
    and goes_on: "inv k s \<Longrightarrow> \<not> final s \<Longrightarrow> \<exists>s'. step s s'"
    and final_bound: "inv k s \<Longrightarrow> final s \<Longrightarrow> k = bound"
begin

lemma run_inv: "run step m s s' \<Longrightarrow> inv k s \<Longrightarrow> inv (k + m) s'"
  by (induction rule: run.induct) (auto intro: step_inv)

lemma run_bound: "run step m s s' \<Longrightarrow> inv k s \<Longrightarrow> k + m \<le> bound"
  using run_inv inv_bound by blast

lemma final_stuck: "inv k s \<Longrightarrow> final s \<Longrightarrow> stuck step s"
  unfolding stuck_def using final_bound step_inv inv_bound by fastforce

lemma stuck_final: "inv k s \<Longrightarrow> stuck step s \<longleftrightarrow> final s"
  using final_stuck goes_on unfolding stuck_def by blast

lemma stuck_run: "run step m s s' \<Longrightarrow> inv k s \<Longrightarrow> stuck step s' \<Longrightarrow> final s' \<and> k + m = bound"
  using run_inv stuck_final final_bound by metis

lemma run_completes: "inv k s \<Longrightarrow> \<exists>s'. run step (bound - k) s s' \<and> final s'"
proof (induction "bound - k" arbitrary: k s)
  case 0
  show ?case
  proof (cases "final s")
    case True
    then show ?thesis using 0 by auto
  next
    case False
    then obtain s' where "step s s'" using goes_on 0 by blast
    then have "Suc k \<le> bound" using step_inv 0 inv_bound by blast
    then show ?thesis using 0 by simp
  qed
next
  case (Suc x)
  then have "\<not> final s" using final_bound by fastforce
  then obtain s1 where s1: "step s s1" using goes_on Suc by blast
  then have "inv (Suc k) s1" using step_inv Suc by blast
  moreover have "x = bound - Suc k" using Suc(2) by simp
  ultimately obtain s' where "run step (bound - Suc k) s1 s'" "final s'" using Suc(1) by blast
  then show ?case using run_first [where step = step, OF s1] Suc(2) \<open>x = bound - Suc k\<close> by metis
qed

end

text \<open>
  A program that does in more steps what another one does: every step of the finer program is a step
  of the coarser one, under the abstraction, or leaves the abstraction as it is and counts as an
  extra one. \<open>coupled\<close> is the invariant of the finer program. It is then \<open>progressing\<close> itself.
\<close>

locale refining = progressing step inv final bound
  for step :: "'s \<Rightarrow> 's \<Rightarrow> bool" and inv :: "nat \<Rightarrow> 's \<Rightarrow> bool" and final :: "'s \<Rightarrow> bool" and bound :: nat +
  fixes fine_step :: "'c \<Rightarrow> 'c \<Rightarrow> bool"
    and abs :: "'c \<Rightarrow> 's"
    and coupled :: "'c \<Rightarrow> bool"
    and extra :: "'c \<Rightarrow> nat"
    and extra_bound :: nat
  assumes simulates: "coupled c \<Longrightarrow> inv k (abs c) \<Longrightarrow> fine_step c c' \<Longrightarrow>
      coupled c' \<and> (step (abs c) (abs c') \<and> extra c' = extra c \<or> abs c' = abs c \<and> extra c' = Suc (extra c))"
    and extra_le: "coupled c \<Longrightarrow> extra c \<le> extra_bound"
    and fine_goes_on: "coupled c \<Longrightarrow> inv k (abs c) \<Longrightarrow> \<not> final (abs c) \<Longrightarrow> \<exists>c'. fine_step c c'"
    and final_extra: "coupled c \<Longrightarrow> final (abs c) \<Longrightarrow> extra c = extra_bound"
begin

lemma run_refines:
  "run fine_step m c c' \<Longrightarrow> coupled c \<Longrightarrow> inv k (abs c) \<Longrightarrow>
    \<exists>j. run step j (abs c) (abs c') \<and> coupled c' \<and> j + extra c' = m + extra c"
proof (induction rule: run.induct)
  case (run_refl c)
  then show ?case by auto
next
  case (run_step m c c1 c2)
  then obtain j where j: "run step j (abs c) (abs c1)" "coupled c1" "j + extra c1 = m + extra c" by blast
  have "inv (k + j) (abs c1)" using run_inv [OF j(1) run_step.prems(2)] .
  from simulates [OF j(2) this run_step.hyps(2)] show ?case
    using j run.run_step [OF j(1)] by (metis add_Suc add_Suc_right)
qed

end

sublocale refining \<subseteq> fine: progressing fine_step "\<lambda>k c. coupled c \<and> (\<exists>j. inv j (abs c) \<and> k = j + extra c)"
    "\<lambda>c. final (abs c)" "bound + extra_bound"
proof (unfold_locales, goal_cases)
  case (1 k c c')
  then obtain j where j: "coupled c" "inv j (abs c)" "k = j + extra c" by blast
  from simulates [OF j(1,2) 1(2)] consider
    "coupled c'" "step (abs c) (abs c')" "extra c' = extra c" | "coupled c'" "abs c' = abs c" "extra c' = Suc (extra c)"
    by blast
  then show ?case
  proof cases
    case 1
    then show ?thesis using step_inv [OF j(2) 1(2)] j(3) by (intro conjI exI [of _ "Suc j"]) simp_all
  next
    case 2
    then show ?thesis using j by (intro conjI exI [of _ j]) simp_all
  qed
next
  case (2 k c)
  then obtain j where "coupled c" "inv j (abs c)" "k = j + extra c" by blast
  then show ?case using inv_bound [of j "abs c"] extra_le [of c] by simp
next
  case (3 k c)
  then show ?case using fine_goes_on by blast
next
  case (4 k c)
  then obtain j where "coupled c" "inv j (abs c)" "k = j + extra c" by blast
  then show ?case using final_bound [of j "abs c"] final_extra [of c] 4(2) by simp
qed

end
