(* ===== verification/Session.thy ===== *)
theory Session
  imports Iwish Runs
begin

text \<open>
  A session of the shell: the process of \<open>main\<close>, the processes that handle its jobs and the
  programs of these jobs run at once, in any order. \<open>main\<close> first makes the statuses of children
  ignored (SA_NOCLDWAIT), which its children inherit: \<open>wait\<close> in a job then fails when all its programs
  have ended, and not before. For \<open>waitpid\<close> in the shell POSIX and its manual page say the same: it
  waits until all children of the shell have ended; Linux, whose \<open>prctl\<close> the shell needs, only waits
  for the child named. Both are modelled (\<open>waits_all\<close>). By \<open>safelyFork\<close> a process gets SIGTERM when its
  parent is gone: a handler ends of it (the shell and its handlers leave its disposition alone, which
  is taken to be the default), a program need not, for it may ignore or handle the signal, or be
  set-user-ID (\<open>immune\<close>). A program that has not been started yet counts as one that runs; what
  programs start in their turn is not followed.
\<close>

definition ignoring_children :: "world \<Rightarrow> world" where
  "ignoring_children w =
     w\<lparr>shell_env := (shell_env w)\<lparr>nocldwait := True\<rparr>, job_env := (\<lambda>n. (job_env w n)\<lparr>nocldwait := True\<rparr>)\<rparr>"

definition iwish_main :: "world \<Rightarrow> string \<Rightarrow> fdtable \<Rightarrow> heap \<Rightarrow> (int \<times> outcome list \<times> heap) res option" where
  "iwish_main w stream t h = shell_main (ignoring_children w) 0 stream t h"

section \<open>The handler of a job\<close>

text \<open>
  Where the handler is when it has started what it can start: in the loop that waits, or about to
  leave. The shell learns of a job what the whole run of its handler comes to (\<open>finish_job\<close>).
\<close>

definition job_start :: "world \<Rightarrow> nat \<Rightarrow> (nat \<times> Simple_List) option \<Rightarrow> fdtable \<Rightarrow> heap
    \<Rightarrow> handler_code \<times> fdtable \<times> child list" where
  "job_start w n l t h =
     (if safelyFork (my_pid (shell_env w)) 0 (prctl_ret (shell_env w) n) (parent_of (shell_env w) n) < 0
      then (Leaves EXIT_FAILURE, t, []) else start_job (job_env w n) h l t)"

definition job_begins :: "world \<Rightarrow> nat \<Rightarrow> fdtable \<Rightarrow> job \<Rightarrow> handler_code \<Rightarrow> child list \<Rightarrow> bool" where
  "job_begins w n t job code children \<longleftrightarrow>
     (\<exists>l h t1. job_start w n l t h = (code, t1, children) \<and> job = finish_job (job_env w n) (code, t1, children))"

lemma job_process_begins:
  assumes "job_process w n strings input l t h = Inr job"
  shows "\<exists>code children. job_begins w n t job code children"
proof -
  obtain code t1 children where c: "job_start w n l t h = (code, t1, children)" using prod_cases3 by blast
  have "job = finish_job (job_env w n) (code, t1, children)"
    using assms unfolding c [symmetric] job_start_def
    by (auto simp: job_process_def Let_def interpretSimpleList_def finish_job_def bind_res_eq_Inr split: if_splits prod.splits)
  with c show ?thesis unfolding job_begins_def by blast
qed

lemma interpretInput_begins:
  "interpretInput w n strings input ts t h = Inr (Started wait (Inr job), h') \<Longrightarrow>
    \<exists>code children. job_begins w n t job code children"
  by (auto simp: interpretInput_def bind_res_eq_Inr split: prod.splits if_splits option.splits intro: job_process_begins)

lemma turn_begins:
  assumes "shell_turn w n s t h = Some (Inr (Goes_on (Started wait (Inr job)), s1, h1))"
  shows "\<exists>code children. job_begins w n t job code children"
proof -
  obtain strings input sentence h2 h3 where
    "interpretInput w n strings input sentence t h2 = Inr (Started wait (Inr job), h3)"
    using assms
    by (auto simp: shell_turn_def bind_res_eq_Inr split: option.split_asm prod.split_asm if_split_asm outcome.split_asm)
      (metis outcome.exhaust)+
  then show ?thesis by (rule interpretInput_begins)
qed

text \<open>As children are ignored, the status tells where the handler was.\<close>

lemma job_begins_code:
  assumes "job_begins w n t job code children" "nocldwait (job_env w n)"
  shows "fst job = EXIT_SUCCESS \<longleftrightarrow> (\<exists>e. code = Waits e)" "snd (snd job) = children" "code = Waits e \<Longrightarrow> e = EXIT_SUCCESS"
  using assms
  by (auto simp: job_begins_def job_start_def start_job_def finish_job_def wait_answers_def EXIT_SUCCESS_def
      EXIT_FAILURE_def split: if_splits option.splits prod.splits)

section \<open>The steps\<close>

text \<open>
  A job: its line, whether the shell waits for it, its handler (where it is, and whether it is alive),
  and its programs that have not ended, by number.
\<close>

record job_procs =
  of_line :: nat
  in_foreground :: bool
  handler_at :: handler_code
  handler_alive :: bool
  programs :: "(nat \<times> child) list"

datatype shell_mode = At_Prompt | Awaiting nat | Gone int

record session =
  mode :: shell_mode
  line_no :: nat
  rest_input :: string
  shell_heap :: heap
  job_list :: "job_procs list"

definition new_job :: "nat \<Rightarrow> bool \<Rightarrow> handler_code \<Rightarrow> child list \<Rightarrow> job_procs" where
  "new_job n wait code children =
     \<lparr>of_line = n, in_foreground = wait, handler_at = code, handler_alive = True, programs = enumerate 0 children\<rparr>"

text \<open>
  A handler in its loop leaves when \<open>wait\<close> fails, which it does when its programs have ended.
\<close>

definition handler_leaves :: "job_procs \<Rightarrow> bool" where
  "handler_leaves j =
     (case handler_at j of
        Leaves st \<Rightarrow> True
      | Waits e \<Rightarrow> programs j = [] \<and> (case wait_body None e of Leaves st \<Rightarrow> True | Waits e1 \<Rightarrow> False))"

text \<open>
  A command that could not run its program ends at once; the k-th program of line n ends when it
  does so by itself (\<open>own_end n k\<close>), or of the SIGTERM it gets when its handler is gone.
\<close>

definition ends_itself :: "(nat \<Rightarrow> nat \<Rightarrow> bool) \<Rightarrow> nat \<Rightarrow> nat \<times> child \<Rightarrow> bool" where
  "ends_itself own_end n p = (case snd p of Runs argv t \<Rightarrow> own_end n (fst p) | _ \<Rightarrow> True)"

definition program_ends :: "(nat \<Rightarrow> nat \<Rightarrow> bool) \<Rightarrow> (nat \<Rightarrow> nat \<Rightarrow> bool) \<Rightarrow> job_procs \<Rightarrow> nat \<times> child \<Rightarrow> bool" where
  "program_ends own_end immune j p \<longleftrightarrow>
     ends_itself own_end (of_line j) p \<or> \<not> handler_alive j \<and> \<not> immune (of_line j) (fst p)"

text \<open>A turn of the shell is one step; so is the failing \<open>wait\<close> of a handler together with its exit.\<close>

inductive session_step :: "world \<Rightarrow> bool \<Rightarrow> (nat \<Rightarrow> nat \<Rightarrow> bool) \<Rightarrow> (nat \<Rightarrow> nat \<Rightarrow> bool) \<Rightarrow> fdtable \<Rightarrow> session \<Rightarrow> session \<Rightarrow> bool"
  for w waits_all own_end immune t where
  step_rejects: "mode s = At_Prompt \<Longrightarrow>
    shell_turn w (line_no s) (rest_input s) t (shell_heap s) = Some (Inr (Goes_on Invalid_Input, s1, h1)) \<Longrightarrow>
    session_step w waits_all own_end immune t s (s\<lparr>line_no := Suc (line_no s), rest_input := s1, shell_heap := h1\<rparr>)"
| step_starts: "mode s = At_Prompt \<Longrightarrow>
    shell_turn w (line_no s) (rest_input s) t (shell_heap s) = Some (Inr (Goes_on (Started wait (Inr job)), s1, h1)) \<Longrightarrow>
    job_begins w (line_no s) t job code children \<Longrightarrow>
    session_step w waits_all own_end immune t s
      (s\<lparr>line_no := Suc (line_no s), rest_input := s1, shell_heap := h1,
         mode := (if wait then Awaiting (length (job_list s)) else At_Prompt),
         job_list := job_list s @ [new_job (line_no s) wait code children]\<rparr>)"
| step_exits: "mode s = At_Prompt \<Longrightarrow>
    shell_turn w (line_no s) (rest_input s) t (shell_heap s) = Some (Inr (Ends k, s1, h1)) \<Longrightarrow>
    session_step w waits_all own_end immune t s (s\<lparr>mode := Gone k, rest_input := s1, shell_heap := h1\<rparr>)"
| step_program_ends: "i < length (job_list s) \<Longrightarrow> j = job_list s ! i \<Longrightarrow> p \<in> set (programs j) \<Longrightarrow>
    program_ends own_end immune j p \<Longrightarrow>
    session_step w waits_all own_end immune t s (s\<lparr>job_list := (job_list s)[i := j\<lparr>programs := remove1 p (programs j)\<rparr>]\<rparr>)"
| step_handler_ends: "i < length (job_list s) \<Longrightarrow> j = job_list s ! i \<Longrightarrow> handler_alive j \<Longrightarrow>
    handler_leaves j \<or> (\<exists>k. mode s = Gone k) \<Longrightarrow>
    session_step w waits_all own_end immune t s (s\<lparr>job_list := (job_list s)[i := j\<lparr>handler_alive := False\<rparr>]\<rparr>)"
| step_wait_returns: "mode s = Awaiting i \<Longrightarrow> i < length (job_list s) \<Longrightarrow> \<not> handler_alive (job_list s ! i) \<Longrightarrow>
    waits_all \<longrightarrow> (\<forall>j \<in> set (job_list s). \<not> handler_alive j) \<Longrightarrow>
    session_step w waits_all own_end immune t s (s\<lparr>mode := At_Prompt\<rparr>)"

inductive_cases session_stepE: "session_step w waits_all own_end immune t s s'"

definition session_start :: "string \<Rightarrow> heap \<Rightarrow> session" where
  "session_start stream h =
     \<lparr>mode = At_Prompt, line_no = 0, rest_input = stream, shell_heap = h, job_list = []\<rparr>"

text \<open>A program that ends sooner or later, once nobody keeps its handler.\<close>

definition mortal :: "(nat \<Rightarrow> nat \<Rightarrow> bool) \<Rightarrow> (nat \<Rightarrow> nat \<Rightarrow> bool) \<Rightarrow> nat \<Rightarrow> nat \<times> child \<Rightarrow> bool" where
  "mortal own_end immune n p \<longleftrightarrow> ends_itself own_end n p \<or> \<not> immune n (fst p)"

definition job_gone :: "(nat \<Rightarrow> nat \<Rightarrow> bool) \<Rightarrow> (nat \<Rightarrow> nat \<Rightarrow> bool) \<Rightarrow> job_procs \<Rightarrow> bool" where
  "job_gone own_end immune j \<longleftrightarrow> \<not> handler_alive j \<and> (\<forall>p \<in> set (programs j). \<not> mortal own_end immune (of_line j) p)"

definition session_final :: "(nat \<Rightarrow> nat \<Rightarrow> bool) \<Rightarrow> (nat \<Rightarrow> nat \<Rightarrow> bool) \<Rightarrow> session \<Rightarrow> bool" where
  "session_final own_end immune s \<longleftrightarrow> (\<exists>k. mode s = Gone k) \<and> (\<forall>j \<in> set (job_list s). job_gone own_end immune j)"

section \<open>What is left to do\<close>

definition job_left :: "(nat \<Rightarrow> nat \<Rightarrow> bool) \<Rightarrow> (nat \<Rightarrow> nat \<Rightarrow> bool) \<Rightarrow> job_procs \<Rightarrow> nat" where
  "job_left own_end immune j =
     (if handler_alive j then 1 else 0) + length (filter (mortal own_end immune (of_line j)) (programs j))"

text \<open>The steps line n takes: its turn, the ends of its processes, and the end of waiting.\<close>

definition outcome_steps :: "(nat \<Rightarrow> nat \<Rightarrow> bool) \<Rightarrow> (nat \<Rightarrow> nat \<Rightarrow> bool) \<Rightarrow> nat \<Rightarrow> outcome \<Rightarrow> nat" where
  "outcome_steps own_end immune n out =
     (case out of
        Started wait (Inr (status, t1, children)) \<Rightarrow>
          2 + length (filter (mortal own_end immune n) (enumerate 0 children)) + (if wait then 1 else 0)
      | _ \<Rightarrow> 1)"

fun session_steps :: "(nat \<Rightarrow> nat \<Rightarrow> bool) \<Rightarrow> (nat \<Rightarrow> nat \<Rightarrow> bool) \<Rightarrow> nat \<Rightarrow> outcome list \<Rightarrow> nat" where
  "session_steps own_end immune n [] = 1"
| "session_steps own_end immune n (out # outs) =
     outcome_steps own_end immune n out + session_steps own_end immune (Suc n) outs"

text \<open>The jobs from the n-th line on are defined, and programs the shell waits for end by themselves.\<close>

fun jobs_end :: "bool \<Rightarrow> (nat \<Rightarrow> nat \<Rightarrow> bool) \<Rightarrow> nat \<Rightarrow> outcome list \<Rightarrow> bool" where
  "jobs_end waits_all own_end n [] = True"
| "jobs_end waits_all own_end n (out # outs) =
     ((case out of
         Invalid_Input \<Rightarrow> True
       | Started wait (Inr job) \<Rightarrow> wait \<or> waits_all \<longrightarrow> (\<forall>k. own_end n k)
       | _ \<Rightarrow> False) \<and> jobs_end waits_all own_end (Suc n) outs)"

text \<open>
  The shell waits for the only job in the foreground whose handler is alive; as long as it is there
  itself, a handler in its loop is gone only after its programs.
\<close>

definition job_ok :: "shell_mode \<Rightarrow> nat \<Rightarrow> job_procs \<Rightarrow> bool" where
  "job_ok md i j \<longleftrightarrow>
     (in_foreground j \<and> handler_alive j \<longrightarrow> md = Awaiting i) \<and>
     ((\<forall>k. md \<noteq> Gone k) \<and> \<not> handler_alive j \<and> (\<exists>e. handler_at j = Waits e) \<longrightarrow> programs j = [])"

definition prompt_ok :: "session \<Rightarrow> bool" where
  "prompt_ok s \<longleftrightarrow>
     (\<forall>i. mode s = Awaiting i \<longrightarrow> i < length (job_list s) \<and> in_foreground (job_list s ! i)) \<and>
     (\<forall>i < length (job_list s). job_ok (mode s) i (job_list s ! i))"

text \<open>The programs the shell waits for can end.\<close>

definition waiting_ok :: "bool \<Rightarrow> (nat \<Rightarrow> nat \<Rightarrow> bool) \<Rightarrow> session \<Rightarrow> bool" where
  "waiting_ok waits_all own_end s \<longleftrightarrow> prompt_ok s \<and>
     (\<forall>i < length (job_list s). in_foreground (job_list s ! i) \<or> waits_all \<longrightarrow> (\<forall>k. own_end (of_line (job_list s ! i)) k))"

definition to_come :: "world \<Rightarrow> bool \<Rightarrow> (nat \<Rightarrow> nat \<Rightarrow> bool) \<Rightarrow> fdtable \<Rightarrow> int \<Rightarrow> session \<Rightarrow> outcome list \<Rightarrow> bool" where
  "to_come w waits_all own_end t st s outs \<longleftrightarrow>
     (case mode s of
        Gone k \<Rightarrow> k = st \<and> outs = []
      | _ \<Rightarrow> jobs_end waits_all own_end (line_no s) outs \<and>
          (\<exists>h'. shell_main w (line_no s) (rest_input s) t (shell_heap s) = Some (Inr (st, outs, h'))))"

definition shell_left :: "(nat \<Rightarrow> nat \<Rightarrow> bool) \<Rightarrow> (nat \<Rightarrow> nat \<Rightarrow> bool) \<Rightarrow> session \<Rightarrow> outcome list \<Rightarrow> nat" where
  "shell_left own_end immune s outs =
     (case mode s of
        Gone k \<Rightarrow> 0
      | At_Prompt \<Rightarrow> session_steps own_end immune (line_no s) outs
      | Awaiting i \<Rightarrow> Suc (session_steps own_end immune (line_no s) outs))"

definition session_inv :: "world \<Rightarrow> bool \<Rightarrow> (nat \<Rightarrow> nat \<Rightarrow> bool) \<Rightarrow> (nat \<Rightarrow> nat \<Rightarrow> bool) \<Rightarrow> fdtable \<Rightarrow> int \<Rightarrow> nat \<Rightarrow> nat
    \<Rightarrow> session \<Rightarrow> bool" where
  "session_inv w waits_all own_end immune t st bound k s \<longleftrightarrow>
     (\<forall>n. nocldwait (job_env w n)) \<and> waiting_ok waits_all own_end s \<and>
     (\<exists>outs. to_come w waits_all own_end t st s outs \<and>
        k + shell_left own_end immune s outs + sum_list (map (job_left own_end immune) (job_list s)) = bound)"

lemma shell_main_next:
  assumes "shell_turn w n s t h = Some (Inr (Goes_on out, s1, h1))" "shell_main w n s t h = Some (Inr (st, outs, h'))"
  obtains outs' where "outs = out # outs'" "shell_main w (Suc n) s1 t h1 = Some (Inr (st, outs', h'))"
proof -
  have "Option.bind (shell_main w (Suc n) s1 t h1) (\<lambda>r. Some (bind_res r (\<lambda>(k, outs, h2). Inr (k, out # outs, h2)))) =
      Some (Inr (st, outs, h'))"
    using assms by (subst (asm) shell_main.simps) simp
  then obtain r where "shell_main w (Suc n) s1 t h1 = Some r"
    "bind_res r (\<lambda>(k, outs, h2). Inr (k, out # outs, h2)) = Inr (st, outs, h')"
    by (auto simp: bind_eq_Some_conv)
  then show thesis using that by (auto simp: bind_res_eq_Inr)
qed

lemma shell_main_end:
  assumes "shell_turn w n s t h = Some (Inr (Ends k, s1, h1))" "shell_main w n s t h = Some (Inr (st, outs, h'))"
  shows "outs = []" "st = k"
  using assms by (subst (asm) shell_main.simps, simp)+

lemma shell_main_turn:
  assumes "shell_main w n s t h = Some (Inr (st, outs, h'))"
  obtains (ends) k s1 h1 where "shell_turn w n s t h = Some (Inr (Ends k, s1, h1))"
  | (goes) out s1 h1 where "shell_turn w n s t h = Some (Inr (Goes_on out, s1, h1))"
  using assms by (subst (asm) shell_main.simps) (auto split: option.splits sum.splits turn.splits)

lemma sum_list_dec:
  assumes "i < length xs" "f (xs ! i) = Suc (f y)"
  shows "Suc (sum_list (map f (xs[i := y]))) = (sum_list (map f xs) :: nat)"
  using assms
proof (induction xs arbitrary: i)
  case (Cons x xs)
  then show ?case by (cases i) auto
qed simp

lemma session_invI:
  "\<forall>n. nocldwait (job_env w n) \<Longrightarrow> waiting_ok waits_all own_end s \<Longrightarrow> to_come w waits_all own_end t st s outs \<Longrightarrow>
    k + shell_left own_end immune s outs + sum_list (map (job_left own_end immune) (job_list s)) = bound \<Longrightarrow>
    session_inv w waits_all own_end immune t st bound k s"
  unfolding session_inv_def by blast

lemma to_come_next:
  assumes "to_come w waits_all own_end t st s outs" "mode s = At_Prompt"
    "shell_turn w (line_no s) (rest_input s) t (shell_heap s) = Some (Inr (Goes_on out, s1, h1))"
  obtains outs' h' where "outs = out # outs'" "shell_main w (Suc (line_no s)) s1 t h1 = Some (Inr (st, outs', h'))"
proof -
  obtain h' where "shell_main w (line_no s) (rest_input s) t (shell_heap s) = Some (Inr (st, outs, h'))"
    using assms(1,2) by (auto simp: to_come_def)
  from shell_main_next [OF assms(3) this] show thesis using that .
qed

lemma prompt_ok_start: "prompt_ok (session_start s h)"
  by (simp add: prompt_ok_def session_start_def)

lemma prompt_ok_update:
  assumes "prompt_ok s" "i < length (job_list s)" "job_ok (mode s) i j" "in_foreground j = in_foreground (job_list s ! i)"
  shows "prompt_ok (s\<lparr>job_list := (job_list s)[i := j]\<rparr>)"
  using assms by (simp add: prompt_ok_def nth_list_update)

lemma prompt_ok_step:
  assumes "session_step w waits_all own_end immune t s s'" "prompt_ok s"
  shows "prompt_ok s'"
  using assms(1)
proof cases
  case (step_rejects s1 h1)
  then show ?thesis using assms(2) by (simp add: prompt_ok_def)
next
  case (step_starts wait job s1 h1 code children)
  have "job_ok (if wait then Awaiting (length (job_list s)) else At_Prompt) i (job_list s ! i)"
    if "i < length (job_list s)" for i
    using assms(2) that step_starts(2) by (auto simp: prompt_ok_def job_ok_def)
  then show ?thesis unfolding step_starts(1)
    by (simp add: prompt_ok_def nth_append less_Suc_eq) (simp add: job_ok_def new_job_def)
next
  case (step_exits k s1 h1)
  then show ?thesis using assms(2) by (auto simp: prompt_ok_def job_ok_def)
next
  case (step_program_ends i j p)
  have "job_ok (mode s) i j" using assms(2) step_program_ends(2,3) by (simp add: prompt_ok_def)
  then show ?thesis unfolding step_program_ends(1) using assms(2) step_program_ends(2,3)
    by (intro prompt_ok_update) (auto simp: job_ok_def)
next
  case (step_handler_ends i j)
  have "job_ok (mode s) i j" using assms(2) step_handler_ends(2,3) by (simp add: prompt_ok_def)
  then have "job_ok (mode s) i (j\<lparr>handler_alive := False\<rparr>)"
    using step_handler_ends(5) by (auto simp: job_ok_def handler_leaves_def)
  then show ?thesis unfolding step_handler_ends(1) using assms(2) step_handler_ends(2,3)
    by (intro prompt_ok_update) simp_all
next
  case (step_wait_returns i)
  have "job_ok At_Prompt n (job_list s ! n)" if n: "n < length (job_list s)" for n
  proof -
    have "job_ok (Awaiting i) n (job_list s ! n)" using assms(2) n step_wait_returns(2) by (simp add: prompt_ok_def)
    moreover have "n = i \<Longrightarrow> \<not> handler_alive (job_list s ! n)" using step_wait_returns(4) by simp
    ultimately show ?thesis unfolding job_ok_def by (cases "n = i") simp_all
  qed
  then show ?thesis unfolding step_wait_returns(1) by (simp add: prompt_ok_def)
qed

lemma prompt_ok_run: "run (session_step w waits_all own_end immune t) m s s' \<Longrightarrow> prompt_ok s \<Longrightarrow> prompt_ok s'"
  by (induction rule: run.induct) (auto intro: prompt_ok_step)

lemma job_left_program:
  assumes "p \<in> set (programs j)" "program_ends own_end immune j p"
  shows "job_left own_end immune j = Suc (job_left own_end immune (j\<lparr>programs := remove1 p (programs j)\<rparr>))"
proof -
  let ?m = "mortal own_end immune (of_line j)"
  have p: "p \<in> set (filter ?m (programs j))" using assms by (auto simp: program_ends_def mortal_def)
  have "length (filter ?m (programs j)) = Suc (length (remove1 p (filter ?m (programs j))))"
    using length_pos_if_in_set [OF p] p by (simp add: length_remove1)
  then show ?thesis by (simp add: job_left_def filter_remove1)
qed

lemma job_left_new:
  "job_left own_end immune (new_job n wait code children) =
    Suc (length (filter (mortal own_end immune n) (enumerate 0 children)))"
  by (simp add: job_left_def new_job_def)

lemma session_step_inv:
  assumes "session_inv w waits_all own_end immune t st bound k s" "session_step w waits_all own_end immune t s s'"
  shows "session_inv w waits_all own_end immune t st bound (Suc k) s'"
proof -
  let ?left = "job_left own_end immune"
  obtain outs where inv: "\<forall>n. nocldwait (job_env w n)" "waiting_ok waits_all own_end s" "to_come w waits_all own_end t st s outs"
    "k + shell_left own_end immune s outs + sum_list (map ?left (job_list s)) = bound"
    using assms(1) by (auto simp: session_inv_def)
  have p: "prompt_ok s'" using prompt_ok_step [OF assms(2)] inv(2) by (simp add: waiting_ok_def)
  from assms(2) show ?thesis
  proof cases
    case (step_rejects s1 h1)
    obtain outs' h' where "outs = Invalid_Input # outs'"
      "shell_main w (Suc (line_no s)) s1 t h1 = Some (Inr (st, outs', h'))"
      by (rule to_come_next [OF inv(3) step_rejects(2,3)])
    then show ?thesis
      using inv p step_rejects(2) unfolding step_rejects(1)
      by (intro session_invI [OF inv(1), of _ _ _ _ _ outs'])
        (auto simp: waiting_ok_def to_come_def shell_left_def outcome_steps_def)
  next
    case (step_starts wait job s1 h1 code children)
    obtain outs' h' where outs: "outs = Started wait (Inr job) # outs'"
      "shell_main w (Suc (line_no s)) s1 t h1 = Some (Inr (st, outs', h'))"
      by (rule to_come_next [OF inv(3) step_starts(2,3)])
    have e: "wait \<or> waits_all \<Longrightarrow> own_end (line_no s) k" "jobs_end waits_all own_end (Suc (line_no s)) outs'" for k
      using inv(3) step_starts(2) outs(1) by (auto simp: to_come_def)
    have "waiting_ok waits_all own_end s'"
      using inv(2) p e(1) unfolding step_starts(1) waiting_ok_def
      by (auto simp: nth_append new_job_def less_Suc_eq)
    moreover have "outcome_steps own_end immune (line_no s) (Started wait (Inr job)) =
        Suc (?left (new_job (line_no s) wait code children)) + (if wait then 1 else 0)"
      using job_begins_code(2) [OF step_starts(4)] inv(1)
      by (cases job) (simp add: outcome_steps_def job_left_new)
    ultimately show ?thesis
      using inv(4) step_starts(2) outs e(2)
      by (intro session_invI [OF inv(1), of _ _ _ _ _ outs'])
        (auto simp: step_starts(1) to_come_def shell_left_def)
  next
    case (step_exits k1 s1 h1)
    have "outs = []" "st = k1"
      using inv(3) step_exits(2) shell_main_end [OF step_exits(3)] by (auto simp: to_come_def)
    then show ?thesis
      using inv p step_exits(2) unfolding step_exits(1)
      by (intro session_invI [OF inv(1), of _ _ _ _ _ "[]"]) (auto simp: waiting_ok_def to_come_def shell_left_def)
  next
    case (step_program_ends i j q)
    have l: "?left (job_list s ! i) = Suc (?left (j\<lparr>programs := remove1 q (programs j)\<rparr>))"
      using job_left_program [OF step_program_ends(4,5)] step_program_ends(3) by simp
    show ?thesis
      using p unfolding step_program_ends(1)
      by (intro session_invI [OF inv(1), of _ _ _ _ _ outs])
        (use inv step_program_ends(2,3) sum_list_dec [OF step_program_ends(2), of ?left, OF l] in
          \<open>auto simp: waiting_ok_def to_come_def shell_left_def nth_list_update split: shell_mode.splits\<close>)
  next
    case (step_handler_ends i j)
    have l: "?left (job_list s ! i) = Suc (?left (j\<lparr>handler_alive := False\<rparr>))"
      using step_handler_ends(3,4) by (simp add: job_left_def)
    show ?thesis
      using p unfolding step_handler_ends(1)
      by (intro session_invI [OF inv(1), of _ _ _ _ _ outs])
        (use inv step_handler_ends(2,3) sum_list_dec [OF step_handler_ends(2), of ?left, OF l] in
          \<open>auto simp: waiting_ok_def to_come_def shell_left_def nth_list_update split: shell_mode.splits\<close>)
  next
    case (step_wait_returns i)
    show ?thesis
      using p unfolding step_wait_returns(1)
      by (intro session_invI [OF inv(1), of _ _ _ _ _ outs])
        (use inv step_wait_returns(2-4) in \<open>auto simp: waiting_ok_def to_come_def shell_left_def\<close>)
  qed
qed

text \<open>A handler whose programs end by themselves is not stuck.\<close>

lemma handler_goes_on:
  assumes "i < length (job_list s)" "handler_alive (job_list s ! i)" "\<And>k. own_end (of_line (job_list s ! i)) k"
  shows "\<exists>s'. session_step w waits_all own_end immune t s s'"
proof (cases "handler_leaves (job_list s ! i)")
  case True
  then show ?thesis using step_handler_ends [OF assms(1) refl assms(2)] by blast
next
  case False
  then obtain p where "p \<in> set (programs (job_list s ! i))"
    by (cases "programs (job_list s ! i)") (auto simp: handler_leaves_def split: handler_code.splits)
  moreover have "program_ends own_end immune (job_list s ! i) p"
    using assms(3) by (auto simp: program_ends_def ends_itself_def split: child.splits)
  ultimately show ?thesis using step_program_ends [OF assms(1) refl] by blast
qed

lemma session_goes_on:
  assumes "session_inv w waits_all own_end immune t st bound k s" "\<not> session_final own_end immune s"
  shows "\<exists>s'. session_step w waits_all own_end immune t s s'"
proof -
  obtain outs where inv: "waiting_ok waits_all own_end s" "to_come w waits_all own_end t st s outs"
    using assms(1) by (auto simp: session_inv_def)
  show ?thesis
  proof (cases "mode s")
    case At_Prompt
    then obtain h' where m: "shell_main w (line_no s) (rest_input s) t (shell_heap s) = Some (Inr (st, outs, h'))"
      using inv(2) by (auto simp: to_come_def)
    from m show ?thesis
    proof (cases rule: shell_main_turn)
      case (ends k s1 h1)
      then show ?thesis using step_exits [OF At_Prompt] by blast
    next
      case (goes out s1 h1)
      obtain outs' h' where "outs = out # outs'" by (rule to_come_next [OF inv(2) At_Prompt goes])
      then consider "out = Invalid_Input" | wait job where "out = Started wait (Inr job)"
        using inv(2) At_Prompt by (auto simp: to_come_def split: outcome.splits sum.splits)
      then show ?thesis
      proof cases
        case 1
        then show ?thesis using goes step_rejects [OF At_Prompt] by blast
      next
        case 2
        then show ?thesis using goes turn_begins step_starts [OF At_Prompt] by metis
      qed
    qed
  next
    case (Awaiting i)
    then have i: "i < length (job_list s)" "in_foreground (job_list s ! i)"
      using inv(1) by (auto simp: waiting_ok_def prompt_ok_def)
    have ends: "own_end (of_line (job_list s ! n)) k" if "n < length (job_list s)" "n = i \<or> waits_all" for n k
      using inv(1) i(2) that by (auto simp: waiting_ok_def)
    show ?thesis
    proof (cases "\<exists>n < length (job_list s). (n = i \<or> waits_all) \<and> handler_alive (job_list s ! n)")
      case True
      then show ?thesis using handler_goes_on ends by metis
    next
      case False
      then have "\<not> handler_alive (job_list s ! i)" "waits_all \<longrightarrow> (\<forall>j \<in> set (job_list s). \<not> handler_alive j)"
        using i(1) by (auto simp: in_set_conv_nth)
      then show ?thesis using step_wait_returns [OF Awaiting i(1)] by blast
    qed
  next
    case (Gone k)
    then obtain j where "j \<in> set (job_list s)" "\<not> job_gone own_end immune j" using assms(2) by (auto simp: session_final_def)
    then obtain i where i: "i < length (job_list s)" "\<not> job_gone own_end immune (job_list s ! i)" by (auto simp: in_set_conv_nth)
    show ?thesis
    proof (cases "handler_alive (job_list s ! i)")
      case True
      then show ?thesis using step_handler_ends [OF i(1) refl] Gone by blast
    next
      case False
      then obtain p where "p \<in> set (programs (job_list s ! i))" "program_ends own_end immune (job_list s ! i) p"
        using i(2) by (auto simp: job_gone_def mortal_def program_ends_def)
      then show ?thesis using step_program_ends [OF i(1) refl] by blast
    qed
  qed
qed

interpretation sess: progressing "session_step w waits_all own_end immune t"
    "session_inv w waits_all own_end immune t st bound" "session_final own_end immune" bound
  for w waits_all own_end immune t st bound
proof (unfold_locales, goal_cases)
  case (1 k s s')
  then show ?case by (rule session_step_inv)
next
  case (2 k s)
  then show ?case by (auto simp: session_inv_def)
next
  case (3 k s)
  then show ?case by (rule session_goes_on)
next
  case (4 k s)
  then have "sum_list (map (job_left own_end immune) (job_list s)) = 0"
    by (auto simp: session_final_def job_left_def job_gone_def)
  then show ?case using 4 by (auto simp: session_inv_def session_final_def shell_left_def)
qed

section \<open>Sessions\<close>

text \<open>A line that writes a pipeline, and one that does so without an ampersand at its end.\<close>

definition pipeline_line :: "string \<Rightarrow> bool" where
  "pipeline_line l \<longleftrightarrow> (\<exists>cs background. wf_pipeline cs \<and> split_words l = write_list cs background)"

definition foreground_line :: "string \<Rightarrow> bool" where
  "foreground_line l \<longleftrightarrow> (\<exists>cs. wf_pipeline cs \<and> split_words l = write_list cs False)"

lemma foreground_line_unique:
  assumes "c_string l" "wf_pipeline cs" "split_words l = write_list cs background"
  shows "foreground_line l \<longleftrightarrow> \<not> background"
proof -
  note reads = read_list_iff [OF split_words_c_string [OF assms(1)]]
  have r: "read_list (split_words l) = Some (cs, background)" unfolding reads using assms(2,3) ..
  show ?thesis
  proof
    assume "foreground_line l"
    then obtain ds where "read_list (split_words l) = Some (ds, False)" unfolding reads foreground_line_def by blast
    then show "\<not> background" using r by simp
  next
    assume "\<not> background"
    then show "foreground_line l" using assms(2,3) unfolding foreground_line_def by auto
  qed
qed

lemma handled_jobs_end:
  "list_all2 handles ls outs \<Longrightarrow> \<forall>i < length ls. waits_all \<or> foreground_line (ls ! i) \<longrightarrow> (\<forall>k. own_end (n + i) k) \<Longrightarrow>
    jobs_end waits_all own_end n outs"
proof (induction arbitrary: n rule: list_all2_induct)
  case (Cons l ls out outs)
  have "\<forall>i < length ls. waits_all \<or> foreground_line (ls ! i) \<longrightarrow> (\<forall>k. own_end (Suc n + i) k)" using Cons.prems by auto
  then have rest: "jobs_end waits_all own_end (Suc n) outs" by (rule Cons.IH)
  have own: "own_end n k" if "waits_all \<or> foreground_line l" for k
    using that spec [OF Cons.prems, of 0] by simp
  consider "out = Invalid_Input" | cs background job where "wf_pipeline cs" "split_words l = write_list cs background"
      "out = Started (\<not> background) (Inr job)"
    using Cons.hyps(1) unfolding handles_def by (metis (no_types))
  then show ?case
  proof cases
    case 2
    then have "\<not> background \<Longrightarrow> foreground_line l" by (auto simp: foreground_line_def)
    then show ?thesis using 2(3) own rest by auto
  qed (use rest in simp)
qed simp

lemma smooth_ignoring [simp]:
  "smooth_shell (ignoring_children w) = smooth_shell w" "smooth (job_env (ignoring_children w) n) = smooth (job_env w n)"
  "nocldwait (job_env (ignoring_children w) n)"
  by (simp_all add: smooth_shell_def ignoring_children_def smooth_def)

lemma session_inv_start:
  assumes "shell_main w 0 s t h = Some (Inr (st, outs, h'))" "jobs_end waits_all own_end 0 outs" "\<forall>n. nocldwait (job_env w n)"
  shows "session_inv w waits_all own_end immune t st (session_steps own_end immune 0 outs) 0 (session_start s h)"
  by (rule session_invI [OF assms(3), of _ _ _ _ _ outs])
    (use assms in \<open>simp_all add: waiting_ok_def prompt_ok_start to_come_def shell_left_def session_start_def\<close>,
      simp add: prompt_ok_def)


text \<open>A session of two lines: a pipeline, and the word that ends the shell.\<close>

definition sample_session :: string where
  "sample_session = ''ls | wc'' @ [CHR 0x0A] @ ''q'' @ [CHR 0x0A]"

lemma sample_session_script: "plain_input sample_session" "exit_script sample_session = Some [''ls | wc'']"
proof -
  have s: "split_words ''q'' = [''q'']" "split_words ''ls | wc'' = [''ls'', ''|'', ''wc'']"
    by (simp_all add: split_words.simps)
  show "plain_input sample_session" by (simp add: plain_input_def NUL_def sample_session_def)
  show "exit_script sample_session = Some [''ls | wc'']"
    unfolding sample_session_def
    by (subst exit_script.simps, simp add: s exit_line_def, subst exit_script.simps) (simp add: s exit_line_def)
qed


section \<open>The lines of a session\<close>

text \<open>A turn of the shell on an input with an exit line, by the lines to come.\<close>

lemma script_line:
  assumes "exit_script s = Some ls"
  obtains l rest where "read_line s = Some (l, rest)" "exit_line (split_words l) \<longrightarrow> ls = []"
    "\<not> exit_line (split_words l) \<longrightarrow> ls = l # tl ls \<and> exit_script rest = Some (tl ls)"
proof -
  obtain l rest where "read_line s = Some (l, rest)"
    using assms by (subst (asm) exit_script.simps) (auto split: option.splits)
  with assms show thesis by (subst (asm) exit_script.simps) (auto intro!: that split: if_splits)
qed

lemma scripted_turn:
  assumes w: "smooth_shell w" and h: "generous h" "heap_ok h" and s: "plain_input s" "exit_script s = Some ls"
    and turn: "shell_turn w n s t h = Some (Inr (r, s1, h1))"
  obtains (ends) "r = Ends 0" "ls = []"
  | (rejects) l ls1 where "ls = l # ls1" "r = Goes_on Invalid_Input" "\<not> pipeline_line l"
      "generous h1" "heap_ok h1" "plain_input s1" "exit_script s1 = Some ls1"
  | (starts) l ls1 wait q sl hj where "ls = l # ls1"
      "r = Goes_on (Started wait (Inr (interpretSimpleList (job_env w n) hj (Some (q, sl)) t)))"
      "pipeline_line l" "wait \<longleftrightarrow> foreground_line l" "simple_command_list (pipeline sl) \<noteq> []"
      "generous h1" "heap_ok h1" "plain_input s1" "exit_script s1 = Some ls1"
proof -
  obtain l rest where l: "read_line s = Some (l, rest)" "exit_line (split_words l) \<longrightarrow> ls = []"
    "\<not> exit_line (split_words l) \<longrightarrow> ls = l # tl ls \<and> exit_script rest = Some (tl ls)"
    using script_line [OF s(2)] .
  note line = plain_input_line [OF s(1) l(1)]
  show thesis
    using w h l(1) line(1,2)
  proof (cases rule: shell_turn_cases [where n = n and t = t])
    case (ends h')
    then show thesis using that(1) l(2) turn by simp
  next
    case (invalid h')
    then show thesis using that(2) [of l "tl ls"] l(3) turn line(3) by (simp add: pipeline_line_def)
  next
    case (started cs background q sl hj h')
    have "simple_command_list (pipeline sl) \<noteq> []"
      using started(2,4) by (auto simp: abs_list_def wf_pipeline_def)
    moreover have "pipeline_line l" using started(2,3) by (auto simp: pipeline_line_def)
    moreover have "\<not> background \<longleftrightarrow> foreground_line l" using foreground_line_unique [OF line(1) started(2,3)] by simp
    ultimately show thesis
      using that(3) [of l "tl ls" "\<not> background" hj q sl] l(3) turn line(3) started(1,5,9,10) by simp
  qed
qed

text \<open>
  The jobs so far are those of the lines read that write a pipeline, in order; one is in the foreground
  when its line is, and its handler is in its loop when no call of it fails.
\<close>

definition job_of_line :: "string list \<Rightarrow> world \<Rightarrow> job_procs \<Rightarrow> bool" where
  "job_of_line ls w j \<longleftrightarrow> (in_foreground j \<longleftrightarrow> foreground_line (ls ! of_line j)) \<and>
     (smooth (job_env w (of_line j)) \<longrightarrow> (\<exists>e. handler_at j = Waits e))"

definition lines_ok :: "string list \<Rightarrow> world \<Rightarrow> session \<Rightarrow> bool" where
  "lines_ok ls w s \<longleftrightarrow>
     line_no s \<le> length ls \<and> map of_line (job_list s) = filter (\<lambda>n. pipeline_line (ls ! n)) [0..<line_no s] \<and>
     (\<forall>j \<in> set (job_list s). job_of_line ls w j) \<and>
     ((\<forall>k. mode s \<noteq> Gone k) \<longrightarrow> generous (shell_heap s) \<and> heap_ok (shell_heap s) \<and> plain_input (rest_input s) \<and>
        exit_script (rest_input s) = Some (drop (line_no s) ls))"

lemma smooth_job_waits:
  assumes "smooth env" "nocldwait env" "6 \<le> L" "simple_command_list (pipeline sl) \<noteq> []"
  shows "fst (interpretSimpleList env h (Some (q, sl)) (std_table L)) = EXIT_SUCCESS"
proof -
  obtain st ch where "interpretSimpleList env h (Some (q, sl)) (std_table L) = (st, std_table L, ch)"
    "st = wait_loop (wait_answers env ch) EXIT_SUCCESS"
    using job_stages [OF assms(1,3,4), of h q] by blast
  then show ?thesis using assms(2) by (simp add: wait_answers_def)
qed

lemma new_job_of_line:
  assumes "job_begins w n (std_table L) (interpretSimpleList (job_env w n) hj (Some (q, sl)) (std_table L)) code children"
    "nocldwait (job_env w n)" "6 \<le> L" "simple_command_list (pipeline sl) \<noteq> []" "wait \<longleftrightarrow> foreground_line (ls ! n)"
  shows "job_of_line ls w (new_job n wait code children)"
  using job_begins_code(1) [OF assms(1,2)] smooth_job_waits [OF _ assms(2-4), of hj q] assms(5)
  by (auto simp: job_of_line_def new_job_def)

lemma lines_ok_update:
  assumes "lines_ok ls w s" "i < length (job_list s)" "of_line j = of_line (job_list s ! i)"
    "in_foreground j = in_foreground (job_list s ! i)" "handler_at j = handler_at (job_list s ! i)"
  shows "lines_ok ls w (s\<lparr>job_list := (job_list s)[i := j]\<rparr>)"
proof -
  have "map of_line ((job_list s)[i := j]) = map of_line (job_list s)"
    using assms(2,3) by (simp add: map_update list_update_same_conv)
  moreover have "job_of_line ls w j" using assms by (auto simp: lines_ok_def job_of_line_def)
  then have "\<forall>x \<in> set ((job_list s)[i := j]). job_of_line ls w x"
    using assms(1) set_update_subset_insert [of "job_list s" i j] by (auto simp: lines_ok_def)
  ultimately show ?thesis using assms(1) by (simp add: lines_ok_def)
qed

lemma lines_ok_step:
  assumes "session_step w waits_all own_end immune (std_table L) s s'" "lines_ok ls w s"
    "smooth_shell w" "\<forall>n. nocldwait (job_env w n)" "6 \<le> L"
  shows "lines_ok ls w s'"
proof -
  have ready: "generous (shell_heap s)" "heap_ok (shell_heap s)" "plain_input (rest_input s)"
    "exit_script (rest_input s) = Some (drop (line_no s) ls)" if "mode s = At_Prompt"
    using assms(2) that by (simp_all add: lines_ok_def)
  have next_line: "line_no s < length ls \<and> ls ! line_no s = l \<and> ls1 = drop (Suc (line_no s)) ls"
    if "drop (line_no s) ls = l # ls1" for l ls1
  proof -
    have "line_no s < length ls" using that by (metis drop_all list.distinct(1) not_le)
    then show ?thesis using that by (simp add: Cons_nth_drop_Suc [symmetric])
  qed
  from assms(1) show ?thesis
  proof cases
    case (step_rejects s1 h1)
    from assms(3) ready [OF step_rejects(2)] step_rejects(3) show ?thesis
    proof (cases rule: scripted_turn)
      case (rejects l ls1)
      then show ?thesis using assms(2) next_line step_rejects(2) unfolding step_rejects(1) by (simp add: lines_ok_def)
    qed simp_all
  next
    case (step_starts wait job s1 h1 code children)
    from assms(3) ready [OF step_starts(2)] step_starts(3) show ?thesis
    proof (cases rule: scripted_turn)
      case (starts l ls1 wait' q sl hj)
      have n: "line_no s < length ls" "ls ! line_no s = l" "ls1 = drop (Suc (line_no s)) ls" using next_line [OF starts(1)] by simp_all
      have "job_of_line ls w (new_job (line_no s) wait code children)"
        by (rule new_job_of_line [where hj = hj and q = q and sl = sl])
          (use step_starts(4) starts(2,4,5) assms(4,5) n(2) in simp_all)
      then show ?thesis
        using assms(2) starts n step_starts(2) unfolding step_starts(1) by (simp add: lines_ok_def new_job_def)
    qed simp_all
  next
    case (step_exits k s1 h1)
    then show ?thesis using assms(2) by (simp add: lines_ok_def)
  next
    case (step_program_ends i j p)
    show ?thesis unfolding step_program_ends(1)
      by (rule lines_ok_update [OF assms(2) step_program_ends(2)]) (simp_all add: step_program_ends(3))
  next
    case (step_handler_ends i j)
    show ?thesis unfolding step_handler_ends(1)
      by (rule lines_ok_update [OF assms(2) step_handler_ends(2)]) (simp_all add: step_handler_ends(3))
  next
    case (step_wait_returns i)
    then show ?thesis using assms(2) by (simp add: lines_ok_def)
  qed
qed

lemma lines_ok_run:
  "run (session_step w waits_all own_end immune (std_table L)) m s s' \<Longrightarrow> lines_ok ls w s \<Longrightarrow>
    smooth_shell w \<Longrightarrow> \<forall>n. nocldwait (job_env w n) \<Longrightarrow> 6 \<le> L \<Longrightarrow> lines_ok ls w s'"
  by (induction rule: run.induct) (auto intro: lines_ok_step)



text \<open>
  As \<open>waitpid\<close> is documented for a process that ignores the statuses of its children, the prompt also
  waits for the jobs in the background.
\<close>

lemma prompt_waits_for_all:
  assumes "session_step w True own_end immune t s s'" "mode s = Awaiting i" "mode s' = At_Prompt"
  shows "\<forall>j \<in> set (job_list s'). \<not> handler_alive j"
  using assms by (cases rule: session_step.cases) simp_all

end
