(* ===== verification/Dataflow.thy ===== *)
theory Dataflow
  imports Pipelines Runs
begin

text \<open>
  The programs of a job at work. \<open>interpretSimpleList\<close> (Lab2/iwish/src/interpreter.c) leaves
  behind processes with their descriptors; here the programs in them run at once, over pipes that
  take \<open>cap\<close> characters. A program is any machine: \<open>prog\<close> answers what it does next in its state.
  As POSIX has it, a read from an empty pipe waits as long as a process holds the write end and
  then tells the end of the input; a write waits while the pipe is full, and kills when nobody
  holds the read end. Files and terminals answer at once, with anything. The shell, its other
  jobs and the handler of this one hold no end of these pipes when all commands are started.
\<close>

datatype 'p action =
    Read_Fd nat "char option \<Rightarrow> 'p"
  | Write_Fd nat char 'p
  | Close_Fd nat 'p
  | Halt

text \<open>A process that runs is the state of its program and its descriptors; \<open>None\<close> is one that has ended.\<close>

record 'p flow =
  procs :: "('p \<times> fdtable) option list"
  in_transit :: "nat \<Rightarrow> string"

definition loaded :: "(string list \<Rightarrow> 'p) \<Rightarrow> child \<Rightarrow> ('p \<times> fdtable) option" where
  "loaded load c = (case c of Runs argv t \<Rightarrow> Some (load argv, t) | _ \<Rightarrow> None)"

definition flow_start :: "(string list \<Rightarrow> 'p) \<Rightarrow> child list \<Rightarrow> 'p flow" where
  "flow_start load ch = \<lparr>procs = map (loaded load) ch, in_transit = (\<lambda>m. [])\<rparr>"

text \<open>Process i runs in state \<open>x\<close> with the descriptors \<open>t\<close>; some process holds \<open>f\<close>.\<close>

definition runs_as :: "'p flow \<Rightarrow> nat \<Rightarrow> 'p \<Rightarrow> fdtable \<Rightarrow> bool" where
  "runs_as s i x t \<longleftrightarrow> i < length (procs s) \<and> procs s ! i = Some (x, t)"

definition is_held :: "'p flow \<Rightarrow> open_file \<Rightarrow> bool" where
  "is_held s f \<longleftrightarrow> (\<exists>i x t n. runs_as s i x t \<and> slots t n = Some f)"

definition goes_to :: "nat \<Rightarrow> ('p \<times> fdtable) option \<Rightarrow> 'p flow \<Rightarrow> 'p flow" where
  "goes_to i p s = s\<lparr>procs := (procs s)[i := p]\<rparr>"

inductive flow_step :: "nat \<Rightarrow> ('p \<Rightarrow> 'p action) \<Rightarrow> 'p flow \<Rightarrow> 'p flow \<Rightarrow> bool" for cap prog where
  read_char: "runs_as s i x t \<Longrightarrow> prog x = Read_Fd n f \<Longrightarrow> slots t n = Some (Pipe_R m) \<Longrightarrow>
    in_transit s m = c # cs \<Longrightarrow>
    flow_step cap prog s (goes_to i (Some (f (Some c), t)) (s\<lparr>in_transit := (in_transit s)(m := cs)\<rparr>))"
| read_eof: "runs_as s i x t \<Longrightarrow> prog x = Read_Fd n f \<Longrightarrow> slots t n = Some (Pipe_R m) \<Longrightarrow>
    in_transit s m = [] \<Longrightarrow> \<not> is_held s (Pipe_W m) \<Longrightarrow>
    flow_step cap prog s (goes_to i (Some (f None, t)) s)"
| read_other: "runs_as s i x t \<Longrightarrow> prog x = Read_Fd n f \<Longrightarrow> \<forall>m. slots t n \<noteq> Some (Pipe_R m) \<Longrightarrow>
    flow_step cap prog s (goes_to i (Some (f answer, t)) s)"
| write_char: "runs_as s i x t \<Longrightarrow> prog x = Write_Fd n c x1 \<Longrightarrow> slots t n = Some (Pipe_W m) \<Longrightarrow>
    is_held s (Pipe_R m) \<Longrightarrow> length (in_transit s m) < cap \<Longrightarrow>
    flow_step cap prog s (goes_to i (Some (x1, t)) (s\<lparr>in_transit := (in_transit s)(m := in_transit s m @ [c])\<rparr>))"
| write_broken: "runs_as s i x t \<Longrightarrow> prog x = Write_Fd n c x1 \<Longrightarrow> slots t n = Some (Pipe_W m) \<Longrightarrow>
    \<not> is_held s (Pipe_R m) \<Longrightarrow> flow_step cap prog s (goes_to i None s)"
| write_other: "runs_as s i x t \<Longrightarrow> prog x = Write_Fd n c x1 \<Longrightarrow> \<forall>m. slots t n \<noteq> Some (Pipe_W m) \<Longrightarrow>
    flow_step cap prog s (goes_to i (Some (x1, t)) s)"
| close_it: "runs_as s i x t \<Longrightarrow> prog x = Close_Fd n x1 \<Longrightarrow>
    flow_step cap prog s (goes_to i (Some (x1, put_fd n None t)) s)"
| halt: "runs_as s i x t \<Longrightarrow> prog x = Halt \<Longrightarrow> flow_step cap prog s (goes_to i None s)"

section \<open>Who holds which end\<close>

text \<open>Process i may write to pipe i and read from the one before, and to no other.\<close>

definition own_ends :: "nat \<Rightarrow> fdtable \<Rightarrow> bool" where
  "own_ends i t \<longleftrightarrow> (\<forall>n m. (slots t n = Some (Pipe_W m) \<longrightarrow> m = i) \<and> (slots t n = Some (Pipe_R m) \<longrightarrow> Suc m = i))"

definition flow_ok :: "'p flow \<Rightarrow> bool" where
  "flow_ok s \<longleftrightarrow> (\<forall>i x t. runs_as s i x t \<longrightarrow> own_ends i t)"

lemma runs_as_goes_to:
  "runs_as s i x t \<Longrightarrow> runs_as (goes_to i p s) j y u \<longleftrightarrow> (if j = i then p = Some (y, u) else runs_as s j y u)"
  by (auto simp: runs_as_def goes_to_def nth_list_update)

lemma runs_as_in_transit [simp]: "runs_as (s\<lparr>in_transit := q\<rparr>) = runs_as s"
  by (simp add: runs_as_def fun_eq_iff)

lemma flow_ok_goes_to:
  "flow_ok s \<Longrightarrow> runs_as s i x t \<Longrightarrow> (\<And>y u. p = Some (y, u) \<Longrightarrow> own_ends i u) \<Longrightarrow> flow_ok (goes_to i p s)"
  by (auto simp: flow_ok_def runs_as_goes_to)

lemma flow_ok_in_transit [simp]: "flow_ok (s\<lparr>in_transit := q\<rparr>) = flow_ok s"
  by (simp add: flow_ok_def)

lemma flow_ok_runs: "flow_ok s \<Longrightarrow> runs_as s i x t \<Longrightarrow> own_ends i t"
  by (simp add: flow_ok_def)

lemma own_ends_close: "own_ends i t \<Longrightarrow> own_ends i (put_fd n None t)"
  by (simp add: own_ends_def)

lemma flow_ok_keep: "flow_ok s \<Longrightarrow> runs_as s i x t \<Longrightarrow> flow_ok (goes_to i (Some (y, t)) s)"
  unfolding flow_ok_def by (simp add: runs_as_goes_to)

lemma flow_ok_end: "flow_ok s \<Longrightarrow> runs_as s i x t \<Longrightarrow> flow_ok (goes_to i None s)"
  unfolding flow_ok_def by (simp add: runs_as_goes_to)

lemma flow_ok_step:
  assumes "flow_step cap prog s s'" "flow_ok s"
  shows "flow_ok s'"
  using assms(1)
proof cases
  case (read_char i x t n f m c cs)
  then show ?thesis using assms(2) flow_ok_keep [of "s\<lparr>in_transit := (in_transit s)(m := cs)\<rparr>" i x t] by simp
next
  case (write_char i x t n c x1 m)
  then show ?thesis
    using assms(2) flow_ok_keep [of "s\<lparr>in_transit := (in_transit s)(m := in_transit s m @ [c])\<rparr>" i x t] by simp
next
  case (read_eof i x t n f m)
  then show ?thesis using flow_ok_keep [OF assms(2)] by simp
next
  case (read_other i x t n f answer)
  then show ?thesis using flow_ok_keep [OF assms(2)] by simp
next
  case (write_broken i x t n c x1 m)
  then show ?thesis using flow_ok_end [OF assms(2)] by simp
next
  case (write_other i x t n c x1)
  then show ?thesis using flow_ok_keep [OF assms(2)] by simp
next
  case (close_it i x t n x1)
  have "own_ends i (put_fd n None t)" using own_ends_close [OF flow_ok_runs [OF assms(2) close_it(2)]] .
  then show ?thesis unfolding close_it(1) by (intro flow_ok_goes_to [OF assms(2) close_it(2)]) simp
next
  case (halt i x t)
  then show ?thesis using flow_ok_end [OF assms(2)] by simp
qed

lemma flow_ok_run: "run (flow_step cap prog) m s s' \<Longrightarrow> flow_ok s \<Longrightarrow> flow_ok s'"
  by (induction rule: run.induct) (auto intro: flow_ok_step)

section \<open>A job that is stuck has ended\<close>

lemma ended_stuck:
  assumes "\<forall>p \<in> set (procs s). p = None"
  shows "stuck (flow_step cap prog) s"
proof -
  have "\<not> runs_as s i x t" for i x t using assms nth_mem by (fastforce simp: runs_as_def)
  then show ?thesis unfolding stuck_def by (auto elim: flow_step.cases)
qed

text \<open>What a process of a stuck job waits for: its neighbour on the left or the one on the right.\<close>

definition waits_to_read :: "'p flow \<Rightarrow> nat \<Rightarrow> bool" where
  "waits_to_read s i \<longleftrightarrow> (\<exists>m x t. Suc m = i \<and> in_transit s m = [] \<and> runs_as s m x t)"

definition waits_to_write :: "nat \<Rightarrow> 'p flow \<Rightarrow> nat \<Rightarrow> bool" where
  "waits_to_write cap s i \<longleftrightarrow> cap \<le> length (in_transit s i) \<and> (\<exists>x t. runs_as s (Suc i) x t)"

lemma held_by_neighbour:
  assumes "flow_ok s"
  shows "is_held s (Pipe_W m) \<Longrightarrow> \<exists>x t. runs_as s m x t" and "is_held s (Pipe_R m) \<Longrightarrow> \<exists>x t. runs_as s (Suc m) x t"
proof -
  have own: "(slots t n = Some (Pipe_W m) \<longrightarrow> m = i) \<and> (slots t n = Some (Pipe_R m) \<longrightarrow> Suc m = i)"
    if "runs_as s i x t" for i x t n
    using flow_ok_runs [OF assms that] by (simp add: own_ends_def)
  show "is_held s (Pipe_W m) \<Longrightarrow> \<exists>x t. runs_as s m x t" using own by (fastforce simp: is_held_def)
  show "is_held s (Pipe_R m) \<Longrightarrow> \<exists>x t. runs_as s (Suc m) x t"
    using own by (fastforce simp: is_held_def)
qed

lemma stuck_waits:
  assumes "flow_ok s" "stuck (flow_step cap prog) s" "runs_as s i x t"
  shows "waits_to_read s i \<or> waits_to_write cap s i"
proof -
  have none: "\<not> flow_step cap prog s s'" for s' using assms(2) by (simp add: stuck_def)
  note own = flow_ok_runs [OF assms(1,3)]
  show ?thesis
  proof (cases "prog x")
    case (Read_Fd n f)
    then obtain m where m: "slots t n = Some (Pipe_R m)" using none read_other [where cap = cap and prog = prog, OF assms(3) Read_Fd] by blast
    have "in_transit s m = []"
      using none read_char [where cap = cap and prog = prog, OF assms(3) Read_Fd m] by (cases "in_transit s m") blast+
    moreover from this have "is_held s (Pipe_W m)" using none read_eof [where cap = cap and prog = prog, OF assms(3) Read_Fd m] by blast
    moreover have "Suc m = i" using own m by (simp add: own_ends_def)
    ultimately have "waits_to_read s i" using held_by_neighbour(1) [OF assms(1)] unfolding waits_to_read_def by blast
    then show ?thesis ..
  next
    case (Write_Fd n c x1)
    then obtain m where m: "slots t n = Some (Pipe_W m)" using none write_other [where cap = cap and prog = prog, OF assms(3) Write_Fd] by blast
    have h: "is_held s (Pipe_R m)" using none write_broken [where cap = cap and prog = prog, OF assms(3) Write_Fd m] by blast
    then have "cap \<le> length (in_transit s m)" using none write_char [where cap = cap and prog = prog, OF assms(3) Write_Fd m h] by (meson not_less)
    moreover have "m = i" using own m by (auto simp: own_ends_def)
    ultimately show ?thesis using held_by_neighbour(2) [OF assms(1) h] by (auto simp: waits_to_write_def)
  next
    case (Close_Fd n x1)
    then show ?thesis using none close_it [where cap = cap and prog = prog, OF assms(3)] by blast
  next
    case Halt
    then show ?thesis using none halt [where cap = cap and prog = prog, OF assms(3)] by blast
  qed
qed

text \<open>
  The leftmost process cannot wait for one on its left, and who waits to write waits for one that
  has something to read; so all to the right of it wait to write, also the last one.
\<close>

lemma stuck_ended:
  assumes "flow_ok s" "stuck (flow_step cap prog) s" "0 < cap"
  shows "\<not> runs_as s i x t"
proof
  assume "runs_as s i x t"
  then have "\<exists>i. \<exists>x t. runs_as s i x t" by blast
  from iffD1 [OF exists_least_iff this] obtain i where
    i: "\<exists>x t. runs_as s i x t" "\<And>m. m < i \<Longrightarrow> \<not> (\<exists>x t. runs_as s m x t)" by blast
  have "\<not> waits_to_read s i" using i(2) by (auto simp: waits_to_read_def)
  then have first: "waits_to_write cap s i" using stuck_waits [OF assms(1,2)] i(1) by blast
  have "waits_to_write cap s (i + n)" for n
  proof (induction n)
    case 0
    then show ?case using first by simp
  next
    case (Suc n)
    then have "in_transit s (i + n) \<noteq> []" "\<exists>x t. runs_as s (Suc (i + n)) x t"
      using assms(3) by (auto simp: waits_to_write_def)
    then show ?case using stuck_waits [OF assms(1,2), of "Suc (i + n)"] by (auto simp: waits_to_read_def)
  qed
  from this [of "length (procs s)"] show False by (auto simp: waits_to_write_def runs_as_def)
qed

section \<open>The job of the shell\<close>

lemma stage_own_ends:
  assumes "stage env h L cs k feeds = Runs argv t"
  shows "own_ends k t"
proof -
  obtain p q where "handleCommandList env cs p q (stage_table L k feeds) h = Inr (Execs argv t)"
    using assms
    by (auto simp: stage_def child_process_def stage_table_def Let_def split: sum.splits command_end.splits if_splits)
  note sub = handleCommandList_pipe_ends [OF this]
  have f: "f \<in> pipe_ends (stage_table L k feeds)" if "slots t n = Some f" "f = Pipe_W m \<or> f = Pipe_R m" for f n m
    using that sub by (auto simp: pipe_ends_def)
  show ?thesis
    unfolding own_ends_def
  proof (intro allI conjI impI)
    fix n m
    show "m = k" if "slots t n = Some (Pipe_W m)"
      using f [OF that] by (auto simp: pipe_ends_def stage_table_slots split: if_splits)
    show "Suc m = k" if "slots t n = Some (Pipe_R m)"
      using f [OF that] by (auto simp: pipe_ends_def stage_table_slots split: if_splits)
  qed
qed

lemma flow_start_ok:
  assumes "6 \<le> L" "interpretSimpleList env h (Some (a, sl)) (std_table L) = (st, t', ch)"
  shows "flow_ok (flow_start load ch)"
proof -
  have own: "own_ends k t" if k: "k < length ch" "ch ! k = Runs argv t" for k argv t
    using job_children [OF assms k(1)] stage_own_ends k(2) by metis
  show ?thesis
    unfolding flow_ok_def
  proof (intro allI impI)
    fix i x t
    assume "runs_as (flow_start load ch) i x t"
    then have "i < length ch" "loaded load (ch ! i) = Some (x, t)" by (auto simp: runs_as_def flow_start_def)
    then show "own_ends i t" using own by (cases "ch ! i") (simp_all add: loaded_def)
  qed
qed

text \<open>
  C13. A pipeline never deadlocks. Whatever the programs of a job do with their descriptors, whatever
  order they run in, however small the pipes are, and whatever calls of the job have failed: when
  the programs of a job, of any length, can go on no further, they have all ended. None waits for
  an end of file that cannot come, because somebody has kept the write end of a pipe, nor to write
  to a pipe that nobody reads.
\<close>

theorem pipeline_never_deadlocks:
  assumes "6 \<le> L" "interpretSimpleList env h (Some (a, sl)) (std_table L) = (st, t', ch)" "0 < cap"
    and "run (flow_step cap prog) m (flow_start load ch) s" "stuck (flow_step cap prog) s"
  shows "\<forall>p \<in> set (procs s). p = None"
proof -
  have "flow_ok s" using flow_ok_run [OF assms(4) flow_start_ok [OF assms(1,2)]] .
  then have none: "\<not> runs_as s i x t" for i x t by (rule stuck_ended [OF _ assms(5,3)])
  show ?thesis
  proof
    fix p
    assume "p \<in> set (procs s)"
    then obtain i where i: "i < length (procs s)" "procs s ! i = p" by (auto simp: in_set_conv_nth)
    show "p = None"
    proof (cases p)
      case (Some xt)
      then show ?thesis using none [of i "fst xt" "snd xt"] i by (simp add: runs_as_def)
    qed simp
  qed
qed

text \<open>A program that writes one character and one that reads one, in a job of two commands.\<close>

definition sample_prog :: "nat \<Rightarrow> nat action" where
  "sample_prog x = (if x = 0 then Write_Fd 1 CHR ''x'' 2 else if x = 1 then Read_Fd 0 (\<lambda>c. 2) else Halt)"

definition sample_load :: "string list \<Rightarrow> nat" where
  "sample_load argv = (if argv = [''ls''] then 0 else 1)"

lemma sample_job:
  obtains st ch t u where "interpretSimpleList calm_env (new_heap (\<lambda>k n. True)) (Some (0, word_pipeline [''ls'', ''wc'']))
       (std_table 16) = (st, std_table 16, ch)" "ch = [Runs [''ls''] t, Runs [''wc''] u]"
    "slots t 1 = Some (Pipe_W 0)" "slots u 0 = Some (Pipe_R 0)"
proof -
  let ?cs = "[[Word ''ls''], [Word ''wc'']]" and ?sl = "word_pipeline [''ls'', ''wc'']" and ?h = "new_heap (\<lambda>k n. True)"
  have cs: "abs_pipeline (simple_command_list (pipeline ?sl)) = Some ?cs" "wf_pipeline ?cs"
    by (simp_all add: word_pipeline_def element_of_word_def abs_elem_def wf_pipeline_def word_chars_eval cstr_def NUL_def)
  note wired = pipeline_wired [OF smooth_calm generous_new heap_ok_new cs, where a = 0 and L = 16]
  have f: "files_ok calm_env (?cs ! k)" "exec_ok calm_env p" if "k < 2" for k p
    using that by (auto simp: files_ok_def calm_env_def less_2_cases_iff)
  obtain st ch t where a: "interpretSimpleList calm_env ?h (Some (0, ?sl)) (std_table 16) = (st, std_table 16, ch)"
    "length ch = 2" "ch ! 0 = Runs [''ls''] t" "slots t 1 = Some (Pipe_W 0)"
    using wired [of 0] f [of 0] by auto
  moreover obtain u where "ch ! 1 = Runs [''wc''] u" "slots u 0 = Some (Pipe_R 0)"
    using wired [of 1] f [of 1] a(1) by auto
  moreover have "ch = [ch ! 0, ch ! 1]" using a(2) by (intro nth_equalityI) (auto simp: less_2_cases_iff)
  ultimately show thesis using that [of st ch t u] by simp
qed

theorem pipeline_never_deadlocks_witness:
  "\<exists>st ch s. interpretSimpleList calm_env (new_heap (\<lambda>k n. True)) (Some (0, word_pipeline [''ls'', ''wc'']))
       (std_table 16) = (st, std_table 16, ch) \<and>
     run (flow_step 1 sample_prog) 4 (flow_start sample_load ch) s \<and> (\<forall>p \<in> set (procs s). p = None)"
proof -
  obtain st ch t u where j: "interpretSimpleList calm_env (new_heap (\<lambda>k n. True)) (Some (0, word_pipeline [''ls'', ''wc'']))
       (std_table 16) = (st, std_table 16, ch)" "ch = [Runs [''ls''] t, Runs [''wc''] u]"
    "slots t 1 = Some (Pipe_W 0)" "slots u 0 = Some (Pipe_R 0)"
    by (rule sample_job)
  let ?q = "\<lambda>m. [] :: string"
  let ?s0 = "\<lparr>procs = [Some (0, t), Some (1, u)], in_transit = ?q\<rparr>"
  let ?s1 = "\<lparr>procs = [Some (2, t), Some (1, u)], in_transit = ?q(0 := ''x'')\<rparr>"
  let ?s2 = "\<lparr>procs = [None, Some (1, u)], in_transit = ?q(0 := ''x'')\<rparr>"
  let ?s3 = "\<lparr>procs = [None, Some (2, u)], in_transit = ?q\<rparr>"
  let ?s4 = "\<lparr>procs = [None, None], in_transit = ?q\<rparr> :: nat flow"
  let ?step = "flow_step 1 sample_prog"
  have start: "flow_start sample_load ch = ?s0" by (simp add: flow_start_def loaded_def sample_load_def j(2))
  have held: "is_held ?s0 (Pipe_R 0)"
    unfolding is_held_def using j(4) by (intro exI [of _ 1] exI [of _ u] exI [of _ 0]) (simp add: runs_as_def)
  have "?step ?s0 ?s1"
    using write_char [OF _ _ _ held, of 0 0 t sample_prog 1 "CHR ''x''" 2 1] j(3)
    by (simp add: runs_as_def sample_prog_def goes_to_def)
  moreover have "?step ?s1 ?s2"
    using halt [of ?s1 0 2 t sample_prog 1] by (simp add: runs_as_def sample_prog_def goes_to_def)
  moreover have "(\<lambda>m :: nat. [] :: string)(0 := []) = ?q" by (simp add: fun_eq_iff)
  then have "?step ?s2 ?s3"
    using read_char [of ?s2 1 1 u sample_prog 0 "\<lambda>c. 2" 0 "CHR ''x''" "[]" 1] j(4)
    by (simp add: runs_as_def sample_prog_def goes_to_def)
  moreover have "?step ?s3 ?s4"
    using halt [of ?s3 1 2 u sample_prog 1] by (simp add: runs_as_def sample_prog_def goes_to_def)
  ultimately have r: "run ?step (Suc (Suc (Suc (Suc 0)))) (flow_start sample_load ch) ?s4"
    unfolding start by (blast intro: run.intros)
  have "stuck ?step ?s4" by (rule ended_stuck) simp
  then have d: "\<forall>p \<in> set (procs ?s4). p = None"
    by (intro pipeline_never_deadlocks [OF _ j(1) _ r]) simp_all
  have "Suc (Suc (Suc (Suc 0))) = 4" by simp
  with r have "run ?step 4 (flow_start sample_load ch) ?s4" by (simp only:)
  with d j(1) show ?thesis by blast
qed

end
