(* ===== verification/DynamicString.thy ===== *)
theory DynamicString
  imports Growable
begin

text \<open>
  The dynamic string of an earlier version of the shell (Lab2/depricated/DynamicString.c): a
  block of characters that doubles when it is full. It satisfies the same contract as the byte
  array that replaced it (theory Growable).
\<close>

record DynamicString =
  ds_block :: nat
  string_block :: nat
  string_chars :: "char option list"
  ds_length :: "64 word"
  ds_capacity :: "64 word"

definition DYNAMIC_STRING_START_LENGTH :: "64 word" where
  "DYNAMIC_STRING_START_LENGTH = 16"

definition sizeof_DynamicString :: nat where
  "sizeof_DynamicString = 24"

definition makeDynamicString :: "heap \<Rightarrow> (DynamicString option \<times> heap) res" where
  "makeDynamicString h =
     (case malloc sizeof_DynamicString h of
        (None, h1) \<Rightarrow> Inr (None, h1)
      | (Some a, h1) \<Rightarrow>
          (case malloc (unat (DYNAMIC_STRING_START_LENGTH * 1)) h1 of
             (None, h2) \<Rightarrow> bind_res (mfree (Some a) h2) (\<lambda>h3. Inr (None, h3))
           | (Some b, h2) \<Rightarrow>
               Inr (Some \<lparr>ds_block = a, string_block = b,
                          string_chars = replicate (unat DYNAMIC_STRING_START_LENGTH) None,
                          ds_length = 0, ds_capacity = DYNAMIC_STRING_START_LENGTH\<rparr>, h2)))"

text \<open>\<open>realloc\<close> keeps the characters that fit and leaves the new ones indeterminate.\<close>

definition resize_chars :: "nat \<Rightarrow> char option list \<Rightarrow> char option list" where
  "resize_chars n cs = take n cs @ replicate (n - length cs) None"

text \<open>The last step of the append: \<open>string[length] = c; ++length\<close>.\<close>

definition store_char :: "DynamicString \<Rightarrow> char \<Rightarrow> DynamicString res" where
  "store_char d c =
     (if unat (ds_length d) < length (string_chars d)
      then Inr (d\<lparr>string_chars := (string_chars d)[unat (ds_length d) := Some c], ds_length := ds_length d + 1\<rparr>)
      else Inl Out_Of_Bounds)"

definition appendCharToDynString :: "DynamicString option \<Rightarrow> char \<Rightarrow> heap
    \<Rightarrow> (int \<times> DynamicString option \<times> heap) res" where
  "appendCharToDynString dynString c h =
     (case dynString of
        None \<Rightarrow> Inr (-1, None, h)
      | Some d \<Rightarrow>
          if ds_capacity d \<le> ds_length d
          then bind_res (crealloc (string_block d) (unat (ds_capacity d * 2)) h) (\<lambda>(p, h1).
                 case p of
                   None \<Rightarrow> Inr (-1, Some d, h1)
                 | Some b \<Rightarrow>
                     bind_res (store_char
                       (d\<lparr>string_block := b, string_chars := resize_chars (unat (ds_capacity d * 2)) (string_chars d),
                          ds_capacity := ds_capacity d * 2\<rparr>) c) (\<lambda>d1. Inr (0, Some d1, h1)))
          else bind_res (store_char d c) (\<lambda>d1. Inr (0, Some d1, h)))"

section \<open>The laws of a growable array\<close>

definition ds_inv :: "DynamicString \<Rightarrow> bool" where
  "ds_inv d \<longleftrightarrow> 0 < ds_capacity d \<and> ds_length d \<le> ds_capacity d \<and> unat (ds_capacity d) < 2 ^ 63 \<and>
     length (string_chars d) = unat (ds_capacity d) \<and> ds_block d \<noteq> string_block d"

definition ds_contents :: "DynamicString \<Rightarrow> string" where
  "ds_contents d = map (\<lambda>x. case x of None \<Rightarrow> NUL | Some c \<Rightarrow> c) (take (unat (ds_length d)) (string_chars d))"

definition ds_owned :: "DynamicString \<Rightarrow> nat set" where
  "ds_owned d = {ds_block d, string_block d}"

lemma length_ds_contents: "ds_inv d \<Longrightarrow> length (ds_contents d) = unat (ds_length d)"
  by (simp add: ds_inv_def ds_contents_def word_le_nat_alt)

lemma unat_double: "unat a < 2 ^ 63 \<Longrightarrow> unat (a * 2 :: 64 word) = 2 * unat a"
  by (simp add: unat_word_ariths)

lemma store_char_room:
  assumes "ds_inv d" "ds_length d < ds_capacity d"
  shows "\<exists>d'. store_char d c = Inr d' \<and> ds_inv d' \<and> ds_contents d' = ds_contents d @ [c] \<and>
    ds_owned d' = ds_owned d"
proof -
  have l: "unat (ds_length d) < length (string_chars d)"
    using assms by (simp add: ds_inv_def word_less_nat_alt)
  have s: "unat (ds_length d + 1) = Suc (unat (ds_length d))" using assms(2) by (rule unat_Suc_less)
  have "ds_length d + 1 \<le> ds_capacity d" using assms(2) s by (simp add: word_le_nat_alt word_less_nat_alt)
  then show ?thesis
    using assms(1) l by (simp add: store_char_def ds_inv_def ds_contents_def ds_owned_def s
        take_Suc_conv_app_nth)
qed

lemma append_cases:
  assumes inv: "ds_inv d" and ok: "heap_ok h" and own: "ds_owned d \<subseteq> live h"
  obtains (refused) h' where "appendCharToDynString (Some d) c h = Inr (-1, Some d, h')"
      "own_step (ds_owned d) h (ds_owned d) h'" "\<not> granted (2 * length (ds_contents d)) h"
  | (stored) d' h' where "appendCharToDynString (Some d) c h = Inr (0, Some d', h')" "ds_inv d'"
      "ds_contents d' = ds_contents d @ [c]" "own_step (ds_owned d) h (ds_owned d') h'"
proof (cases "ds_capacity d \<le> ds_length d")
  case False
  then have "ds_length d < ds_capacity d" by simp
  from store_char_room [OF inv this, of c] obtain d' where
    "store_char d c = Inr d'" "ds_inv d'" "ds_contents d' = ds_contents d @ [c]" "ds_owned d' = ds_owned d"
    by blast
  then show thesis using False own by (intro stored [of d' h]) (simp_all add: appendCharToDynString_def own_step_refl)
next
  case True
  then have full: "ds_length d = ds_capacity d" using inv by (simp add: ds_inv_def)
  let ?n = "2 * unat (ds_capacity d)"
  have n: "unat (ds_capacity d * 2) = ?n" using inv by (intro unat_double) (simp add: ds_inv_def)
  have pos: "?n \<noteq> 0" using inv by (simp add: ds_inv_def word_less_nat_alt)
  have bl: "string_block d \<in> live h" "ds_block d \<in> live h" "ds_block d \<noteq> string_block d"
    using own inv by (auto simp: ds_owned_def ds_inv_def)
  have len: "length (ds_contents d) = unat (ds_capacity d)" using length_ds_contents [OF inv] full by simp
  show thesis
  proof (cases "granted ?n h")
    case False
    then show thesis
      using True bl pos len own
      by (intro refused [of "h\<lparr>fresh := Suc (fresh h)\<rparr>"])
        (auto simp: appendCharToDynString_def crealloc_def n own_step_def heap_le_def heap_ok_def less_SucI)
  next
    case granted: True
    let ?d = "d\<lparr>string_block := fresh h, string_chars := resize_chars ?n (string_chars d), ds_capacity := ds_capacity d * 2\<rparr>"
    let ?h = "h\<lparr>live := insert (fresh h) (live h - {string_block d}), fresh := Suc (fresh h)\<rparr>"
    have small: "?n < 2 ^ 63" using granted by (simp add: granted_def)
    have cap: "ds_length d < ds_capacity d * 2"
      using full pos n by (simp add: word_less_nat_alt)
    have fresh: "ds_block d \<noteq> fresh h" using bl ok by (auto simp: heap_ok_def)
    have inv': "ds_inv ?d"
      using inv small n cap fresh less_imp_le [OF cap] pos
      by (simp add: ds_inv_def resize_chars_def word_less_nat_alt)
    have c: "ds_contents ?d = ds_contents d"
      using inv full by (simp add: ds_contents_def resize_chars_def ds_inv_def)
    obtain d' where d': "store_char ?d c = Inr d'" "ds_inv d'" "ds_contents d' = ds_contents d @ [c]"
      "ds_owned d' = ds_owned ?d"
      using store_char_room [OF inv', of c] cap c by auto
    have "own_step (ds_owned d) h (ds_owned ?d) ?h"
      using bl ok by (auto simp: own_step_def heap_le_def heap_ok_def ds_owned_def less_SucI)
    then show thesis
      using True bl pos granted d' n
      by (intro stored [of d' ?h]) (simp_all add: appendCharToDynString_def crealloc_def)
  qed
qed

definition ds_owned_opt :: "DynamicString option \<Rightarrow> nat set" where
  "ds_owned_opt x = (case x of None \<Rightarrow> {} | Some d \<Rightarrow> ds_owned d)"

definition ds_contents_opt :: "DynamicString option \<Rightarrow> string" where
  "ds_contents_opt x = (case x of None \<Rightarrow> [] | Some d \<Rightarrow> ds_contents d)"

definition ds_inv_opt :: "DynamicString option \<Rightarrow> bool" where
  "ds_inv_opt x = (case x of None \<Rightarrow> False | Some d \<Rightarrow> ds_inv d)"

definition ds_small :: "DynamicString option \<Rightarrow> nat \<Rightarrow> bool" where
  "ds_small x n \<longleftrightarrow> n < 2 ^ 62"

lemmas ds_opt_defs = ds_owned_opt_def ds_contents_opt_def ds_inv_opt_def ds_small_def

interpretation ds: growable appendCharToDynString ds_contents_opt ds_owned_opt "\<lambda>x c. True" ds_small ds_inv_opt
proof (unfold_locales, goal_cases)
  case (1 s e h)
  then obtain d where d: "s = Some d" "ds_inv d" "ds_owned d \<subseteq> live h" by (auto simp: ds_opt_defs split: option.splits)
  show ?case unfolding d(1) by (rule append_cases [OF d(2) 1(3) d(3), of e]) auto
next
  case (2 s e h r s' h')
  then obtain d where d: "s = Some d" "ds_inv d" "ds_owned d \<subseteq> live h" by (auto simp: ds_opt_defs split: option.splits)
  show ?case
    by (rule append_cases [OF d(2) 2(4) d(3), of e]) (use 2(1) d in \<open>auto simp: ds_opt_defs fun_eq_iff\<close>)
next
  case (3 s e h r s' h')
  then obtain d where d: "s = Some d" "ds_inv d" "ds_owned d \<subseteq> live h" by (auto simp: ds_opt_defs split: option.splits)
  show ?case by (rule append_cases [OF d(2) 3(4) d(3), of e]) (use 3(1) d in \<open>auto simp: ds_opt_defs\<close>)
next
  case (4 s e h r s' h')
  then obtain d where d: "s = Some d" "ds_inv d" "ds_owned d \<subseteq> live h" by (auto simp: ds_opt_defs split: option.splits)
  show ?case by (rule append_cases [OF d(2) 4(4) d(3), of e]) (use 4(1) d in \<open>auto simp: ds_opt_defs\<close>)
next
  case (5 s e h r s' h')
  then obtain d where d: "s = Some d" "ds_inv d" "ds_owned d \<subseteq> live h" by (auto simp: ds_opt_defs split: option.splits)
  have g: "granted (2 * length (ds_contents d)) h" using 5(6,7) d(1) by (simp add: ds_opt_defs)
  show ?case by (rule append_cases [OF d(2) 5(4) d(3), of e]) (use 5(1) d g in auto)
next
  case (6 s n m)
  then show ?case by (simp add: ds_small_def)
qed

lemma makeDynamicString_generous:
  assumes "generous h" "heap_ok h"
  obtains d h' where "makeDynamicString h = Inr (Some d, h')" "ds_inv d" "ds_contents d = []"
    "own_step {} h (ds_owned d) h'"
proof -
  obtain a h1 where m1: "malloc sizeof_DynamicString h = (Some a, h1)"
    using malloc_generous [OF assms(1)] by (simp add: sizeof_DynamicString_def)
  note a = malloc_Some [OF m1]
  have g1: "generous h1" using a(3) assms(1) heap_le_generous by blast
  obtain b h2 where m2: "malloc 16 h1 = (Some b, h2)" using malloc_generous [OF g1, of 16] by simp
  note b = malloc_Some [OF m2]
  show thesis
    using a b m1 m2 assms(2) heap_le_trans [OF a(3) b(3)]
    by (intro that [of "\<lparr>ds_block = a, string_block = b, string_chars = replicate 16 None, ds_length = 0, ds_capacity = 16\<rparr>" h2])
      (auto simp: makeDynamicString_def DYNAMIC_STRING_START_LENGTH_def ds_inv_def ds_contents_def ds_owned_def
        own_step_def heap_ok_def)
qed

section \<open>Properties\<close>

text \<open>
  A dynamic string holds what was appended to it: with memory granted, making one and
  appending any number of characters never leaves the block, and the string then holds exactly
  these characters; it owns two blocks and no other block of the heap has changed.
\<close>

theorem dynamic_string_holds:
  assumes "generous h" "heap_ok h" "length cs < 2 ^ 61"
  shows "\<exists>d h1 d' h2. makeDynamicString h = Inr (Some d, h1) \<and>
    push_all appendCharToDynString (Some d) cs h1 = Inr (Some d', h2) \<and> ds_contents d' = cs \<and>
    live h2 = ds_owned d' \<union> live h"
proof -
  obtain d h1 where d: "makeDynamicString h = Inr (Some d, h1)" "ds_inv d" "ds_contents d = []"
    "own_step {} h (ds_owned d) h1"
    using makeDynamicString_generous [OF assms(1,2)] .
  have pre: "ds_inv_opt (Some d)" "heap_ok h1" "ds_owned_opt (Some d) \<subseteq> live h1" "generous h1"
    "ds_small (Some d) (length (ds_contents_opt (Some d)) + length cs)"
    using d assms heap_le_ok heap_le_generous by (auto simp: ds_opt_defs own_step_def)
  obtain x h2 where x: "push_all appendCharToDynString (Some d) cs h1 = Inr (x, h2)"
    "ds_contents_opt x = ds_contents_opt (Some d) @ cs" "ds_inv_opt x"
    "own_step (ds_owned_opt (Some d)) h1 (ds_owned_opt x) h2"
    using ds.push_all_generous [OF pre(1) _ pre(2,3,4,5)] by auto
  then obtain d' where d': "x = Some d'" by (auto simp: ds_inv_opt_def split: option.splits)
  have "own_step {} h (ds_owned d') h2"
    using own_step_trans [OF d(4)] x(4) d' by (simp add: ds_owned_opt_def)
  then have "live h2 = ds_owned d' \<union> live h" using own_step_live by fastforce
  then show ?thesis using d(1,3) x(1,2) d' by (simp add: ds_contents_opt_def)
qed

theorem dynamic_string_holds_witness:
  "\<exists>d h1 d' h2. makeDynamicString (new_heap (\<lambda>k n. True)) = Inr (Some d, h1) \<and>
    push_all appendCharToDynString (Some d) ''a rather long line'' h1 = Inr (Some d', h2) \<and>
    ds_contents d' = ''a rather long line'' \<and> live h2 = ds_owned d'"
  using dynamic_string_holds [OF generous_new heap_ok_new, of "''a rather long line''"] by simp

end
