(* ===== verification/PointerArray.thy ===== *)
theory PointerArray
  imports Growable
begin

text \<open>
  The two dynamic arrays of pointers: the one of Lab1 (Lab1/DynamicArray.c, here with the prefix
  \<open>LAB1\<close>) and its successor in Lab2 (Lab2/depricated/DynamicArray.c, prefix \<open>DYNARR\<close>). Both keep
  elements of eight bytes in a block whose size in bytes is \<open>elems_bytes\<close>; a write beyond it is
  \<open>Out_Of_Bounds\<close>. The successor is a growable array in the sense of theory Growable; the first
  one asks for too few bytes when it grows.
\<close>

record 'e pointer_array =
  arr_block :: nat
  elems_block :: "nat option"
  elems :: "'e option list"
  elems_bytes :: nat
  arr_size :: "64 word"
  arr_capacity :: "64 word"
  elemDestructorFunc :: "('e \<Rightarrow> heap \<Rightarrow> heap res) option"

definition DYNARR_INITSIZE :: "64 word" where
  "DYNARR_INITSIZE = 16"

definition sizeof_DynamicArray :: nat where
  "sizeof_DynamicArray = 32"

text \<open>\<open>arr->elems[arr->size] = elem; ++arr->size\<close>.\<close>

definition store_elem :: "'e pointer_array \<Rightarrow> 'e \<Rightarrow> 'e pointer_array res" where
  "store_elem arr e =
     (if elems_block arr = None then Inl Null_Deref
      else if elems_bytes arr < 8 * unat (arr_size arr) + 8 then Inl Out_Of_Bounds
      else Inr (arr\<lparr>elems := (elems arr)[unat (arr_size arr) := Some e], arr_size := arr_size arr + 1\<rparr>))"

text \<open>The block after a \<open>realloc\<close> to n bytes: the elements that fit wholly stay.\<close>

definition resized :: "nat \<Rightarrow> nat \<Rightarrow> 'e pointer_array \<Rightarrow> 'e pointer_array" where
  "resized b n arr = arr\<lparr>elems_block := Some b, elems_bytes := n,
     elems := take (n div 8) (elems arr) @ replicate (n div 8 - length (elems arr)) None\<rparr>"

definition realloc_elems :: "'e pointer_array \<Rightarrow> nat \<Rightarrow> heap \<Rightarrow> (nat option \<times> heap) res" where
  "realloc_elems arr n h =
     (case elems_block arr of None \<Rightarrow> Inr (malloc n h) | Some b \<Rightarrow> crealloc b n h)"

text \<open>The loop of both destructors over the elements.\<close>

fun destroy_elems :: "('e \<Rightarrow> heap \<Rightarrow> heap res) \<Rightarrow> 'e option list \<Rightarrow> heap \<Rightarrow> heap res" where
  "destroy_elems f [] h = Inr h"
| "destroy_elems f (None # es) h = Inl Uninit_Read"
| "destroy_elems f (Some e # es) h = bind_res (f e h) (\<lambda>h1. destroy_elems f es h1)"

section \<open>The array of Lab1\<close>

definition LAB1_makeNewArray :: "64 word \<Rightarrow> ('e \<Rightarrow> heap \<Rightarrow> heap res) option \<Rightarrow> heap
    \<Rightarrow> ('e pointer_array \<times> heap) res" where
  "LAB1_makeNewArray elemSize f h =
     (case malloc sizeof_DynamicArray h of
        (None, h1) \<Rightarrow> Inl Null_Deref
      | (Some a, h1) \<Rightarrow>
          (case malloc (unat (DYNARR_INITSIZE * elemSize)) h1 of (p, h2) \<Rightarrow>
             Inr (\<lparr>arr_block = a, elems_block = p,
                   elems = replicate (unat (DYNARR_INITSIZE * elemSize) div 8) None,
                   elems_bytes = unat (DYNARR_INITSIZE * elemSize), arr_size = 0,
                   arr_capacity = DYNARR_INITSIZE, elemDestructorFunc = f\<rparr>, h2)))"

definition LAB1_destroyArray :: "'e pointer_array \<Rightarrow> heap \<Rightarrow> heap res" where
  "LAB1_destroyArray arr h =
     bind_res
       (case elemDestructorFunc arr of
          None \<Rightarrow> if arr_size arr = 0 then Inr h else Inl Null_Deref
        | Some f \<Rightarrow> destroy_elems f (take (unat (arr_size arr)) (elems arr)) h) (\<lambda>h1.
     bind_res (mfree (elems_block arr) h1) (\<lambda>h2. mfree (Some (arr_block arr)) h2))"

definition LAB1_resizeArr :: "'e pointer_array \<Rightarrow> 64 word \<Rightarrow> heap \<Rightarrow> ('e pointer_array \<times> heap) res" where
  "LAB1_resizeArr arr newCapacity h =
     bind_res (realloc_elems arr (unat newCapacity) h) (\<lambda>(p, h1).
       case p of
         None \<Rightarrow> Inr (arr, h1)
       | Some b \<Rightarrow> Inr ((resized b (unat newCapacity) arr)\<lparr>arr_capacity := newCapacity\<rparr>, h1))"

definition LAB1_addElem :: "'e pointer_array \<Rightarrow> 'e \<Rightarrow> heap \<Rightarrow> ('e pointer_array \<times> heap) res" where
  "LAB1_addElem arr e h =
     bind_res
       (if arr_size arr = arr_capacity arr then LAB1_resizeArr arr (2 * arr_size arr) h else Inr (arr, h))
       (\<lambda>(arr1, h1). bind_res (store_elem arr1 e) (\<lambda>arr2. Inr (arr2, h1)))"

text \<open>Adding several elements.\<close>

fun LAB1_addAll :: "'e pointer_array \<Rightarrow> 'e list \<Rightarrow> heap \<Rightarrow> ('e pointer_array \<times> heap) res" where
  "LAB1_addAll arr [] h = Inr (arr, h)"
| "LAB1_addAll arr (e # es) h = bind_res (LAB1_addElem arr e h) (\<lambda>(arr1, h1). LAB1_addAll arr1 es h1)"

definition array_contents :: "'e pointer_array \<Rightarrow> 'e option list" where
  "array_contents arr = take (unat (arr_size arr)) (elems arr)"

text \<open>An array of Lab1 that has not grown yet.\<close>

definition lab1_young :: "'e pointer_array \<Rightarrow> heap \<Rightarrow> bool" where
  "lab1_young arr h \<longleftrightarrow> (\<exists>b. elems_block arr = Some b \<and> b \<in> live h) \<and> elems_bytes arr = 128 \<and>
     length (elems arr) = 16 \<and> arr_capacity arr = 16 \<and> arr_size arr \<le> 16"

lemma lab1_young_size: "lab1_young arr h \<Longrightarrow> unat (arr_size arr) \<le> 16"
  by (auto simp: lab1_young_def word_le_nat_alt)

lemma lab1_add_young:
  assumes "lab1_young arr h" "arr_size arr \<noteq> 16"
  shows "\<exists>arr'. LAB1_addElem arr e h = Inr (arr', h) \<and> lab1_young arr' h \<and>
    array_contents arr' = array_contents arr @ [Some e] \<and> arr_block arr' = arr_block arr \<and>
    elems_block arr' = elems_block arr \<and> elemDestructorFunc arr' = elemDestructorFunc arr"
proof -
  have lt: "arr_size arr < 16" using assms by (simp add: lab1_young_def order_less_le)
  then have n: "unat (arr_size arr) < 16" by (simp add: word_less_nat_alt)
  have s: "unat (arr_size arr + 1) = Suc (unat (arr_size arr))" using lt by (rule unat_Suc_less)
  have "arr_size arr + 1 \<le> 16" using n s by (simp add: word_le_nat_alt)
  then show ?thesis
    using assms n s by (auto simp: LAB1_addElem_def store_elem_def lab1_young_def array_contents_def
        take_Suc_conv_app_nth)
qed

lemma lab1_add_full:
  assumes "lab1_young arr h" "arr_size arr = 16"
  shows "LAB1_addElem arr e h = Inl Out_Of_Bounds"
proof -
  obtain b where b: "elems_block arr = Some b" "b \<in> live h" using assms(1) by (auto simp: lab1_young_def)
  have n: "unat (2 * arr_size arr) = 32" using assms(2) by simp
  show ?thesis
    using assms b
    by (cases "granted 32 h")
      (simp_all add: LAB1_addElem_def LAB1_resizeArr_def realloc_elems_def crealloc_def n resized_def
        store_elem_def lab1_young_def)
qed

lemma lab1_addAll_young:
  assumes "lab1_young arr h"
  shows "if unat (arr_size arr) + length es \<le> 16
         then \<exists>arr'. LAB1_addAll arr es h = Inr (arr', h) \<and> array_contents arr' = array_contents arr @ map Some es
         else LAB1_addAll arr es h = Inl Out_Of_Bounds"
  using assms
proof (induction es arbitrary: arr)
  case Nil
  then show ?case using lab1_young_size [of arr h] by simp
next
  case (Cons e es)
  show ?case
  proof (cases "arr_size arr = 16")
    case True
    then show ?thesis using lab1_add_full [OF Cons.prems True, of e] by simp
  next
    case False
    obtain arr' where a: "LAB1_addElem arr e h = Inr (arr', h)" "lab1_young arr' h"
      "array_contents arr' = array_contents arr @ [Some e]"
      using lab1_add_young [OF Cons.prems False] by blast
    have "unat (arr_size arr') = Suc (unat (arr_size arr))"
      using arg_cong [OF a(3), of length] a(2) Cons.prems lab1_young_size [OF a(2)] lab1_young_size [OF Cons.prems]
      by (simp add: array_contents_def lab1_young_def)
    then show ?thesis using Cons.IH [OF a(2)] a(1,3) by (auto split: if_splits)
  qed
qed

lemma lab1_make_young:
  assumes "generous h"
  obtains arr h1 where "LAB1_makeNewArray 8 f h = Inr (arr, h1)" "lab1_young arr h1" "array_contents arr = []"
    "unat (arr_size arr) = 0"
proof -
  obtain a h1 where m1: "malloc sizeof_DynamicArray h = (Some a, h1)"
    using malloc_generous [OF assms] by (simp add: sizeof_DynamicArray_def)
  note a = malloc_Some [OF m1]
  have g1: "generous h1" using a(3) assms heap_le_generous by blast
  obtain b h2 where m2: "malloc 128 h1 = (Some b, h2)" using malloc_generous [OF g1, of 128] by simp
  note b = malloc_Some [OF m2]
  show thesis
    by (rule that [of "\<lparr>arr_block = a, elems_block = Some b, elems = replicate 16 None, elems_bytes = 128,
          arr_size = 0, arr_capacity = 16, elemDestructorFunc = f\<rparr>" h2])
      (use b m1 m2 in \<open>simp_all add: LAB1_makeNewArray_def DYNARR_INITSIZE_def lab1_young_def array_contents_def\<close>)
qed

section \<open>The array of Lab2\<close>

definition DYNARR_makeNewArray :: "64 word \<Rightarrow> ('e \<Rightarrow> heap \<Rightarrow> heap res) option \<Rightarrow> heap
    \<Rightarrow> ('e pointer_array option \<times> heap) res" where
  "DYNARR_makeNewArray elemSize f h =
     (case malloc sizeof_DynamicArray h of
        (None, h1) \<Rightarrow> Inr (None, h1)
      | (Some a, h1) \<Rightarrow>
          (case malloc (unat (DYNARR_INITSIZE * elemSize)) h1 of
             (None, h2) \<Rightarrow> bind_res (mfree (Some a) h2) (\<lambda>h3. Inr (None, h3))
           | (Some b, h2) \<Rightarrow>
               Inr (Some \<lparr>arr_block = a, elems_block = Some b,
                   elems = replicate (unat (DYNARR_INITSIZE * elemSize) div 8) None,
                   elems_bytes = unat (DYNARR_INITSIZE * elemSize), arr_size = 0,
                   arr_capacity = DYNARR_INITSIZE, elemDestructorFunc = f\<rparr>, h2)))"

definition DYNARR_destroyArray :: "'e pointer_array \<Rightarrow> int \<Rightarrow> heap \<Rightarrow> (nat option \<times> heap) res" where
  "DYNARR_destroyArray arr internalArrayPersistence h =
     (if internalArrayPersistence \<noteq> 0
      then bind_res (mfree (Some (arr_block arr)) h) (\<lambda>h1. Inr (elems_block arr, h1))
      else bind_res
        (case elemDestructorFunc arr of
           None \<Rightarrow> Inr h
         | Some f \<Rightarrow> destroy_elems f (take (unat (arr_size arr)) (elems arr)) h) (\<lambda>h1.
        bind_res (mfree (elems_block arr) h1) (\<lambda>h2.
        bind_res (mfree (Some (arr_block arr)) h2) (\<lambda>h3. Inr (None, h3)))))"

definition DYNARR_resizeArr :: "'e pointer_array \<Rightarrow> 64 word \<Rightarrow> heap \<Rightarrow> (int \<times> 'e pointer_array \<times> heap) res" where
  "DYNARR_resizeArr arr newCapacity h =
     bind_res (realloc_elems arr (unat (newCapacity * 8)) h) (\<lambda>(p, h1).
       case p of
         None \<Rightarrow> Inr (-1, arr, h1)
       | Some b \<Rightarrow> Inr (0, (resized b (unat (newCapacity * 8)) arr)\<lparr>arr_capacity := newCapacity\<rparr>, h1))"

definition DYNARR_addElem :: "'e pointer_array \<Rightarrow> 'e \<Rightarrow> heap \<Rightarrow> (int \<times> 'e pointer_array \<times> heap) res" where
  "DYNARR_addElem arr e h =
     bind_res
       (if arr_size arr = arr_capacity arr then DYNARR_resizeArr arr (2 * arr_size arr) h else Inr (0, arr, h))
       (\<lambda>(r, arr1, h1).
          if r < 0 then Inr (-1, arr1, h1)
          else bind_res (store_elem arr1 e) (\<lambda>arr2. Inr (0, arr2, h1)))"

text \<open>
  \<open>DYNARR_concatArrs\<close>: its index is never incremented, so the loop may run for ever. \<open>elems2\<close> is
  the second array, which the loop only reads.
\<close>

partial_function (option) DYNARR_concat_loop :: "'e pointer_array \<Rightarrow> 'e pointer_array \<Rightarrow> nat \<Rightarrow> 64 word \<Rightarrow> 64 word \<Rightarrow> heap
    \<Rightarrow> (int \<times> 'e pointer_array \<times> heap) res option" where
  "DYNARR_concat_loop arr1 arr2 i arr1_size_backup arr1_capacity_backup h =
     (if i < unat (arr_size arr2)
      then (if length (elems arr2) \<le> i then Some (Inl Out_Of_Bounds) else case elems arr2 ! i of
              None \<Rightarrow> Some (Inl Uninit_Read)
            | Some element \<Rightarrow>
                (case DYNARR_addElem arr1 element h of
                   Inl u \<Rightarrow> Some (Inl u)
                 | Inr (r, arr1', h1) \<Rightarrow>
                     if r < 0
                     then Some (bind_res (DYNARR_resizeArr arr1' arr1_capacity_backup h1) (\<lambda>(r2, arr1'', h2).
                            Inr (-1, arr1''\<lparr>arr_size := arr1_size_backup\<rparr>, h2)))
                     else DYNARR_concat_loop arr1' arr2 i arr1_size_backup arr1_capacity_backup h1))
      else Some (Inr (0, arr1, h)))"

definition DYNARR_concatArrs :: "'e pointer_array \<Rightarrow> 'e pointer_array \<Rightarrow> heap
    \<Rightarrow> (int \<times> 'e pointer_array \<times> heap) res option" where
  "DYNARR_concatArrs arr1 arr2 h = DYNARR_concat_loop arr1 arr2 0 (arr_size arr1) (arr_capacity arr1) h"

section \<open>The laws of a growable array\<close>

definition arr_inv :: "'e pointer_array \<Rightarrow> bool" where
  "arr_inv arr \<longleftrightarrow> 0 < arr_capacity arr \<and> arr_size arr \<le> arr_capacity arr \<and>
     elems_bytes arr = 8 * unat (arr_capacity arr) \<and> elems_bytes arr < 2 ^ 63 \<and>
     length (elems arr) = unat (arr_capacity arr) \<and>
     (\<exists>b. elems_block arr = Some b \<and> b \<noteq> arr_block arr) \<and> None \<notin> set (array_contents arr)"

definition arr_owned :: "'e pointer_array \<Rightarrow> nat set" where
  "arr_owned arr = insert (arr_block arr) (set_option (elems_block arr))"

definition arr_contents :: "'e pointer_array \<Rightarrow> 'e list" where
  "arr_contents arr = map the (array_contents arr)"

definition arr_small :: "'e pointer_array \<Rightarrow> nat \<Rightarrow> bool" where
  "arr_small arr n \<longleftrightarrow> n < 2 ^ 58"

lemma length_arr_contents: "arr_inv arr \<Longrightarrow> length (arr_contents arr) = unat (arr_size arr)"
  by (simp add: arr_inv_def arr_contents_def array_contents_def word_le_nat_alt)

lemma unat_times: "unat a < 2 ^ 60 \<Longrightarrow> unat (2 * a :: 64 word) = 2 * unat a \<and> unat (2 * a * 8) = 16 * unat a"
  by (simp add: unat_word_ariths)

lemma store_elem_room:
  assumes "arr_inv arr" "arr_size arr < arr_capacity arr"
  shows "\<exists>arr'. store_elem arr e = Inr arr' \<and> arr_inv arr' \<and> arr_contents arr' = arr_contents arr @ [e] \<and>
    arr_owned arr' = arr_owned arr \<and> elemDestructorFunc arr' = elemDestructorFunc arr"
proof -
  have l: "unat (arr_size arr) < unat (arr_capacity arr)" using assms(2) by (simp add: word_less_nat_alt)
  have s: "unat (arr_size arr + 1) = Suc (unat (arr_size arr))" using assms(2) by (rule unat_Suc_less)
  have "arr_size arr + 1 \<le> arr_capacity arr" using l s by (simp add: word_le_nat_alt)
  then show ?thesis
    using assms(1) l by (auto simp: store_elem_def arr_inv_def arr_contents_def array_contents_def arr_owned_def s
        take_Suc_conv_app_nth)
qed

lemma addElem_cases:
  assumes inv: "arr_inv arr" and ok: "heap_ok h" and own: "arr_owned arr \<subseteq> live h"
  obtains (refused) h' where "DYNARR_addElem arr e h = Inr (-1, arr, h')"
      "own_step (arr_owned arr) h (arr_owned arr) h'" "\<not> granted (16 * length (arr_contents arr)) h"
  | (stored) arr' h' where "DYNARR_addElem arr e h = Inr (0, arr', h')" "arr_inv arr'"
      "arr_contents arr' = arr_contents arr @ [e]" "own_step (arr_owned arr) h (arr_owned arr') h'"
proof (cases "arr_size arr = arr_capacity arr")
  case False
  then have "arr_size arr < arr_capacity arr" using inv by (simp add: arr_inv_def order_less_le)
  from store_elem_room [OF inv this, of e] obtain arr' where
    "store_elem arr e = Inr arr'" "arr_inv arr'" "arr_contents arr' = arr_contents arr @ [e]" "arr_owned arr' = arr_owned arr"
    by blast
  then show thesis using False own by (intro stored [of arr' h]) (simp_all add: DYNARR_addElem_def own_step_refl)
next
  case full: True
  let ?n = "16 * unat (arr_size arr)"
  obtain b where b: "elems_block arr = Some b" "b \<noteq> arr_block arr" using inv by (auto simp: arr_inv_def)
  have bl: "b \<in> live h" "arr_block arr \<in> live h" using own b by (auto simp: arr_owned_def)
  have n: "unat (2 * arr_size arr) = 2 * unat (arr_size arr)" "unat (2 * arr_size arr * 8) = ?n"
    using unat_times [of "arr_size arr"] inv full by (auto simp: arr_inv_def)
  have pos: "?n \<noteq> 0" using inv full by (simp add: arr_inv_def word_less_nat_alt)
  have len: "length (arr_contents arr) = unat (arr_size arr)" using length_arr_contents [OF inv] .
  show thesis
  proof (cases "granted ?n h")
    case False
    then show thesis
      using full b bl pos len own n
      by (intro refused [of "h\<lparr>fresh := Suc (fresh h)\<rparr>"])
        (auto simp: DYNARR_addElem_def DYNARR_resizeArr_def realloc_elems_def crealloc_def own_step_def
          heap_le_def heap_ok_def less_SucI)
  next
    case granted: True
    let ?a = "(resized (fresh h) ?n arr)\<lparr>arr_capacity := 2 * arr_size arr\<rparr>"
    let ?h = "h\<lparr>live := insert (fresh h) (live h - {b}), fresh := Suc (fresh h)\<rparr>"
    have small: "?n < 2 ^ 63" using granted by (simp add: granted_def)
    have cap: "arr_size ?a < arr_capacity ?a"
      using pos n(1) by (simp add: word_less_nat_alt resized_def)
    have fresh: "arr_block arr \<noteq> fresh h" using bl ok by (auto simp: heap_ok_def)
    have c: "array_contents ?a = array_contents arr"
      using inv full by (simp add: array_contents_def resized_def arr_inv_def)
    have inv': "arr_inv ?a"
      using inv small n fresh cap pos full c
      by (auto simp: arr_inv_def resized_def word_less_nat_alt word_le_nat_alt)
    obtain arr' where a': "store_elem ?a e = Inr arr'" "arr_inv arr'" "arr_contents arr' = arr_contents arr @ [e]"
      "arr_owned arr' = arr_owned ?a"
      using store_elem_room [OF inv' cap, of e] c by (auto simp: arr_contents_def)
    have "own_step (arr_owned arr) h (arr_owned ?a) ?h"
      using b bl ok by (auto simp: own_step_def heap_le_def heap_ok_def arr_owned_def resized_def less_SucI)
    then show thesis
      using full b bl pos granted a' n
      by (intro stored [of arr' ?h])
        (simp_all add: DYNARR_addElem_def DYNARR_resizeArr_def realloc_elems_def crealloc_def)
  qed
qed

interpretation dynarr: growable DYNARR_addElem arr_contents arr_owned "\<lambda>x c. True" arr_small arr_inv
proof (unfold_locales, goal_cases)
  case (1 s e h)
  show ?case by (rule addElem_cases [OF 1(1,3,4), of e]) auto
next
  case (2 s e h r s' h')
  show ?case by (rule addElem_cases [OF 2(2,4,5), of e]) (use 2(1,2) in \<open>auto simp: arr_small_def fun_eq_iff\<close>)
next
  case (3 s e h r s' h')
  show ?case by (rule addElem_cases [OF 3(2,4,5), of e]) (use 3(1) in auto)
next
  case (4 s e h r s' h')
  show ?case by (rule addElem_cases [OF 4(2,4,5), of e]) (use 4(1) in auto)
next
  case (5 s e h r s' h')
  have g: "granted (16 * length (arr_contents s)) h" using 5(6,7) by (simp add: arr_small_def)
  show ?case by (rule addElem_cases [OF 5(2,4,5), of e]) (use 5(1) g in auto)
next
  case (6 s n m)
  then show ?case by (simp add: arr_small_def)
qed

lemma concat_loop_answers:
  assumes "DYNARR_concat_loop arr1 arr2 i s c h = Some (Inr (r, arr', h'))" "i < unat (arr_size arr2)"
  shows "r = -1"
proof -
  have "i < unat (arr_size arr2) \<longrightarrow> (\<forall>r arr' h'. x = Inr (r, arr', h') \<longrightarrow> r = -1)"
    if "DYNARR_concat_loop arr1 arr2 i s c h = Some x" for x
  proof (rule DYNARR_concat_loop.raw_induct [OF _ that, of "\<lambda>arr1 arr2 i s c h x.
        i < unat (arr_size arr2) \<longrightarrow> (\<forall>r arr' h'. x = Inr (r, arr', h') \<longrightarrow> r = -1)"], goal_cases)
    case (1 f arr1 arr2 i s c h x)
    then show ?case
      by (auto simp: bind_res_eq_Inr split: if_splits option.splits sum.splits)
  qed
  then show ?thesis using assms by blast
qed

section \<open>Properties\<close>

text \<open>
  C39. The array of Lab1 holds at most sixteen elements. Made for pointers, with memory granted, it
  takes up to sixteen elements and contains them in order, and appending more than sixteen is out
  of bounds: the array asks \<open>realloc\<close> for as many bytes as it wants elements.
\<close>

theorem lab1_array_holds_sixteen:
  assumes "generous h"
  shows "\<exists>arr h1. LAB1_makeNewArray 8 f h = Inr (arr, h1) \<and>
    (if length es \<le> 16
     then \<exists>arr'. LAB1_addAll arr es h1 = Inr (arr', h1) \<and> array_contents arr' = map Some es
     else LAB1_addAll arr es h1 = Inl Out_Of_Bounds)"
proof -
  obtain arr h1 where a: "LAB1_makeNewArray 8 f h = Inr (arr, h1)" "lab1_young arr h1" "array_contents arr = []"
    "unat (arr_size arr) = 0" using lab1_make_young [OF assms] .
  from lab1_addAll_young [OF a(2), of es] a show ?thesis by (cases "length es \<le> 16") auto
qed

theorem lab1_array_holds_sixteen_witness:
  "\<exists>arr h1. LAB1_makeNewArray 8 None (new_heap (\<lambda>k n. True)) = Inr (arr, h1) \<and>
     LAB1_addAll arr [0 .. 16 :: int] h1 = Inl Out_Of_Bounds"
  using lab1_array_holds_sixteen [OF generous_new, of None "[0 .. 16 :: int]"] by simp

text \<open>
  The array of Lab2 is correct where the one of Lab1 was not: appending to it, whatever the
  allocator grants, returns 0 and appends or returns -1 and leaves the contents, never leaves
  its block, keeps its invariant and touches no block of anybody else.
\<close>

theorem lab2_array_add:
  assumes "arr_inv arr" "heap_ok h" "arr_owned arr \<subseteq> live h"
  shows "\<exists>r arr' h'. DYNARR_addElem arr e h = Inr (r, arr', h') \<and> arr_inv arr' \<and>
    (r = 0 \<and> arr_contents arr' = arr_contents arr @ [e] \<or> r = -1 \<and> arr_contents arr' = arr_contents arr) \<and>
    live h' - arr_owned arr' = live h - arr_owned arr"
  by (rule dynarr.addE [OF assms(1) TrueI assms(2,3), of e]) (auto simp: own_step_def)

definition sample_array :: "int pointer_array" where
  "sample_array = \<lparr>arr_block = 0, elems_block = Some 1, elems = [Some 7], elems_bytes = 8, arr_size = 1,
     arr_capacity = 1, elemDestructorFunc = None\<rparr>"

theorem lab2_array_add_witness:
  "\<exists>r arr' h'. DYNARR_addElem sample_array 9 \<lparr>live = {0, 1, 5}, fresh = 6, grants = (\<lambda>k n. True)\<rparr> = Inr (r, arr', h') \<and>
    arr_inv arr' \<and> (r = 0 \<and> arr_contents arr' = [7, 9] \<or> r = -1 \<and> arr_contents arr' = [7]) \<and>
    live h' - arr_owned arr' = {5}"
proof -
  have "arr_inv sample_array" "arr_contents sample_array = [7]" "arr_owned sample_array = {0, 1}"
    by (simp_all add: sample_array_def arr_inv_def array_contents_def arr_contents_def arr_owned_def insert_commute)
  moreover have "{0, 1, 5} - {0, 1} = {5 :: nat}" by auto
  ultimately show ?thesis
    using lab2_array_add [of sample_array "\<lparr>live = {0, 1, 5}, fresh = 6, grants = (\<lambda>k n. True)\<rparr>" 9]
    by (simp add: heap_ok_def)
qed

text \<open>
  \<open>DYNARR_concatArrs\<close> never succeeds: on a second array that is not empty it either does not
  return at all or answers -1, because its loop never advances its index.
\<close>

theorem concat_never_succeeds:
  assumes "0 < unat (arr_size arr2)" "DYNARR_concatArrs arr1 arr2 h = Some (Inr (r, arr', h'))"
  shows "r = -1"
  using concat_loop_answers assms by (auto simp: DYNARR_concatArrs_def)

theorem concat_never_succeeds_witness:
  "\<exists>arr' h'. DYNARR_concatArrs sample_array (sample_array\<lparr>arr_block := 2, elems_block := Some 3\<rparr>)
     \<lparr>live = {0, 1, 2, 3}, fresh = 4, grants = (\<lambda>k n. k = 5)\<rparr> = Some (Inr (-1, arr', h'))"
proof -
  have "\<exists>r arr' h'. DYNARR_concatArrs sample_array (sample_array\<lparr>arr_block := 2, elems_block := Some 3\<rparr>)
     \<lparr>live = {0, 1, 2, 3}, fresh = 4, grants = (\<lambda>k n. k = 5)\<rparr> = Some (Inr (r, arr', h'))"
    by (simp add: DYNARR_concatArrs_def DYNARR_concat_loop.simps DYNARR_addElem_def DYNARR_resizeArr_def
        realloc_elems_def crealloc_def granted_def sample_array_def resized_def)
  moreover have "0 < unat (arr_size (sample_array\<lparr>arr_block := 2, elems_block := Some 3\<rparr>))"
    by (simp add: sample_array_def)
  ultimately show ?thesis using concat_never_succeeds by blast
qed

end
