(* ===== verification/PmTime.thy ===== *)
theory PmTime
  imports CPrelude
begin

text \<open>
  The time calls of the MINIX process manager (Lab3, servers/pm/time.c) and the library wrapper
  \<open>utctime\<close> (lib/libc/sys-minix/utctime.c). Clock values and the tick frequency are unsigned
  words of 32 bits and wrap; \<open>time_t\<close> is a signed word of 32 bits, read with \<open>sint\<close>. What the
  kernel calls answer is an argument; \<open>panic\<close> is the value \<open>Panics\<close>.
\<close>

type_synonym clock_t = "32 word"
type_synonym time_t = "32 word"

datatype 'a pm_result = Panics | Fails int | Replies 'a

record time_reply =
  reply_time :: time_t
  reply_utime :: "32 word"

definition OK :: int where "OK = 0"
definition EPERM :: int where "EPERM = -1"

text \<open>What \<open>getuptime2\<close> answers: its status and the two clocks.\<close>

record uptime_answer =
  status :: int
  uptime :: clock_t
  boottime :: clock_t

text \<open>Division as the machine does it: by zero it is undefined.\<close>

definition div_u :: "32 word \<Rightarrow> 32 word \<Rightarrow> 32 word res" where
  "div_u a b = (if b = 0 then Inl Div_By_Zero else Inr (a div b))"

definition do_time :: "uptime_answer \<Rightarrow> 32 word \<Rightarrow> time_reply pm_result res" where
  "do_time a system_hz =
     (if status a \<noteq> OK then Inr Panics
      else bind_res (div_u (uptime a) system_hz) (\<lambda>secs.
           Inr (Replies \<lparr>reply_time = boottime a + secs,
                         reply_utime = (uptime a mod system_hz) * 1000000 div system_hz\<rparr>)))"

definition leapsecond_reference :: "time_t list" where
  "leapsecond_reference =
     [78796799, 94694399, 126230399, 157766399,
      189302399, 220924799, 252460799, 283996799, 315532799, 362793599, 394329599,
      425865599, 489023999, 567993599, 631151999, 662687999, 709948799, 741484799,
      773020799, 820454399, 867715199, 915148799, 1136073599, 1230767999, 1341100799,
      1435708799, 1483228799]"

text \<open>The loop over the table: stop at the first entry that is not before the time.\<close>

function leap_loop :: "time_t list \<Rightarrow> time_t \<Rightarrow> nat \<Rightarrow> nat" where
  "leap_loop refs utctime i =
     (if i < length refs
      then (if \<not> sint utctime > sint (refs ! i) then i else leap_loop refs utctime (Suc i))
      else i)"
  by pat_completeness auto
termination
  by (relation "measure (\<lambda>(refs, t, i). length refs - i)") auto

declare leap_loop.simps [simp del]

definition do_utctime :: "uptime_answer \<Rightarrow> 32 word \<Rightarrow> time_reply pm_result res" where
  "do_utctime a system_hz =
     (if status a \<noteq> OK then Inr Panics
      else bind_res (div_u (uptime a) system_hz) (\<lambda>secs.
           let utctime = boottime a + secs; i = leap_loop leapsecond_reference utctime 0 in
           Inr (Replies \<lparr>reply_time = utctime + of_nat i + 10,
                         reply_utime = (uptime a mod system_hz) * 1000000 div system_hz\<rparr>)))"

text \<open>
  \<open>do_stime\<close>: the time to set, the user who asks, what \<open>getuptime\<close> answers, and what \<open>sys_stime\<close>
  answers for a boot time; the reply is the boot time the kernel was given.
\<close>

definition SUPER_USER :: int where "SUPER_USER = 0"

definition do_stime :: "time_t \<Rightarrow> int \<Rightarrow> int \<Rightarrow> clock_t \<Rightarrow> 32 word \<Rightarrow> (clock_t \<Rightarrow> int) \<Rightarrow> clock_t pm_result res" where
  "do_stime stime effuid getuptime_status up system_hz sys_stime =
     (if effuid \<noteq> SUPER_USER then Inr (Fails EPERM)
      else if getuptime_status \<noteq> OK then Inr Panics
      else bind_res (div_u up system_hz) (\<lambda>secs.
           let boot = stime - secs in
           if sys_stime boot \<noteq> OK then Inr Panics else Inr (Replies boot)))"

record times_reply =
  reply_t1 :: clock_t
  reply_t2 :: clock_t
  reply_t3 :: clock_t
  reply_t4 :: clock_t
  reply_t5 :: clock_t

definition do_times :: "int \<Rightarrow> clock_t \<Rightarrow> clock_t \<Rightarrow> clock_t \<Rightarrow> clock_t \<Rightarrow> clock_t \<Rightarrow> times_reply pm_result" where
  "do_times s user_time sys_time up child_utime child_stime =
     (if OK \<noteq> s then Panics
      else Replies \<lparr>reply_t1 = user_time, reply_t2 = sys_time, reply_t3 = child_utime,
                    reply_t4 = child_stime, reply_t5 = up\<rparr>)"

text \<open>
  The library wrapper, given what \<open>_syscall\<close> answers and the time in the reply message: what it
  returns, and what it stores through a pointer that is not NULL (\<open>None\<close>: nothing is stored).
\<close>

definition utctime :: "int \<Rightarrow> time_t \<Rightarrow> bool \<Rightarrow> time_t \<times> time_t option" where
  "utctime syscall_answer m2_l1 tloc_given =
     (if syscall_answer < 0 then (-1, None)
      else (m2_l1, if tloc_given then Some m2_l1 else None))"

section \<open>The table of leap seconds\<close>

text \<open>
  Days since 1970-01-01 in the Gregorian calendar, from the number of leap years, and the days
  after which the International Earth Rotation Service inserted a second (year, month): the last
  of June or of December.
\<close>

definition leap_year :: "int \<Rightarrow> bool" where
  "leap_year y \<longleftrightarrow> 4 dvd y \<and> (\<not> 100 dvd y \<or> 400 dvd y)"

text \<open>The leap years before a year, and the days from the epoch to its first day.\<close>

definition leap_years_before :: "int \<Rightarrow> int" where
  "leap_years_before y = (y - 1) div 4 - (y - 1) div 100 + (y - 1) div 400"

definition days_before_year :: "int \<Rightarrow> int" where
  "days_before_year y = 365 * (y - 1970) + leap_years_before y - leap_years_before 1970"

text \<open>The number of days from the epoch to the end of June or of December of a year.\<close>

definition days_to_end :: "int \<times> int \<Rightarrow> int" where
  "days_to_end d = (case d of (y, m) \<Rightarrow>
     if m = 6 then days_before_year y + (if leap_year y then 182 else 181)
     else days_before_year (y + 1))"

definition leap_second_days :: "(int \<times> int) list" where
  "leap_second_days =
     [(1972, 6), (1972, 12), (1973, 12), (1974, 12), (1975, 12), (1976, 12), (1977, 12), (1978, 12),
      (1979, 12), (1981, 6), (1982, 6), (1983, 6), (1985, 6), (1987, 12), (1989, 12), (1990, 12),
      (1992, 6), (1993, 6), (1994, 6), (1995, 12), (1997, 6), (1998, 12), (2005, 12), (2008, 12),
      (2012, 6), (2015, 6), (2016, 12)]"

text \<open>The number of leap seconds inserted up to a time in seconds since the epoch.\<close>

definition leap_seconds_until :: "int \<Rightarrow> nat" where
  "leap_seconds_until t = length (filter (\<lambda>d. 86400 * days_to_end d \<le> t) leap_second_days)"

lemma reference_ints:
  "map sint leapsecond_reference =
     [78796799, 94694399, 126230399, 157766399,
      189302399, 220924799, 252460799, 283996799, 315532799, 362793599, 394329599,
      425865599, 489023999, 567993599, 631151999, 662687999, 709948799, 741484799,
      773020799, 820454399, 867715199, 915148799, 1136073599, 1230767999, 1341100799,
      1435708799, 1483228799]"
  by (simp add: leapsecond_reference_def)

lemma reference_days:
  "map sint leapsecond_reference = map (\<lambda>d. 86400 * days_to_end d - 1) leap_second_days"
  unfolding reference_ints
  by (simp add: leap_second_days_def days_to_end_def days_before_year_def leap_years_before_def leap_year_def)

lemma reference_sorted: "sorted (map sint leapsecond_reference)"
  unfolding reference_ints by simp

text \<open>On a sorted table the loop counts the entries before the time.\<close>

lemma filter_sorted_prefix:
  assumes "sorted xs" "i \<le> length xs" "\<forall>j<i. xs ! j < t" "i = length xs \<or> \<not> xs ! i < t"
  shows "length (filter (\<lambda>x. x < t) xs) = i"
proof -
  have "filter (\<lambda>x. x < t) (take i xs) = take i xs"
    using assms(2,3) by (auto simp: filter_id_conv in_set_conv_nth)
  moreover have "filter (\<lambda>x. x < t) (drop i xs) = []"
  proof (rule filter_False, rule ballI)
    fix x assume x: "x \<in> set (drop i xs)"
    then obtain k where k: "k < length xs - i" "x = xs ! (i + k)" by (auto simp: in_set_conv_nth)
    have "xs ! i \<le> x" unfolding k(2) using assms(1) k(1) by (intro sorted_nth_mono) auto
    then show "\<not> x < (t :: 'a :: linorder)" using assms(4) k(1) by auto
  qed
  ultimately have "filter (\<lambda>x. x < t) xs = take i xs"
    using filter_append [of "\<lambda>x. x < t" "take i xs" "drop i xs"] by simp
  then show ?thesis using assms(2) by simp
qed

lemma leap_loop_stops:
  assumes "i \<le> length refs" "\<forall>j<i. sint (refs ! j) < sint t"
  shows "leap_loop refs t i \<le> length refs \<and> (\<forall>j<leap_loop refs t i. sint (refs ! j) < sint t) \<and>
    (leap_loop refs t i = length refs \<or> \<not> sint (refs ! leap_loop refs t i) < sint t)"
  using assms
proof (induction refs t i rule: leap_loop.induct)
  case (1 refs t i)
  show ?case
  proof (cases "i < length refs \<and> sint (refs ! i) < sint t")
    case True
    then have "leap_loop refs t i = leap_loop refs t (Suc i)" by (subst leap_loop.simps) simp
    moreover have "\<forall>j<Suc i. sint (refs ! j) < sint t" using 1(3) True by (simp add: less_Suc_eq)
    ultimately show ?thesis using 1(1) True by auto
  next
    case False
    then have "leap_loop refs t i = i" by (subst leap_loop.simps) auto
    then show ?thesis using False 1(2,3) by auto
  qed
qed

text \<open>On the sorted table the loop counts the entries before the time, which are the leap seconds.\<close>

lemma leap_loop_count: "leap_loop leapsecond_reference t 0 = leap_seconds_until (sint t)"
proof -
  let ?i = "leap_loop leapsecond_reference t 0"
  have "length (filter (\<lambda>x. x < sint t) (map sint leapsecond_reference)) = ?i"
    using leap_loop_stops [of 0 leapsecond_reference t]
    by (intro filter_sorted_prefix [OF reference_sorted]) auto
  moreover have "length (filter (\<lambda>x. x < sint t) (map (\<lambda>d. 86400 * days_to_end d - 1) leap_second_days)) =
      leap_seconds_until (sint t)"
  proof -
    have "(\<lambda>d. 86400 * days_to_end d - 1 < sint t) = (\<lambda>d. 86400 * days_to_end d \<le> sint t)" by auto
    then show ?thesis by (simp add: leap_seconds_until_def filter_map comp_def)
  qed
  ultimately show ?thesis by (simp add: reference_days)
qed

lemma leap_seconds_bound: "leap_seconds_until t \<le> 27"
proof -
  have "leap_seconds_until t \<le> length leap_second_days" unfolding leap_seconds_until_def by (rule length_filter_le)
  then show ?thesis by (simp add: leap_second_days_def)
qed

lemma filter_length_mono: "(\<And>x. P x \<Longrightarrow> Q x) \<Longrightarrow> length (filter P xs) \<le> length (filter Q xs)"
  by (induction xs) (auto simp: le_SucI)

text \<open>Adding a small number to a time that stays below 2 ^ 31.\<close>

lemma sint_of_int_32: "- (2 ^ 31) \<le> x \<Longrightarrow> x < 2 ^ 31 \<Longrightarrow> sint (word_of_int x :: 32 word) = x"
  using signed_take_bit_int_eq_self [of 31 x] signed_of_int [where ?'a = int and ?'b = 32, of x] by simp

lemma sint_add_nat:
  assumes "0 \<le> sint w" "sint w + int k < 2 ^ 31"
  shows "sint (w + of_nat k :: 32 word) = sint w + int k"
proof -
  have "w + of_nat k = word_of_int (sint w + int k)" by simp
  then show ?thesis using assms sint_of_int_32 [of "sint w + int k"] by simp
qed

lemma unat_prod_exact: "unat a * unat b < 2 ^ 32 \<Longrightarrow> unat (a * b :: 32 word) = unat a * unat b"
  by (simp add: unat_word_ariths)

section \<open>Properties\<close>

lemma utctime_reply:
  assumes "status a = OK" "system_hz \<noteq> 0" "0 \<le> sint (boottime a + uptime a div system_hz)"
    "sint (boottime a + uptime a div system_hz) < 2 ^ 31 - 37"
  shows "\<exists>r. do_utctime a system_hz = Inr (Replies r) \<and>
    sint (reply_time r) = sint (boottime a + uptime a div system_hz) + 10 +
      int (leap_seconds_until (sint (boottime a + uptime a div system_hz)))"
proof -
  let ?t = "boottime a + uptime a div system_hz"
  let ?n = "leap_seconds_until (sint ?t) + 10"
  have "sint (?t + of_nat ?n) = sint ?t + int ?n"
    using assms(3,4) leap_seconds_bound [of "sint ?t"] by (intro sint_add_nat) auto
  then show ?thesis
    using assms(1,2) by (simp add: do_utctime_def div_u_def Let_def leap_loop_count add.assoc)
qed

text \<open>
  \<open>do_utctime\<close> counts leap seconds: as long as the time stays below 2 ^ 31 - 37 seconds, the
  reply is the POSIX time plus ten plus the number of the days with a leap second that are over.
  The table of the code has exactly the last second of each of these days, from June 1972 to
  December 2016.
\<close>

theorem utctime_counts_leap_seconds:
  assumes "status a = OK" "system_hz \<noteq> 0" "0 \<le> sint (boottime a + uptime a div system_hz)"
    "sint (boottime a + uptime a div system_hz) < 2 ^ 31 - 37"
  shows "\<exists>r. do_utctime a system_hz = Inr (Replies r) \<and>
    sint (reply_time r) = sint (boottime a + uptime a div system_hz) + 10 +
      int (leap_seconds_until (sint (boottime a + uptime a div system_hz)))"
  using assms by (rule utctime_reply)

theorem utctime_counts_leap_seconds_witness:
  "\<exists>r. do_utctime \<lparr>status = 0, uptime = 600, boottime = 1527768000\<rparr> 60 = Inr (Replies r) \<and>
    sint (reply_time r) = 1527768047"
  using utctime_counts_leap_seconds [of "\<lparr>status = 0, uptime = 600, boottime = 1527768000\<rparr>" 60]
  by (simp add: OK_def leap_seconds_until_def leap_second_days_def days_to_end_def days_before_year_def
      leap_years_before_def leap_year_def)

text \<open>
  Time never goes back: between two times of which the first is smaller, the answers of
  \<open>do_utctime\<close> grow by at least as much.
\<close>

theorem utctime_strictly_monotone:
  assumes "status a = OK" "status b = OK" "system_hz \<noteq> 0" "0 \<le> sint (boottime a + uptime a div system_hz)"
    "sint (boottime a + uptime a div system_hz) < sint (boottime b + uptime b div system_hz)"
    "sint (boottime b + uptime b div system_hz) < 2 ^ 31 - 37"
  shows "\<exists>r s. do_utctime a system_hz = Inr (Replies r) \<and> do_utctime b system_hz = Inr (Replies s) \<and>
    sint (reply_time s) - sint (reply_time r) \<ge>
      sint (boottime b + uptime b div system_hz) - sint (boottime a + uptime a div system_hz)"
proof -
  let ?t = "boottime a + uptime a div system_hz" and ?u = "boottime b + uptime b div system_hz"
  let ?n = "leap_seconds_until (sint ?t) + 10" and ?m = "leap_seconds_until (sint ?u) + 10"
  have "?n \<le> ?m"
    using assms(5) by (auto simp: leap_seconds_until_def intro!: filter_length_mono)
  moreover have "sint (?t + of_nat ?n) = sint ?t + int ?n" "sint (?u + of_nat ?m) = sint ?u + int ?m"
    using assms(4-6) leap_seconds_bound [of "sint ?t"] leap_seconds_bound [of "sint ?u"]
    by (intro sint_add_nat; auto)+
  ultimately show ?thesis
    using assms(1-3) by (simp add: do_utctime_def div_u_def Let_def leap_loop_count add.assoc)
qed

theorem utctime_strictly_monotone_witness:
  "\<exists>r s. do_utctime \<lparr>status = 0, uptime = 0, boottime = 1483228799\<rparr> 60 = Inr (Replies r) \<and>
     do_utctime \<lparr>status = 0, uptime = 60, boottime = 1483228799\<rparr> 60 = Inr (Replies s) \<and>
     sint (reply_time s) - sint (reply_time r) \<ge> 1"
  using utctime_strictly_monotone [of "\<lparr>status = 0, uptime = 0, boottime = 1483228799\<rparr>"
      "\<lparr>status = 0, uptime = 60, boottime = 1483228799\<rparr>" 60]
  by (simp add: OK_def)

text \<open>
  C37. Setting the time works: when the super user sets a time and the kernel keeps the boot time
  it is given, \<open>do_time\<close> answers that time, at the same uptime exactly and later by the seconds
  that have passed; the arithmetic may wrap on the way.
\<close>

theorem stime_then_time:
  assumes "effuid = SUPER_USER" "system_hz \<noteq> 0" "do_stime t effuid OK up system_hz sys_stime = Inr (Replies boot)"
  shows "\<exists>r. do_time \<lparr>status = OK, uptime = up', boottime = boot\<rparr> system_hz = Inr (Replies r) \<and>
    reply_time r = t + (up' div system_hz - up div system_hz)"
  using assms by (auto simp: do_stime_def do_time_def div_u_def Let_def split: if_splits)

theorem stime_then_time_witness:
  "\<exists>r. do_time \<lparr>status = OK, uptime = 720, boottime = 999999990\<rparr> 60 = Inr (Replies r) \<and> reply_time r = 1000000002"
  using stime_then_time [of SUPER_USER 60 1000000000 600 "\<lambda>b. OK" 999999990 720]
  by (simp add: do_stime_def div_u_def SUPER_USER_def OK_def)

text \<open>
  The fraction of a second, with a tick frequency of at most 4295: the microseconds of the
  reply are the ticks since the last full second in microseconds, rounded down, and less than a
  million; the product does not wrap.
\<close>

lemma microseconds_exact:
  assumes "status a = OK" "0 < unat system_hz" "unat system_hz \<le> 4295"
  shows "\<exists>r. do_time a system_hz = Inr (Replies r) \<and>
    unat (reply_utime r) = unat (uptime a) mod unat system_hz * 1000000 div unat system_hz \<and>
    unat (reply_utime r) < 1000000"
proof -
  let ?m = "unat (uptime a) mod unat system_hz"
  have m: "?m < unat system_hz" using assms(2) by simp
  then have p: "?m * 1000000 < 2 ^ 32" using assms(3) by simp
  have u: "unat (uptime a mod system_hz) = ?m" by (simp add: unat_mod_distrib)
  have "unat (uptime a mod system_hz * 1000000) = ?m * 1000000"
    using unat_prod_exact [of "uptime a mod system_hz" 1000000] p u by simp
  moreover have "?m * 1000000 div unat system_hz < 1000000"
    using m assms(2) by (simp add: less_mult_imp_div_less mult.commute)
  ultimately show ?thesis
    using assms by (auto simp: do_time_def div_u_def unat_div_distrib)
qed

text \<open>Beyond that bound, 4295 ticks after a full second the product wraps and the quotient is too small.\<close>

lemma microseconds_wrong:
  assumes "4295 < unat system_hz"
  shows "\<exists>r. do_time \<lparr>status = OK, uptime = 4295, boottime = b\<rparr> system_hz = Inr (Replies r) \<and>
    unat (reply_utime r) < 4295 mod unat system_hz * 1000000 div unat system_hz"
proof -
  have z: "system_hz \<noteq> 0" using assms by auto
  have m: "4295 mod unat system_hz = 4295" using assms by simp
  have "unat (4295 mod system_hz) = unat (4295 :: 32 word) mod unat system_hz" by (rule unat_mod_distrib)
  then have "unat (4295 mod system_hz) = unat (4295 :: 32 word)" using m by simp
  then have w: "4295 mod system_hz = 4295" by (rule unsigned_word_eqI)
  have "32704 div unat system_hz < Suc (32704 div unat system_hz)" by simp
  also have "\<dots> = (32704 + unat system_hz) div unat system_hz"
    using assms div_add_self2 [of "unat system_hz" 32704] by linarith
  also have "\<dots> \<le> 4295000000 div unat system_hz"
    using unsigned_less [where ?'a = nat, of system_hz] by (intro div_le_mono) simp
  finally show ?thesis using z w m by (simp add: do_time_def div_u_def unat_div_distrib)
qed

text \<open>
  C38. The microseconds \<open>do_time\<close> answers are the ticks since the last full second, in
  microseconds and rounded down, at every uptime, exactly when the tick frequency is at most 4295:
  from 4296 ticks a second on, and \<open>cstart\<close> accepts up to 50000, the 32 bit product wraps at some
  uptime, and the answer is wrong there.
\<close>

theorem microseconds_wrap:
  assumes "system_hz \<noteq> 0"
  shows "unat system_hz \<le> 4295 \<longleftrightarrow>
    (\<forall>up boot. \<exists>r. do_time \<lparr>status = OK, uptime = up, boottime = boot\<rparr> system_hz = Inr (Replies r) \<and>
       unat (reply_utime r) = unat up mod unat system_hz * 1000000 div unat system_hz)"
proof
  assume "unat system_hz \<le> 4295"
  moreover have "0 < unat system_hz" using assms by (simp add: unat_gt_0)
  ultimately show "\<forall>up boot. \<exists>r. do_time \<lparr>status = OK, uptime = up, boottime = boot\<rparr> system_hz = Inr (Replies r) \<and>
       unat (reply_utime r) = unat up mod unat system_hz * 1000000 div unat system_hz"
    using microseconds_exact [of "\<lparr>status = OK, uptime = up, boottime = boot\<rparr>" system_hz for up boot] by fastforce
next
  assume "\<forall>up boot. \<exists>r. do_time \<lparr>status = OK, uptime = up, boottime = boot\<rparr> system_hz = Inr (Replies r) \<and>
       unat (reply_utime r) = unat up mod unat system_hz * 1000000 div unat system_hz"
  then obtain r where "do_time \<lparr>status = OK, uptime = 4295, boottime = 0\<rparr> system_hz = Inr (Replies r)"
    "unat (reply_utime r) = unat (4295 :: 32 word) mod unat system_hz * 1000000 div unat system_hz" by blast
  then show "unat system_hz \<le> 4295" using microseconds_wrong [of system_hz 0] by (cases "unat system_hz \<le> 4295") auto
qed

theorem microseconds_wrap_witness:
  "(\<forall>up boot. \<exists>r. do_time \<lparr>status = OK, uptime = up, boottime = boot\<rparr> 60 = Inr (Replies r) \<and>
      unat (reply_utime r) = unat up mod 60 * 1000000 div 60) \<and>
   \<not> (\<forall>up boot. \<exists>r. do_time \<lparr>status = OK, uptime = up, boottime = boot\<rparr> 50000 = Inr (Replies r) \<and>
      unat (reply_utime r) = unat up mod 50000 * 1000000 div 50000)"
  using microseconds_wrap [of 60] microseconds_wrap [of 50000] by simp

end
