(* ===== verification/PmCalls.thy ===== *)
theory PmCalls
  imports PmTime
begin

text \<open>
  The call table of the MINIX process manager (Lab3, servers/pm/table.c), which maps a call number
  to the routine that performs the call, and the call numbers (include/minix/callnr.h). A routine
  is a constructor with its name; those of the clock are the definitions of theory PmTime.
\<close>

section \<open>The table and the numbers\<close>

datatype routine =
  No_sys | Do_exit | Do_fork | Do_waitpid | Do_time | Do_brk | Do_get | Do_set | Do_stime |
  Do_trace | Do_alarm | Do_pause | Do_getepinfo | Do_kill | Do_times | Do_utctime | Do_exec |
  Do_itimer | Do_getmcontext | Do_setmcontext | Do_sigaction | Do_sigsuspend | Do_sigpending |
  Do_sigprocmask | Do_sigreturn | Do_reboot | Do_svrctl | Do_sysuname | Do_getsetpriority |
  Do_sprofile | Do_cprofile | Do_newexec | Do_srv_fork | Do_execrestart | Do_getprocnr |
  Do_getepinfo_o | Do_srv_kill

definition NCALLS :: nat where
  "NCALLS = 114"

definition call_vec :: "routine list" where
  "call_vec =
    [No_sys, Do_exit, Do_fork, No_sys, No_sys, No_sys, No_sys, Do_waitpid, No_sys, No_sys, No_sys,
     Do_waitpid, No_sys, Do_time, No_sys, No_sys, No_sys, Do_brk, No_sys, No_sys, Do_get, No_sys,
     No_sys, Do_set, Do_get, Do_stime, Do_trace, Do_alarm, No_sys, Do_pause, No_sys, Do_getepinfo,
     Do_set, No_sys, Do_get, No_sys, No_sys, Do_kill, No_sys, No_sys, No_sys, No_sys, No_sys,
     Do_times, Do_utctime, No_sys, Do_set, Do_get, No_sys, No_sys, No_sys, No_sys, No_sys, No_sys,
     No_sys, No_sys, No_sys, No_sys, No_sys, Do_exec, No_sys, No_sys, Do_set, Do_get, Do_itimer,
     Do_get, Do_set, Do_getmcontext, Do_setmcontext, No_sys, No_sys, Do_sigaction, Do_sigsuspend,
     Do_sigpending, Do_sigprocmask, Do_sigreturn, Do_reboot, Do_svrctl, Do_sysuname, No_sys,
     No_sys, No_sys, No_sys, No_sys, No_sys, No_sys, No_sys, No_sys, Do_getsetpriority,
     Do_getsetpriority, Do_time, Do_set, Do_set, No_sys, No_sys, No_sys, No_sys, No_sys,
     Do_sprofile, Do_cprofile, Do_newexec, Do_srv_fork, Do_execrestart, No_sys, Do_getprocnr,
     No_sys, Do_get, Do_getepinfo_o, No_sys, No_sys, No_sys, Do_srv_kill, No_sys, Do_get]"

text \<open>The numbers in the order of the header, without the size of the table.\<close>

definition callnr :: "(string \<times> nat) list" where
  "callnr =
    [(''EXIT'', 1), (''FORK'', 2), (''READ'', 3), (''WRITE'', 4), (''OPEN'', 5), (''CLOSE'', 6),
     (''WAIT'', 7), (''CREAT'', 8), (''LINK'', 9), (''UNLINK'', 10), (''WAITPID'', 11),
     (''CHDIR'', 12), (''TIME'', 13), (''MKNOD'', 14), (''CHMOD'', 15), (''CHOWN'', 16),
     (''BRK'', 17), (''PREV_STAT'', 18), (''LSEEK'', 19), (''MINIX_GETPID'', 20), (''MOUNT'', 21),
     (''UMOUNT'', 22), (''SETUID'', 23), (''GETUID'', 24), (''STIME'', 25), (''PTRACE'', 26),
     (''ALARM'', 27), (''PREV_FSTAT'', 28), (''PAUSE'', 29), (''UTIME'', 30), (''GETEPINFO'', 31),
     (''SETGROUPS'', 32), (''ACCESS'', 33), (''GETGROUPS'', 34), (''SYNC'', 36), (''KILL'', 37),
     (''RENAME'', 38), (''MKDIR'', 39), (''RMDIR'', 40), (''DUP'', 41), (''PIPE'', 42),
     (''TIMES'', 43), (''UTCTIME'', 44), (''SYMLINK'', 45), (''SETGID'', 46), (''GETGID'', 47),
     (''SIGNAL'', 48), (''RDLNK'', 49), (''PREV_LSTAT'', 50), (''STAT'', 51), (''FSTAT'', 52),
     (''LSTAT'', 53), (''IOCTL'', 54), (''FCNTL'', 55), (''FS_READY'', 57), (''EXEC'', 59),
     (''UMASK'', 60), (''CHROOT'', 61), (''SETSID'', 62), (''GETPGRP'', 63), (''ITIMER'', 64),
     (''GETGROUPS_O'', 65), (''SETGROUPS_O'', 66), (''GETMCONTEXT'', 67), (''SETMCONTEXT'', 68),
     (''SIGACTION'', 71), (''SIGSUSPEND'', 72), (''SIGPENDING'', 73), (''SIGPROCMASK'', 74),
     (''SIGRETURN'', 75), (''REBOOT'', 76), (''SVRCTL'', 77), (''SYSUNAME'', 78),
     (''GETDENTS'', 80), (''LLSEEK'', 81), (''FSTATFS'', 82), (''STATVFS'', 83),
     (''FSTATVFS'', 84), (''SELECT'', 85), (''FCHDIR'', 86), (''FSYNC'', 87),
     (''GETPRIORITY'', 88), (''SETPRIORITY'', 89), (''GETTIMEOFDAY'', 90), (''SETEUID'', 91),
     (''SETEGID'', 92), (''TRUNCATE'', 93), (''FTRUNCATE'', 94), (''FCHMOD'', 95),
     (''FCHOWN'', 96), (''SPROF'', 98), (''CPROF'', 99), (''PM_NEWEXEC'', 100),
     (''SRV_FORK'', 101), (''EXEC_RESTART'', 102), (''GETPROCNR'', 104), (''ISSETUGID'', 106),
     (''GETEPINFO_O'', 107), (''SRV_KILL'', 111), (''GCOV_FLUSH'', 112), (''PM_GETSID'', 113),
     (''TASK_REPLY'', 121), (''MAPDRIVER'', 122)]"

text \<open>The routines of the clock that answer with a time.\<close>

fun clock_routine :: "routine \<Rightarrow> uptime_answer \<Rightarrow> 32 word \<Rightarrow> time_reply pm_result res option" where
  "clock_routine Do_time a system_hz = Some (do_time a system_hz)"
| "clock_routine Do_utctime a system_hz = Some (do_utctime a system_hz)"
| "clock_routine _ a system_hz = None"

section \<open>The table fits the numbers\<close>

lemma call_vec_length: "length call_vec = NCALLS"
  by (simp add: call_vec_def NCALLS_def)

lemma numbers: "map snd callnr =
    [1, 2, 3, 4, 5, 6, 7, 8, 9, 10, 11, 12, 13, 14, 15, 16, 17, 18, 19, 20, 21, 22, 23, 24, 25, 26,
     27, 28, 29, 30, 31, 32, 33, 34, 36, 37, 38, 39, 40, 41, 42, 43, 44, 45, 46, 47, 48, 49, 50,
     51, 52, 53, 54, 55, 57, 59, 60, 61, 62, 63, 64, 65, 66, 67, 68, 71, 72, 73, 74, 75, 76, 77,
     78, 80, 81, 82, 83, 84, 85, 86, 87, 88, 89, 90, 91, 92, 93, 94, 95, 96, 98, 99, 100, 101, 102,
     104, 106, 107, 111, 112, 113, 121, 122]"
  by (simp add: callnr_def)

lemma numbers_increase: "sorted_wrt (<) (map snd callnr)"
proof -
  have "successively (<) (map snd callnr)" by (simp add: numbers)
  then show ?thesis by (simp add: successively_conv_sorted_wrt)
qed

text \<open>The numbers of the calls the process manager performs.\<close>

definition performed :: "nat list" where
  "performed = map fst (filter (\<lambda>(n, r). r \<noteq> No_sys) (enumerate 0 call_vec))"

lemma performed_eq: "performed =
    [1, 2, 7, 11, 13, 17, 20, 23, 24, 25, 26, 27, 29, 31, 32, 34, 37, 43, 44, 46, 47, 59, 62, 63,
     64, 65, 66, 67, 68, 71, 72, 73, 74, 75, 76, 77, 78, 88, 89, 90, 91, 92, 98, 99, 100, 101, 102,
     104, 106, 107, 111, 113]"
  by (simp add: performed_def call_vec_def)

lemma performed_set: "n < NCALLS \<Longrightarrow> call_vec ! n \<noteq> No_sys \<Longrightarrow> n \<in> set performed"
  by (force simp: performed_def in_set_enumerate_eq call_vec_length)

lemma performed_named: "set performed \<subseteq> set (map snd callnr)"
  by (simp add: performed_eq numbers)

lemma names_unique: "(a, n) \<in> set callnr \<Longrightarrow> (b, n) \<in> set callnr \<Longrightarrow> a = b"
proof -
  assume a: "(a, n) \<in> set callnr" "(b, n) \<in> set callnr"
  have "distinct (map snd callnr)"
    using numbers_increase by (metis strict_sorted_iff)
  then have "inj_on snd (set callnr)" by (simp add: distinct_map)
  from inj_onD [OF this, of "(a, n)" "(b, n)"] show "a = b" using a by simp
qed

text \<open>
  The table has as many entries as the header says, the numbers of the header increase, as its
  comment claims, so no two calls share one, and every entry of the table that performs a call is
  at the number of exactly one name.
\<close>

lemma call_table_consistent:
  "length call_vec = NCALLS \<and> sorted_wrt (<) (map snd callnr) \<and>
   (\<forall>n<NCALLS. call_vec ! n \<noteq> No_sys \<longrightarrow> (\<exists>!name. (name, n) \<in> set callnr))"
proof (intro conjI allI impI)
  fix n
  assume "n < NCALLS" "call_vec ! n \<noteq> No_sys"
  then have "n \<in> set (map snd callnr)" using performed_set performed_named by blast
  then show "\<exists>!name. (name, n) \<in> set callnr" using names_unique by auto
qed (simp_all add: call_vec_length numbers_increase)

lemma utctime_entry: "map_of callnr ''UTCTIME'' = Some 44" "call_vec ! 44 = Do_utctime"
  by (simp_all add: callnr_def call_vec_def)

text \<open>
  C25. The added system call as a whole: the number the library function \<open>utctime\<close> sends is the one
  the table maps to \<open>do_utctime\<close>, whose reply the function answers, and stores where it is asked to:
  the POSIX time, ten, and the leap seconds inserted up to it.
\<close>

theorem utctime_system_call:
  assumes "status a = OK" "system_hz \<noteq> 0" "0 \<le> sint (boottime a + uptime a div system_hz)"
    "sint (boottime a + uptime a div system_hz) < 2 ^ 31 - 37"
  shows "\<exists>n r t. map_of callnr ''UTCTIME'' = Some n \<and> n < length call_vec \<and>
    clock_routine (call_vec ! n) a system_hz = Some (Inr (Replies r)) \<and>
    utctime 0 (reply_time r) True = (t, Some t) \<and>
    sint t = sint (boottime a + uptime a div system_hz) + 10 +
      int (leap_seconds_until (sint (boottime a + uptime a div system_hz)))"
  using utctime_reply [OF assms] by (auto simp: utctime_entry utctime_def call_vec_length NCALLS_def)

theorem utctime_system_call_witness:
  "\<exists>r t. clock_routine (call_vec ! 44) \<lparr>status = 0, uptime = 600, boottime = 1527768000\<rparr> 60 = Some (Inr (Replies r)) \<and>
    utctime 0 (reply_time r) True = (t, Some t) \<and> sint t = 1527768047"
  using utctime_system_call [of "\<lparr>status = 0, uptime = 600, boottime = 1527768000\<rparr>" 60]
  by (simp add: OK_def utctime_entry leap_seconds_until_def leap_second_days_def days_to_end_def
      days_before_year_def leap_years_before_def leap_year_def)

section \<open>The test program\<close>

text \<open>
  A call by its name, as the process manager answers it: the result of \<open>_syscall\<close> and the time in
  the reply. \<open>None\<close>: there is no such call, or the manager panics.
\<close>

definition time_call :: "string \<Rightarrow> uptime_answer \<Rightarrow> 32 word \<Rightarrow> (int \<times> time_t) res option" where
  "time_call name a system_hz =
     (case map_of callnr name of
        None \<Rightarrow> None
      | Some n \<Rightarrow>
          if length call_vec \<le> n then None
          else (case clock_routine (call_vec ! n) a system_hz of
             None \<Rightarrow> None
           | Some (Inl e) \<Rightarrow> Some (Inl e)
           | Some (Inr (Replies r)) \<Rightarrow> Some (Inr (OK, reply_time r))
           | Some (Inr (Fails c)) \<Rightarrow> Some (Inr (c, 0))
           | Some (Inr Panics) \<Rightarrow> None))"

definition gettime :: "int \<times> time_t \<Rightarrow> time_t" where
  "gettime m = (if fst m < 0 then -1 else snd m)"

text \<open>
  test.c: the two numbers it prints, with the answers of the clock at its two calls. The header
  declares \<open>utctime\<close> without a parameter, so the call passes none; \<open>tloc\<close> says whether what
  \<open>utctime\<close> finds in its place is not NULL, and then it stores through it.
\<close>

definition test_main :: "bool \<Rightarrow> uptime_answer \<Rightarrow> uptime_answer \<Rightarrow> 32 word \<Rightarrow> (time_t \<times> time_t) res option" where
  "test_main tloc a1 a2 system_hz =
     (case time_call ''TIME'' a1 system_hz of
        None \<Rightarrow> None
      | Some m1 \<Rightarrow>
          (case time_call ''UTCTIME'' a2 system_hz of
             None \<Rightarrow> None
           | Some m2 \<Rightarrow> Some (bind_res m1 (\<lambda>m1. bind_res m2 (\<lambda>m2.
               case utctime (fst m2) (snd m2) tloc of
                 (t, None) \<Rightarrow> Inr (gettime m1, t)
               | (t, Some stored) \<Rightarrow> Inl Out_Of_Bounds)))))"

lemma time_entry: "map_of callnr ''TIME'' = Some 13" "call_vec ! 13 = Do_time"
  by (simp_all add: callnr_def call_vec_def)

text \<open>
  When the missing argument happens to be NULL, and no second passes between the calls, the two
  numbers differ by ten and the leap seconds; otherwise the program stores through a pointer it was
  not given.
\<close>

lemma test_shows_difference:
  assumes "status a = OK" "system_hz \<noteq> 0" "0 \<le> sint (boottime a + uptime a div system_hz)"
    "sint (boottime a + uptime a div system_hz) < 2 ^ 31 - 37"
  shows "\<exists>t u. test_main False a a system_hz = Some (Inr (t, u)) \<and>
      sint u - sint t = 10 + int (leap_seconds_until (sint t))"
    and "test_main True a a system_hz = Some (Inl Out_Of_Bounds)"
proof -
  have n: "\<not> length call_vec \<le> 13" "\<not> length call_vec \<le> 44" by (simp_all add: call_vec_length NCALLS_def)
  have t: "\<exists>r. do_time a system_hz = Inr (Replies r) \<and> reply_time r = boottime a + uptime a div system_hz"
    using assms(1,2) by (simp add: do_time_def div_u_def)
  then obtain r where r: "do_time a system_hz = Inr (Replies r)" "reply_time r = boottime a + uptime a div system_hz" by blast
  obtain q where q: "do_utctime a system_hz = Inr (Replies q)"
    "sint (reply_time q) = sint (reply_time r) + 10 + int (leap_seconds_until (sint (reply_time r)))"
    using utctime_reply [OF assms] r(2) by auto
  have c: "time_call ''TIME'' a system_hz = Some (Inr (OK, reply_time r))"
    "time_call ''UTCTIME'' a system_hz = Some (Inr (OK, reply_time q))"
    using n r(1) q(1) by (simp_all add: time_call_def time_entry utctime_entry)
  have f: "test_main tloc a a system_hz =
      Some (if tloc then Inl Out_Of_Bounds else Inr (reply_time r, reply_time q))" for tloc
    unfolding test_main_def c by (simp add: utctime_def gettime_def OK_def)
  show "\<exists>t u. test_main False a a system_hz = Some (Inr (t, u)) \<and>
      sint u - sint t = 10 + int (leap_seconds_until (sint t))"
    unfolding f using q(2) by simp
  show "test_main True a a system_hz = Some (Inl Out_Of_Bounds)" unfolding f by simp
qed

end
