(* ===== verification/CStrings.thy ===== *)
theory CStrings
  imports CPrelude
begin

text \<open>
  The functions of \<open>ctype.h\<close>, \<open>stdlib.h\<close> and \<open>string.h\<close> more than one of the modelled programs
  calls, as the C standard (in the C locale) and, for \<open>strlcpy\<close>, BSD document them.
\<close>

text \<open>\<open>atoi\<close>: white space, a sign, digits; a value no \<open>int\<close> can hold is undefined behaviour.\<close>

definition isspace :: "char \<Rightarrow> bool" where
  "isspace c \<longleftrightarrow> of_char c \<in> {9, 10, 11, 12, 13, 32 :: nat}"

definition isdigit :: "char \<Rightarrow> bool" where
  "isdigit c \<longleftrightarrow> 48 \<le> (of_char c :: nat) \<and> of_char c \<le> (57 :: nat)"

definition digits_val :: "string \<Rightarrow> int" where
  "digits_val s = foldl (\<lambda>n c. 10 * n + (of_char c - 48)) 0 (takeWhile isdigit s)"

definition atoi_val :: "string \<Rightarrow> int" where
  "atoi_val s = (let t = dropWhile isspace s in
     if t \<noteq> [] \<and> hd t = CHR ''-'' then - digits_val (tl t)
     else if t \<noteq> [] \<and> hd t = CHR ''+'' then digits_val (tl t) else digits_val t)"

definition atoi :: "string \<Rightarrow> int res" where
  "atoi s = (let v = atoi_val (cstr s) in if - (2 ^ 31) \<le> v \<and> v < 2 ^ 31 then Inr v else Inl Int_Overflow)"

text \<open>\<open>strlcpy\<close>: as much as fits beside the terminating NUL.\<close>

definition strlcpy :: "string \<Rightarrow> nat \<Rightarrow> string" where
  "strlcpy src n = take (n - 1) (cstr src)"

text \<open>\<open>%s\<close> of \<open>printf\<close> on a block of characters, and \<open>%d\<close>.\<close>

definition text_of :: "string \<Rightarrow> string res" where
  "text_of chars = (if NUL \<in> set chars then Inr (cstr chars) else Inl Out_Of_Bounds)"

fun decimal :: "nat \<Rightarrow> string" where
  "decimal n = (if n < 10 then [] else decimal (n div 10)) @ [char_of (48 + n mod 10)]"

declare decimal.simps [simp del]

definition decimal_int :: "int \<Rightarrow> string" where
  "decimal_int i = (if i < 0 then ''-'' else []) @ decimal (nat \<bar>i\<bar>)"

end
