(* ===== verification/Kernel.thy ===== *)
theory Kernel
  imports CStrings "HOL-Library.Sublist"
begin

text \<open>
  The start of the MINIX kernel as far as it is logic of its own (Lab3, kernel/main.c): the
  lookup \<open>get_value\<close> in the parameters of the boot monitor, and the settings \<open>cstart\<close> derives
  from them. The parameter buffer is a list of characters, a pointer into it an offset, and a
  read beyond it is \<open>Out_Of_Bounds\<close>.
\<close>

definition char_at :: "string \<Rightarrow> nat \<Rightarrow> char res" where
  "char_at buf i = (if i < length buf then Inr (buf ! i) else Inl Out_Of_Bounds)"

text \<open>The inner \<open>for\<close>: advance both pointers while the characters agree and the name goes on.\<close>

function match_loop :: "string \<Rightarrow> string \<Rightarrow> nat \<Rightarrow> nat \<Rightarrow> (nat \<times> nat) res" where
  "match_loop params name namep envp =
     bind_res (str_at name namep) (\<lambda>n.
       if n = NUL then Inr (namep, envp)
       else bind_res (char_at params envp) (\<lambda>c.
         if n = c then match_loop params name (Suc namep) (Suc envp) else Inr (namep, envp)))"
  by pat_completeness auto
termination
  by (relation "measure (\<lambda>(params, name, namep, envp). length params - envp)")
    (auto simp: char_at_def split: if_splits)

text \<open>\<open>while (*envp++ != 0)\<close>: to the character after the next NUL.\<close>

function skip_loop :: "string \<Rightarrow> nat \<Rightarrow> nat res" where
  "skip_loop params envp =
     bind_res (char_at params envp) (\<lambda>c. if c \<noteq> NUL then skip_loop params (Suc envp) else Inr (Suc envp))"
  by pat_completeness auto
termination
  by (relation "measure (\<lambda>(params, envp). length params - envp)") (auto simp: char_at_def split: if_splits)

declare match_loop.simps [simp del] skip_loop.simps [simp del]

lemma match_loop_forward: "match_loop params name n e = Inr (n', e') \<Longrightarrow> e \<le> e'"
proof (induction params name n e rule: match_loop.induct)
  case (1 params name n e)
  from 1(2) show ?case
    by (subst (asm) match_loop.simps) (auto simp: bind_res_eq_Inr split: if_splits dest!: 1(1))
qed

lemma skip_loop_forward: "skip_loop params e = Inr e' \<Longrightarrow> e < e' \<and> e' \<le> length params"
proof (induction params e rule: skip_loop.induct)
  case (1 params e)
  from 1(2) obtain c where c: "char_at params e = Inr c"
    and r: "(if c \<noteq> NUL then skip_loop params (Suc e) else Inr (Suc e)) = Inr e'"
    by (subst (asm) skip_loop.simps) (auto simp: bind_res_eq_Inr)
  show ?case
  proof (cases "c = NUL")
    case True
    then show ?thesis using c r by (auto simp: char_at_def split: if_splits)
  next
    case False
    then show ?thesis using 1(1) [OF c] r by auto
  qed
qed

text \<open>The outer loop, from an entry on; the answer is the offset of the value.\<close>

function get_value_loop :: "string \<Rightarrow> string \<Rightarrow> nat \<Rightarrow> nat option res" where
  "get_value_loop params name envp =
     bind_res (char_at params envp) (\<lambda>c.
       if c = NUL then Inr None
       else bind_res (match_loop params name 0 envp) (\<lambda>(namep, envp1).
         bind_res (str_at name namep) (\<lambda>n.
         bind_res (char_at params envp1) (\<lambda>c1.
           if n = NUL \<and> c1 = CHR ''='' then Inr (Some (Suc envp1))
           else bind_res (skip_loop params envp1) (\<lambda>envp2. get_value_loop params name envp2)))))"
  by pat_completeness auto
termination
  by (relation "measure (\<lambda>(params, name, envp). length params - envp)")
    (auto dest!: match_loop_forward skip_loop_forward)

declare get_value_loop.simps [simp del]

definition get_value :: "string \<Rightarrow> string \<Rightarrow> nat option res" where
  "get_value params name = get_value_loop params name 0"

text \<open>\<open>env_get\<close> looks in the kernel's copy of the parameters.\<close>

definition env_get :: "string \<Rightarrow> string \<Rightarrow> nat option res" where
  "env_get param_buf name = get_value param_buf name"

section \<open>Looking up\<close>

text \<open>The parameters as the boot monitor lays them out: entries ended by NUL, an empty one last.\<close>

fun layout :: "string list \<Rightarrow> string" where
  "layout [] = [NUL]"
| "layout (e # es) = e @ NUL # layout es"

definition entries_ok :: "string list \<Rightarrow> bool" where
  "entries_ok es \<longleftrightarrow> (\<forall>e \<in> set es. c_string e \<and> e \<noteq> [])"

fun lookup :: "string list \<Rightarrow> string \<Rightarrow> string option" where
  "lookup [] name = None"
| "lookup (e # es) name =
     (if take (Suc (length name)) e = name @ ''='' then Some (drop (Suc (length name)) e) else lookup es name)"

text \<open>The length of the longest common prefix.\<close>

fun common :: "string \<Rightarrow> string \<Rightarrow> nat" where
  "common (a # as) (b # bs) = (if a = b then Suc (common as bs) else 0)"
| "common _ _ = 0"

lemma common_le: "common as bs \<le> length as" "common as bs \<le> length bs"
  by (induction as bs rule: common.induct) auto

lemma common_stop: "common as bs = length as \<or> common as bs = length bs \<or> as ! common as bs \<noteq> bs ! common as bs"
  by (induction as bs rule: common.induct) auto

lemma common_prefix: "k \<le> common as bs \<Longrightarrow> take k as = take k bs"
proof (induction as bs arbitrary: k rule: common.induct)
  case (1 a as b bs)
  then show ?case by (cases k) (auto split: if_splits)
qed auto

lemma c_string_nth: "c_string s \<Longrightarrow> k < length s \<Longrightarrow> s ! k \<noteq> NUL"
  unfolding c_string_def by (metis nth_mem)

lemma match_loop_common:
  assumes "params = pre @ e @ NUL # rest" "c_string e" "c_string name" "k \<le> common name e"
  shows "match_loop params name k (length pre + k) = Inr (common name e, length pre + common name e)"
  using assms(4)
proof (induction "common name e - k" arbitrary: k)
  case 0
  then have k: "k = common name e" by simp
  have at: "char_at params (length pre + k) = Inr (if k < length e then e ! k else NUL)"
    using common_le(2) [of name e] k by (auto simp: char_at_def assms(1) nth_append)
  show ?case
  proof (cases "k < length name")
    case True
    then have n: "str_at name k = Inr (name ! k)" "name ! k \<noteq> NUL"
      using assms(3) by (auto simp: str_at_def c_string_nth)
    moreover have "name ! k \<noteq> (if k < length e then e ! k else NUL)"
      using common_stop [of name e] k True n(2) by auto
    ultimately show ?thesis using at k by (subst match_loop.simps) simp
  next
    case False
    then have "k = length name" using common_le(1) [of name e] k by simp
    then show ?thesis using k by (subst match_loop.simps) (simp add: str_at_def)
  qed
next
  case (Suc m)
  then have k: "Suc k \<le> common name e" by simp
  then have l: "k < length name" "k < length e" using common_le [of name e] by auto
  have eq: "name ! k = e ! k" using common_prefix [OF k] l by (metis lessI nth_take)
  have "str_at name k = Inr (name ! k)" "name ! k \<noteq> NUL"
    using l assms(3) by (auto simp: str_at_def c_string_nth)
  moreover have "char_at params (length pre + k) = Inr (e ! k)"
    using l by (simp add: char_at_def assms(1) nth_append)
  moreover have "match_loop params name (Suc k) (length pre + Suc k) = Inr (common name e, length pre + common name e)"
    using Suc(1) [of "Suc k"] Suc(2) k by simp
  ultimately show ?case using eq by (subst match_loop.simps) simp
qed

lemma skip_loop_entry:
  assumes "params = pre @ e @ NUL # rest" "c_string e" "k \<le> length e"
  shows "skip_loop params (length pre + k) = Inr (length pre + length e + 1)"
  using assms(3)
proof (induction "length e - k" arbitrary: k)
  case 0
  then have "char_at params (length pre + k) = Inr NUL" by (simp add: char_at_def assms(1) nth_append)
  then show ?case using 0 by (subst skip_loop.simps) simp
next
  case (Suc m)
  then have l: "k < length e" by simp
  then have "char_at params (length pre + k) = Inr (e ! k)" "e ! k \<noteq> NUL"
    using assms(2) by (auto simp: char_at_def assms(1) nth_append c_string_nth)
  moreover have "skip_loop params (length pre + Suc k) = Inr (length pre + length e + 1)"
    using Suc(1) [of "Suc k"] Suc(2) l by simp
  ultimately show ?case by (subst skip_loop.simps) simp
qed

text \<open>An entry is the one looked for when the name and an equals sign are its prefix.\<close>

lemma entry_matches:
  assumes "c_string e" "c_string name"
  shows "common name e = length name \<and> length name < length e \<and> e ! length name = CHR ''='' \<longleftrightarrow>
    take (Suc (length name)) e = name @ ''=''"
proof
  assume m: "common name e = length name \<and> length name < length e \<and> e ! length name = CHR ''=''"
  then have "take (length name) e = name" using common_prefix [of "length name" name e] by simp
  then show "take (Suc (length name)) e = name @ ''=''" using m by (simp add: take_Suc_conv_app_nth)
next
  assume p: "take (Suc (length name)) e = name @ ''=''"
  then have e: "e = name @ CHR ''='' # drop (Suc (length name)) e"
    by (metis append_Cons append_Nil append_assoc append_take_drop_id)
  have "common name (name @ x) = length name" for x by (induction name) auto
  then have "common name e = length name" using e by metis
  then show "common name e = length name \<and> length name < length e \<and> e ! length name = CHR ''=''"
    using e by (metis length_append length_Cons add_Suc_right less_add_Suc1 nth_append_length)
qed

lemma get_value_loop_lookup:
  assumes "params = pre @ layout es @ junk" "entries_ok es" "c_string name"
  shows "case lookup es name of
     None \<Rightarrow> get_value_loop params name (length pre) = Inr None
   | Some v \<Rightarrow> \<exists>p. get_value_loop params name (length pre) = Inr (Some p) \<and> cstr (drop p params) = v"
  using assms
proof (induction es arbitrary: pre)
  case Nil
  then show ?case by (subst get_value_loop.simps) (simp add: char_at_def nth_append)
next
  case (Cons e es)
  have e: "c_string e" "e \<noteq> []" using Cons.prems(2) by (auto simp: entries_ok_def)
  have p: "params = pre @ e @ NUL # (layout es @ junk)" using Cons.prems(1) by simp
  let ?k = "common name e"
  have first: "char_at params (length pre) = Inr (hd e)" "hd e \<noteq> NUL"
    using e p by (cases e; auto simp: char_at_def nth_append c_string_def)+
  have m: "match_loop params name 0 (length pre) = Inr (?k, length pre + ?k)"
    using match_loop_common [OF p e(1) Cons.prems(3), of 0] by simp
  have n: "str_at name ?k = Inr (if ?k = length name then NUL else name ! ?k)"
    "?k \<noteq> length name \<Longrightarrow> name ! ?k \<noteq> NUL"
    using common_le(1) [of name e] Cons.prems(3) by (auto simp: str_at_def c_string_nth)
  have c: "char_at params (length pre + ?k) = Inr (if ?k < length e then e ! ?k else NUL)"
    using common_le(2) [of name e] p by (auto simp: char_at_def nth_append)
  have s: "skip_loop params (length pre + ?k) = Inr (length pre + length e + 1)"
    using skip_loop_entry [OF p e(1) common_le(2)] .
  note unfold = get_value_loop.simps [of params name "length pre"]
  show ?case
  proof (cases "take (Suc (length name)) e = name @ ''=''")
    case True
    then have k: "?k = length name" "length name < length e" "e ! length name = CHR ''=''"
      using entry_matches [OF e(1) Cons.prems(3)] by auto
    have "get_value_loop params name (length pre) = Inr (Some (Suc (length pre + ?k)))"
      unfolding unfold using first m n c k by simp
    moreover have "drop (Suc (length pre + ?k)) params = drop (Suc (length name)) e @ NUL # layout es @ junk"
      using p k by simp
    then have "cstr (drop (Suc (length pre + ?k)) params) = drop (Suc (length name)) e"
      using e(1) by (auto simp: cstr_def c_string_def takeWhile_append dest: in_set_dropD)
    ultimately show ?thesis using True by simp
  next
    case False
    have "\<not> (?k = length name \<and> (if ?k < length e then e ! ?k else NUL) = CHR ''='')"
      using False entry_matches [OF e(1) Cons.prems(3)] by (auto simp: NUL_def)
    then have step: "get_value_loop params name (length pre) = get_value_loop params name (length pre + length e + 1)"
      unfolding unfold using first m n c s by auto
    have "params = (pre @ e @ [NUL]) @ layout es @ junk" using p by simp
    moreover have "entries_ok es" using Cons.prems(2) by (simp add: entries_ok_def)
    ultimately have "case lookup es name of
        None \<Rightarrow> get_value_loop params name (length (pre @ e @ [NUL])) = Inr None
      | Some v \<Rightarrow> \<exists>p. get_value_loop params name (length (pre @ e @ [NUL])) = Inr (Some p) \<and> cstr (drop p params) = v"
      using Cons.IH Cons.prems(3) by blast
    then show ?thesis using False step by (simp add: add.assoc split: option.splits)
  qed
qed

text \<open>
  C34. \<open>get_value\<close> on the parameters the boot monitor lays out answers a pointer to the value of
  the first entry \<open>name=value\<close>, and NULL when there is none; it reads nothing outside the
  buffer. An entry whose name only starts with the one looked for is not taken.
\<close>

theorem get_value_lookup:
  assumes "entries_ok es" "c_string name"
  shows "case lookup es name of
     None \<Rightarrow> get_value (layout es @ junk) name = Inr None
   | Some v \<Rightarrow> \<exists>p. get_value (layout es @ junk) name = Inr (Some p) \<and> cstr (drop p (layout es @ junk)) = v"
  using get_value_loop_lookup [OF refl assms, where pre = "[]" and junk = junk]
  by (cases "lookup es name") (auto simp: get_value_def)

theorem get_value_lookup_witness:
  "\<exists>p. get_value (layout [''hzx=3'', ''hz=60'', ''hz=7''] @ ''q'') ''hz'' = Inr (Some p) \<and>
    cstr (drop p (layout [''hzx=3'', ''hz=60'', ''hz=7''] @ ''q'')) = ''60''"
  using get_value_lookup [of "[''hzx=3'', ''hz=60'', ''hz=7'']" "''hz''" "''q''"]
  by (simp add: entries_ok_def NUL_def)

section \<open>The settings of the kernel\<close>

text \<open>The constants of headers that are not in the repository, and the build's switches.\<close>

record build =
  VERBOSEBOOTVARNAME :: string
  DEFAULT_HZ :: int
  NR_PROCS :: nat
  NR_TASKS :: nat
  OS_RELEASE :: string
  OS_VERSION :: string
  release_size :: nat
  version_size :: nat
  LOAD_HISTORY :: nat
  USE_APIC :: bool
  USE_WATCHDOG :: bool
  CONFIG_SMP :: bool

record kernel =
  verboseboot :: int
  system_hz :: int
  nr_procs :: nat
  nr_tasks :: nat
  release :: string
  version :: string
  proc_last_slot :: nat
  proc_load_history :: "nat list"
  config_no_apic :: int
  config_apic_timer_x :: int
  watchdog_enabled :: int
  config_no_smp :: int

text \<open>\<open>value = env_get(name); if (value) x = atoi(value); else x = d;\<close>\<close>

definition setting :: "string \<Rightarrow> string \<Rightarrow> int \<Rightarrow> int res" where
  "setting buf name d = bind_res (env_get buf name) (\<lambda>v. case v of None \<Rightarrow> Inr d | Some p \<Rightarrow> atoi (drop p buf))"

definition hz_setting :: "build \<Rightarrow> string \<Rightarrow> int \<Rightarrow> int res" where
  "hz_setting b buf hz0 =
     bind_res (env_get buf ''hz'') (\<lambda>v.
     bind_res (case v of None \<Rightarrow> Inr hz0 | Some p \<Rightarrow> atoi (drop p buf)) (\<lambda>hz.
     Inr (if v = None \<or> hz < 2 \<or> hz > 50000 then DEFAULT_HZ b else hz)))"

definition cstart :: "build \<Rightarrow> string \<Rightarrow> kernel \<Rightarrow> kernel res" where
  "cstart b buf k =
     bind_res (setting buf (VERBOSEBOOTVARNAME b) (verboseboot k)) (\<lambda>vb.
     bind_res (hz_setting b buf (system_hz k)) (\<lambda>hz.
     let k1 = k\<lparr>verboseboot := vb, system_hz := hz, nr_procs := NR_PROCS b, nr_tasks := NR_TASKS b,
                release := strlcpy (OS_RELEASE b) (release_size b),
                version := strlcpy (OS_VERSION b) (version_size b),
                proc_last_slot := 0, proc_load_history := replicate (LOAD_HISTORY b) 0\<rparr> in
     bind_res (if USE_APIC b then
         bind_res (setting buf ''no_apic'' 1) (\<lambda>na.
         bind_res (setting buf ''apic_timer_x'' 1) (\<lambda>tx.
         Inr (k1\<lparr>config_no_apic := na, config_apic_timer_x := tx\<rparr>)))
       else Inr k1) (\<lambda>k2.
     bind_res (if USE_WATCHDOG b then
         bind_res (setting buf ''watchdog'' (watchdog_enabled k2)) (\<lambda>w. Inr (k2\<lparr>watchdog_enabled := w\<rparr>))
       else Inr k2) (\<lambda>k3.
     if CONFIG_SMP b then
       let k4 = (if config_no_apic k3 \<noteq> 0 then k3\<lparr>config_no_smp := 1\<rparr> else k3) in
       bind_res (setting buf ''no_smp'' 0) (\<lambda>ns. Inr (k4\<lparr>config_no_smp := ns\<rparr>))
     else Inr k3))))"

text \<open>What the parameters say: the value of an entry, or the default.\<close>

definition param :: "string list \<Rightarrow> string \<Rightarrow> int \<Rightarrow> int" where
  "param es name d = (case lookup es name of None \<Rightarrow> d | Some v \<Rightarrow> atoi_val v)"

definition values_ok :: "string list \<Rightarrow> bool" where
  "values_ok es \<longleftrightarrow> list_all (\<lambda>e. list_all (\<lambda>s. - (2 ^ 31) \<le> atoi_val s \<and> atoi_val s < 2 ^ 31) (suffixes e)) es"

lemma lookup_Some: "lookup es name = Some v \<Longrightarrow> \<exists>e \<in> set es. suffix v e"
proof (induction es)
  case (Cons e es)
  show ?case
  proof (cases "take (Suc (length name)) e = name @ ''=''")
    case True
    then show ?thesis using Cons.prems suffix_drop by fastforce
  next
    case False
    then show ?thesis using Cons by auto
  qed
qed simp

lemma env_get_setting:
  assumes "entries_ok es" "c_string name" "values_ok es"
  shows "\<exists>v. env_get (layout es @ junk) name = Inr v \<and> (v = None \<longleftrightarrow> lookup es name = None) \<and>
    (case v of None \<Rightarrow> Inr d | Some p \<Rightarrow> atoi (drop p (layout es @ junk))) = Inr (param es name d)"
proof (cases "lookup es name")
  case None
  then show ?thesis
    using get_value_loop_lookup [OF refl assms(1,2), where pre = "[]" and junk = junk]
    by (simp add: env_get_def get_value_def param_def)
next
  case (Some v)
  then obtain p where p: "env_get (layout es @ junk) name = Inr (Some p)"
      "cstr (drop p (layout es @ junk)) = v"
    using get_value_loop_lookup [OF refl assms(1,2), where pre = "[]" and junk = junk]
    by (auto simp: env_get_def get_value_def)
  obtain e where "e \<in> set es" "suffix v e" using lookup_Some [OF Some] by blast
  then have "- (2 ^ 31) \<le> atoi_val v \<and> atoi_val v < 2 ^ 31"
    using assms(3) by (auto simp: values_ok_def list_all_iff)
  then have "atoi (drop p (layout es @ junk)) = Inr (atoi_val v)"
    using p(2) unfolding atoi_def by (simp add: Let_def)
  then show ?thesis using p(1) Some by (simp add: param_def)
qed

lemma setting_param:
  assumes "entries_ok es" "c_string name" "values_ok es"
  shows "setting (layout es @ junk) name d = Inr (param es name d)"
  using env_get_setting [OF assms, of junk d] by (auto simp: setting_def)

lemma hz_setting_param:
  assumes "entries_ok es" "values_ok es"
  shows "hz_setting b (layout es @ junk) hz0 =
    Inr (let hz = param es ''hz'' 0 in if hz < 2 \<or> hz > 50000 then DEFAULT_HZ b else hz)"
proof -
  have "c_string ''hz''" by (simp add: NUL_def)
  from env_get_setting [OF assms(1) this assms(2), of junk hz0] show ?thesis
    by (auto simp: hz_setting_def param_def Let_def split: option.splits)
qed

lemma kernel_settings:
  assumes "entries_ok es" "values_ok es" "c_string (VERBOSEBOOTVARNAME b)"
  shows "\<exists>k'. cstart b (layout es @ junk) k = Inr k' \<and>
    system_hz k' = (let hz = param es ''hz'' 0 in if hz < 2 \<or> hz > 50000 then DEFAULT_HZ b else hz) \<and>
    verboseboot k' = param es (VERBOSEBOOTVARNAME b) (verboseboot k) \<and>
    config_no_apic k' = (if USE_APIC b then param es ''no_apic'' 1 else config_no_apic k) \<and>
    config_apic_timer_x k' = (if USE_APIC b then param es ''apic_timer_x'' 1 else config_apic_timer_x k) \<and>
    watchdog_enabled k' = (if USE_WATCHDOG b then param es ''watchdog'' (watchdog_enabled k) else watchdog_enabled k) \<and>
    config_no_smp k' = (if CONFIG_SMP b then param es ''no_smp'' 0 else config_no_smp k) \<and>
    nr_procs k' = NR_PROCS b \<and> proc_load_history k' = replicate (LOAD_HISTORY b) 0"
proof -
  have "c_string ''no_apic''" "c_string ''apic_timer_x''" "c_string ''watchdog''" "c_string ''no_smp''"
    by (simp_all add: NUL_def)
  note s = setting_param [OF assms(1) assms(3) assms(2)] this [THEN setting_param [OF assms(1) _ assms(2)]]
    hz_setting_param [OF assms(1,2)]
  show ?thesis unfolding cstart_def s bind_res_Inr Let_def by simp
qed

text \<open>
  C35. On parameters whose numbers fit an \<open>int\<close>, \<open>cstart\<close> is defined and derives every setting
  from them: the clock frequency from \<open>hz\<close> unless that is missing or outside 2 to 50000, the
  other settings from their entries or their defaults.
\<close>

theorem cstart_settings:
  assumes "entries_ok es" "values_ok es" "c_string (VERBOSEBOOTVARNAME b)"
  shows "\<exists>k'. cstart b (layout es @ junk) k = Inr k' \<and>
    system_hz k' = (let hz = param es ''hz'' 0 in if hz < 2 \<or> hz > 50000 then DEFAULT_HZ b else hz) \<and>
    verboseboot k' = param es (VERBOSEBOOTVARNAME b) (verboseboot k) \<and>
    config_no_apic k' = (if USE_APIC b then param es ''no_apic'' 1 else config_no_apic k) \<and>
    config_apic_timer_x k' = (if USE_APIC b then param es ''apic_timer_x'' 1 else config_apic_timer_x k) \<and>
    watchdog_enabled k' = (if USE_WATCHDOG b then param es ''watchdog'' (watchdog_enabled k) else watchdog_enabled k) \<and>
    config_no_smp k' = (if CONFIG_SMP b then param es ''no_smp'' 0 else config_no_smp k) \<and>
    nr_procs k' = NR_PROCS b \<and> proc_load_history k' = replicate (LOAD_HISTORY b) 0"
  using assms by (rule kernel_settings)

definition example_build :: build where
  "example_build = \<lparr>VERBOSEBOOTVARNAME = ''verbose'', DEFAULT_HZ = 60, NR_PROCS = 256, NR_TASKS = 5,
     OS_RELEASE = ''3.4'', OS_VERSION = ''0'', release_size = 6, version_size = 6, LOAD_HISTORY = 4,
     USE_APIC = True, USE_WATCHDOG = True, CONFIG_SMP = True\<rparr>"

text \<open>Entries for the examples.\<close>

definition example_entries :: "string list" where
  "example_entries = [''hz=70000'', ''watchdog=1'']"

lemma example_entries_ok: "entries_ok example_entries" "values_ok example_entries"
  "c_string (VERBOSEBOOTVARNAME example_build)"
  by (simp add: entries_ok_def example_entries_def NUL_def) 
    (simp_all add: values_ok_def example_entries_def example_build_def NUL_def atoi_val_def digits_val_def
      isspace_def isdigit_def)

lemma example_lookups: "lookup example_entries ''hz'' = Some ''70000''"
  "lookup example_entries ''watchdog'' = Some ''1''" "lookup example_entries ''no_smp'' = None"
  "lookup example_entries ''no_apic'' = None"
  by (simp_all add: example_entries_def)

lemma example_params: "param example_entries ''hz'' d = 70000" "param example_entries ''watchdog'' d = 1"
  by (simp_all add: param_def example_lookups atoi_val_def digits_val_def isspace_def isdigit_def)

theorem cstart_settings_witness:
  "\<forall>k. \<exists>k'. cstart example_build (layout example_entries @ ''x'') k = Inr k' \<and> system_hz k' = 60 \<and>
    watchdog_enabled k' = 1"
proof
  fix k
  have b: "DEFAULT_HZ example_build = 60" "USE_WATCHDOG example_build" by (simp_all add: example_build_def)
  obtain k' where k: "cstart example_build (layout example_entries @ ''x'') k = Inr k'"
    "system_hz k' = (let hz = param example_entries ''hz'' 0 in
       if hz < 2 \<or> hz > 50000 then DEFAULT_HZ example_build else hz)"
    "watchdog_enabled k' = (if USE_WATCHDOG example_build
       then param example_entries ''watchdog'' (watchdog_enabled k) else watchdog_enabled k)"
    using cstart_settings [OF example_entries_ok, of "''x''" k] by blast
  have "system_hz k' = 60" "watchdog_enabled k' = 1"
    using k(2,3) b by (simp_all add: example_params Let_def)
  then show "\<exists>k'. cstart example_build (layout example_entries @ ''x'') k = Inr k' \<and> system_hz k' = 60 \<and>
    watchdog_enabled k' = 1" using k(1) by blast
qed

text \<open>
  Whatever the parameters hold, the clock frequency \<open>cstart\<close> leaves is between 2 and 50000,
  as long as the default of the build is.
\<close>

theorem cstart_hz_range:
  assumes "2 \<le> DEFAULT_HZ b" "DEFAULT_HZ b \<le> 50000" "cstart b buf k = Inr k'"
  shows "2 \<le> system_hz k' \<and> system_hz k' \<le> 50000"
proof -
  obtain h where "hz_setting b buf (system_hz k) = Inr h" "system_hz k' = h"
    using assms(3) unfolding cstart_def Let_def bind_res_eq_Inr by (force simp: bind_res_eq_Inr split: if_split_asm)
  then show ?thesis using assms(1,2) by (auto simp: hz_setting_def bind_res_eq_Inr split: if_split_asm)
qed

lemma example_cstart: "\<exists>k'. cstart example_build (layout example_entries @ junk) k = Inr k'"
proof -
  have c: "c_string ''no_apic''" "c_string ''apic_timer_x''" "c_string ''watchdog''" "c_string ''no_smp''"
    by (simp_all add: NUL_def)
  note s = setting_param [OF example_entries_ok(1,3,2)] hz_setting_param [OF example_entries_ok(1,2)]
    c [THEN setting_param [OF example_entries_ok(1) _ example_entries_ok(2)]]
  show ?thesis unfolding cstart_def s bind_res_Inr Let_def by simp
qed

theorem cstart_hz_range_witness:
  "\<forall>k. \<exists>k'. cstart example_build (layout example_entries @ ''x'') k = Inr k' \<and>
    2 \<le> system_hz k' \<and> system_hz k' \<le> 50000"
proof
  fix k
  obtain k' where "cstart example_build (layout example_entries @ ''x'') k = Inr k'"
    using example_cstart by blast
  moreover have "2 \<le> DEFAULT_HZ example_build" "DEFAULT_HZ example_build \<le> 50000"
    by (simp_all add: example_build_def)
  ultimately show "\<exists>k'. cstart example_build (layout example_entries @ ''x'') k = Inr k' \<and>
    2 \<le> system_hz k' \<and> system_hz k' \<le> 50000" using cstart_hz_range by blast
qed

text \<open>
  On a build with \<open>CONFIG_SMP\<close>, the assignment that switches multiprocessing off when the
  APIC is off has no effect: without an entry \<open>no_smp\<close> the setting ends as 0.
\<close>

theorem cstart_no_smp_lost:
  assumes "entries_ok es" "values_ok es" "c_string (VERBOSEBOOTVARNAME b)" "CONFIG_SMP b" "USE_APIC b"
    "lookup es ''no_smp'' = None" "lookup es ''no_apic'' = None"
  shows "\<exists>k'. cstart b (layout es @ junk) k = Inr k' \<and> config_no_apic k' = 1 \<and> config_no_smp k' = 0"
proof -
  have c: "c_string ''no_apic''" "c_string ''apic_timer_x''" "c_string ''watchdog''" "c_string ''no_smp''"
    by (simp_all add: NUL_def)
  note s = setting_param [OF assms(1) assms(3) assms(2)] c [THEN setting_param [OF assms(1) _ assms(2)]]
    hz_setting_param [OF assms(1,2)]
  show ?thesis unfolding cstart_def s bind_res_Inr Let_def using assms(4-) by (simp add: param_def)
qed

theorem cstart_no_smp_lost_witness:
  "\<forall>k. \<exists>k'. cstart example_build (layout example_entries @ ''x'') k = Inr k' \<and>
    config_no_apic k' = 1 \<and> config_no_smp k' = 0"
proof
  fix k
  have "CONFIG_SMP example_build" "USE_APIC example_build" by (simp_all add: example_build_def)
  from cstart_no_smp_lost [OF example_entries_ok this example_lookups(3,4)]
  show "\<exists>k'. cstart example_build (layout example_entries @ ''x'') k = Inr k' \<and>
    config_no_apic k' = 1 \<and> config_no_smp k' = 0" .
qed

end
