(* ===== verification/KernelBoot.thy ===== *)
theory KernelBoot
  imports CStrings
begin

text \<open>
  How the MINIX kernel sets up the processes of the boot image (Lab3, kernel/main.c): the loop of
  \<open>kmain\<close> over the image and the loop of \<open>bsp_finish_booting\<close> that lets the processes go. The
  constants, the macros and the functions that are not in the repository (\<open>get_priv\<close>,
  \<open>fill_sendto_mask\<close>, \<open>arch_boot_proc\<close>) are fields of the record \<open>boot_const\<close> or arguments;
  a process's flags \<open>p_rts_flags\<close>, one bit each, are the set of the flags that are on, and
  \<open>RTS_SET\<close> and \<open>RTS_UNSET\<close> add to it and take from it. The accounting of CPU time and the
  debugging prints are left out.
\<close>

section \<open>Processes\<close>

datatype rts = RTS_SLOT_FREE | RTS_PROC_STOP | RTS_NO_PRIV | RTS_NO_QUANTUM | RTS_VMINHIBIT | RTS_BOOTINHIBIT

text \<open>A process with its privilege structure.\<close>

record proc =
  p_nr :: int
  p_endpoint :: int
  p_rts_flags :: "rts set"
  p_name :: string
  p_priority :: int
  p_quantum_size_ms :: int
  priv_id :: "int option"
  s_flags :: int
  s_trap_mask :: int
  s_sig_mgr :: int
  s_k_call_mask :: "32 word list"

record boot_image =
  proc_name :: string
  proc_nr :: int
  endpoint :: int
  start_addr :: "32 word"
  len :: "32 word"

record boot_const =
  NR_BOOT_PROCS :: nat
  NR_TASKS :: nat
  NR_BOOT_MODULES :: nat
  NR_SYS_PROCS :: nat
  SYS_CALL_MASK_SIZE :: nat
  p_name_size :: nat
  VM_PROC_NR :: int
  IDLE :: int
  CLOCK :: int
  SYSTEM :: int
  SELF :: int
  iskerneln :: "int \<Rightarrow> bool"
  isrootsysn :: "int \<Rightarrow> bool"
  static_priv_id :: "int \<Rightarrow> int"
  VM_F :: int
  IDL_F :: int
  TSK_F :: int
  RSYS_F :: int
  SRV_T :: int
  CSK_T :: int
  TSK_T :: int
  SRV_M :: int
  TSK_M :: int
  ALL_M :: int
  SRV_KC :: int
  TSK_KC :: int
  NO_C :: int
  SRV_SM :: int
  SRV_Q :: int
  SRV_QT :: int
  get_priv :: "proc \<Rightarrow> int \<Rightarrow> proc"
  fill_sendto_mask :: "proc \<Rightarrow> bool list \<Rightarrow> proc"

text \<open>
  What the loop works on: the process table by number, the image, and the process the boot CPU's
  \<open>proc_ptr\<close> points to.
\<close>

record boot_state =
  procs :: "int \<Rightarrow> proc"
  image :: "boot_image list"
  proc_ptr :: "int option"

datatype boot_failure = Panics | Assertion_Fails | Bad_Access

section \<open>The loop of kmain\<close>

definition schedulable_proc :: "boot_const \<Rightarrow> int \<Rightarrow> bool" where
  "schedulable_proc k n \<longleftrightarrow> iskerneln k n \<or> isrootsysn k n \<or> n = VM_PROC_NR k"

text \<open>The privileges of a process: it with them, its allowed targets and its kernel calls.\<close>

definition set_privileges :: "boot_const \<Rightarrow> proc \<Rightarrow> boot_failure + proc \<times> int \<times> int" where
  "set_privileges k rp =
     (let n = p_nr rp; rp = get_priv k rp (static_priv_id k n) in
      if n = VM_PROC_NR k
      then Inr (rp\<lparr>s_flags := VM_F k, s_trap_mask := SRV_T k, s_sig_mgr := SELF k,
                   p_priority := SRV_Q k, p_quantum_size_ms := SRV_QT k\<rparr>, SRV_M k, SRV_KC k)
      else if iskerneln k n
      then Inr (rp\<lparr>s_flags := (if n = IDLE k then IDL_F k else TSK_F k),
                   s_trap_mask := (if n = CLOCK k \<or> n = SYSTEM k then CSK_T k else TSK_T k)\<rparr>, TSK_M k, TSK_KC k)
      else if \<not> isrootsysn k n then Inl Assertion_Fails
      else Inr (rp\<lparr>s_flags := RSYS_F k, s_trap_mask := SRV_T k, s_sig_mgr := SRV_SM k,
                   p_priority := SRV_Q k, p_quantum_size_ms := SRV_QT k\<rparr>, SRV_M k, SRV_KC k))"

text \<open>The target mask handed to \<open>fill_sendto_mask\<close>, and the mask of kernel calls.\<close>

definition fill_masks :: "boot_const \<Rightarrow> proc \<times> int \<times> int \<Rightarrow> proc" where
  "fill_masks k = (\<lambda>(rp, ipc_to_m, kcalls).
     (fill_sendto_mask k rp (replicate (NR_SYS_PROCS k) (ipc_to_m = ALL_M k)))
       \<lparr>s_k_call_mask := replicate (SYS_CALL_MASK_SIZE k) (if kcalls = NO_C k then 0 else - 1)\<rparr>)"

text \<open>The process, from the flags on: what runs now, what waits for privileges, for VM, for the start.\<close>

definition boot_flags :: "boot_const \<Rightarrow> proc \<Rightarrow> boot_failure + proc" where
  "boot_flags k rp =
     (if schedulable_proc k (p_nr rp) then map_sum id (fill_masks k) (set_privileges k rp)
      else Inr (rp\<lparr>p_rts_flags := p_rts_flags rp \<union> {RTS_NO_PRIV, RTS_NO_QUANTUM}\<rparr>))"

definition inhibit :: "boot_const \<Rightarrow> proc \<Rightarrow> proc" where
  "inhibit k rp =
     (let fs = p_rts_flags rp;
          fs1 = (if p_nr rp \<noteq> VM_PROC_NR k \<and> p_nr rp \<ge> 0 then fs \<union> {RTS_VMINHIBIT} \<union> {RTS_BOOTINHIBIT} else fs)
      in rp\<lparr>p_rts_flags := (fs1 \<union> {RTS_PROC_STOP}) - {RTS_SLOT_FREE}\<rparr>)"

text \<open>
  One round of the loop. \<open>arch_boot_proc\<close> is the function of the architecture, and a module is its
  start and its end.
\<close>

definition boot_proc :: "boot_const \<Rightarrow> (boot_image \<Rightarrow> proc \<Rightarrow> proc) \<Rightarrow> (32 word \<times> 32 word) list \<Rightarrow> nat \<Rightarrow> boot_state
    \<Rightarrow> boot_failure + boot_state" where
  "boot_proc k arch_boot_proc module_list i st =
     (if length (image st) \<le> i then Inl Bad_Access
      else
        let ip = image st ! i; rp = procs st (proc_nr ip); ip1 = ip\<lparr>endpoint := p_endpoint rp\<rparr>;
            rp1 = (if i < NR_TASKS k then rp\<lparr>p_name := strlcpy (proc_name ip) (p_name_size k)\<rparr> else rp)
        in if NR_TASKS k \<le> i \<and> length module_list \<le> i - NR_TASKS k then Inl Bad_Access
        else
          let ip2 = (if NR_TASKS k \<le> i
                     then ip1\<lparr>start_addr := fst (module_list ! (i - NR_TASKS k)),
                              len := snd (module_list ! (i - NR_TASKS k)) - fst (module_list ! (i - NR_TASKS k))\<rparr>
                     else ip1)
          in (case boot_flags k rp1 of
                Inl e \<Rightarrow> Inl e
              | Inr rp2 \<Rightarrow> Inr
                  (st\<lparr>procs := (procs st)(proc_nr ip := inhibit k (arch_boot_proc ip2 rp2)),
                      image := (image st)[i := ip2],
                      proc_ptr := (case proc_ptr st of None \<Rightarrow> Some (proc_nr ip) | Some p \<Rightarrow> Some p)\<rparr>)))"

fun boot_loop :: "boot_const \<Rightarrow> (boot_image \<Rightarrow> proc \<Rightarrow> proc) \<Rightarrow> (32 word \<times> 32 word) list \<Rightarrow> nat list \<Rightarrow> boot_state
    \<Rightarrow> boot_failure + boot_state" where
  "boot_loop k a ms [] st = Inr st"
| "boot_loop k a ms (i # is) st = (case boot_proc k a ms i st of Inl e \<Rightarrow> Inl e | Inr st1 \<Rightarrow> boot_loop k a ms is st1)"

text \<open>\<open>kmain\<close> from its check of the number of modules to the end of the loop.\<close>

definition setup_processes :: "boot_const \<Rightarrow> (boot_image \<Rightarrow> proc \<Rightarrow> proc) \<Rightarrow> nat \<Rightarrow> (32 word \<times> 32 word) list \<Rightarrow> boot_state
    \<Rightarrow> boot_failure + boot_state" where
  "setup_processes k a mods_count module_list st =
     (if NR_BOOT_MODULES k \<noteq> mods_count then Inl Panics
      else boot_loop k a module_list [0..<NR_BOOT_PROCS k] st)"

text \<open>The loop of \<open>bsp_finish_booting\<close>: the processes that are not kernel tasks may go.\<close>

definition start_processes :: "boot_const \<Rightarrow> boot_state \<Rightarrow> boot_state" where
  "start_processes k st =
     fold (\<lambda>i st. st\<lparr>procs := (procs st)(int i :=
       (procs st (int i))\<lparr>p_rts_flags := p_rts_flags (procs st (int i)) - {RTS_PROC_STOP}\<rparr>)\<rparr>)
       [0..<NR_BOOT_PROCS k - NR_TASKS k] st"

section \<open>Who may run\<close>

text \<open>
  What the constants and the start of the kernel are relied on for: the numbers of the image, the
  table as \<open>proc_init\<close> leaves it, that \<open>get_priv\<close> gives the process the structure asked for, and
  that it, \<open>fill_sendto_mask\<close> and the architecture's part change nothing else that is stated here.
\<close>

definition boot_ready :: "boot_const \<Rightarrow> (boot_image \<Rightarrow> proc \<Rightarrow> proc) \<Rightarrow> (32 word \<times> 32 word) list \<Rightarrow> boot_state \<Rightarrow> bool" where
  "boot_ready k a ms st \<longleftrightarrow>
     (\<forall>n. iskerneln k n \<longleftrightarrow> n < 0) \<and> (\<forall>n. isrootsysn k n \<longrightarrow> 0 \<le> n) \<and>
     0 \<le> VM_PROC_NR k \<and> \<not> isrootsysn k (VM_PROC_NR k) \<and>
     length (image st) = NR_BOOT_PROCS k \<and> length ms + NR_TASKS k = NR_BOOT_PROCS k \<and>
     distinct (map proc_nr (image st)) \<and>
     (\<forall>ip \<in> set (image st). proc_nr ip < int (NR_BOOT_PROCS k - NR_TASKS k)) \<and>
     (\<forall>ip rp. p_nr (a ip rp) = p_nr rp \<and> p_rts_flags (a ip rp) = p_rts_flags rp \<and> priv_id (a ip rp) = priv_id rp) \<and>
     (\<forall>rp i. p_nr (get_priv k rp i) = p_nr rp \<and> p_rts_flags (get_priv k rp i) = p_rts_flags rp \<and>
        priv_id (get_priv k rp i) = Some i) \<and>
     (\<forall>rp bs. p_nr (fill_sendto_mask k rp bs) = p_nr rp \<and>
        p_rts_flags (fill_sendto_mask k rp bs) = p_rts_flags rp \<and> priv_id (fill_sendto_mask k rp bs) = priv_id rp) \<and>
     (\<forall>n. p_nr (procs st n) = n \<and> p_rts_flags (procs st n) = {RTS_SLOT_FREE} \<and> priv_id (procs st n) = None)"

text \<open>The flags of a process after the loop of \<open>kmain\<close>, and in the end.\<close>

definition final_flags :: "boot_const \<Rightarrow> int \<Rightarrow> rts set" where
  "final_flags k n =
     (if n < 0 then {RTS_PROC_STOP}
      else if n = VM_PROC_NR k then {}
      else if isrootsysn k n then {RTS_VMINHIBIT, RTS_BOOTINHIBIT}
      else {RTS_NO_PRIV, RTS_NO_QUANTUM, RTS_VMINHIBIT, RTS_BOOTINHIBIT})"

definition booted :: "boot_const \<Rightarrow> int \<Rightarrow> proc \<Rightarrow> bool" where
  "booted k n rp \<longleftrightarrow> p_nr rp = n \<and> p_rts_flags rp = insert RTS_PROC_STOP (final_flags k n) \<and>
     (priv_id rp \<noteq> None \<longleftrightarrow> schedulable_proc k n)"

lemma boot_flags_ok:
  assumes "boot_ready k a ms st0" "p_nr rp = n" "p_rts_flags rp = {RTS_SLOT_FREE}" "priv_id rp = None"
  shows "\<exists>rp'. boot_flags k rp = Inr rp' \<and> booted k n (inhibit k (a ip rp'))"
  using assms
  by (auto simp: boot_ready_def boot_flags_def schedulable_proc_def set_privileges_def fill_masks_def Let_def
    booted_def inhibit_def final_flags_def)

lemma boot_proc_ok:
  assumes "boot_ready k a ms st0" "map proc_nr (image st) = map proc_nr (image st0)" "i < NR_BOOT_PROCS k"
    "procs st (proc_nr (image st ! i)) = procs st0 (proc_nr (image st ! i))"
  shows "\<exists>rp st'. boot_proc k a ms i st = Inr st' \<and> map proc_nr (image st') = map proc_nr (image st0) \<and>
    procs st' = (procs st)(proc_nr (image st ! i) := rp) \<and> booted k (proc_nr (image st ! i)) rp"
proof -
  let ?n = "proc_nr (image st ! i)"
  let ?rp = "procs st ?n"
  let ?rp1 = "if i < NR_TASKS k then ?rp\<lparr>p_name := strlcpy (proc_name (image st ! i)) (p_name_size k)\<rparr> else ?rp"
  have len: "i < length (image st)" "\<not> (NR_TASKS k \<le> i \<and> length ms \<le> i - NR_TASKS k)"
    using assms(1-3) by (auto simp: boot_ready_def dest: map_eq_imp_length_eq)
  have "p_nr ?rp1 = ?n" "p_rts_flags ?rp1 = {RTS_SLOT_FREE}" "priv_id ?rp1 = None"
    using assms(1,4) by (simp_all add: boot_ready_def)
  then obtain rp2 where rp2: "boot_flags k ?rp1 = Inr rp2" "\<And>ip. booted k ?n (inhibit k (a ip rp2))"
    using boot_flags_ok [OF assms(1)] by (metis sum.inject(2))
  define ip2 where "ip2 = (if NR_TASKS k \<le> i
     then (image st ! i)\<lparr>endpoint := p_endpoint ?rp, start_addr := fst (ms ! (i - NR_TASKS k)),
                          len := snd (ms ! (i - NR_TASKS k)) - fst (ms ! (i - NR_TASKS k))\<rparr>
     else (image st ! i)\<lparr>endpoint := p_endpoint ?rp\<rparr>)"
  have step: "boot_proc k a ms i st = Inr (st\<lparr>procs := (procs st)(?n := inhibit k (a ip2 rp2)),
      image := (image st)[i := ip2],
      proc_ptr := (case proc_ptr st of None \<Rightarrow> Some ?n | Some p \<Rightarrow> Some p)\<rparr>)"
    using len rp2(1) by (auto simp: boot_proc_def ip2_def Let_def)
  have "proc_nr ip2 = ?n" by (simp add: ip2_def)
  then have "map proc_nr ((image st)[i := ip2]) = map proc_nr (image st0)"
    using assms(2) len(1) by (metis list_update_id map_update)
  then show ?thesis using step rp2(2) [of ip2] by auto
qed

lemma boot_loop_ok:
  assumes "boot_ready k a ms st0" "map proc_nr (image st) = map proc_nr (image st0)" "j + m = NR_BOOT_PROCS k"
    "\<And>i. i < j \<Longrightarrow> booted k (proc_nr (image st0 ! i)) (procs st (proc_nr (image st0 ! i)))"
    "\<And>i. j \<le> i \<Longrightarrow> i < NR_BOOT_PROCS k \<Longrightarrow> procs st (proc_nr (image st0 ! i)) = procs st0 (proc_nr (image st0 ! i))"
  shows "\<exists>st'. boot_loop k a ms [j..<NR_BOOT_PROCS k] st = Inr st' \<and>
    (\<forall>i < NR_BOOT_PROCS k. booted k (proc_nr (image st0 ! i)) (procs st' (proc_nr (image st0 ! i))))"
  using assms(2-)
proof (induction m arbitrary: j st)
  case 0
  then show ?case by simp
next
  case (Suc m)
  let ?N = "\<lambda>i. proc_nr (image st0 ! i)"
  have j: "j < NR_BOOT_PROCS k" using Suc.prems(2) by simp
  have len: "length (image st0) = NR_BOOT_PROCS k" "length (image st) = NR_BOOT_PROCS k"
    using assms(1) Suc.prems(1) by (auto simp: boot_ready_def dest: map_eq_imp_length_eq)
  then have nr: "proc_nr (image st ! j) = ?N j" using Suc.prems(1) j by (metis nth_map)
  have inj: "?N i = ?N j \<longleftrightarrow> i = j" if "i < NR_BOOT_PROCS k" for i
    using assms(1) len j that by (auto simp: boot_ready_def distinct_conv_nth)
  have same: "procs st (proc_nr (image st ! j)) = procs st0 (proc_nr (image st ! j))"
    using Suc.prems(4) [of j] j nr by simp
  obtain rp st1 where st1: "boot_proc k a ms j st = Inr st1" "map proc_nr (image st1) = map proc_nr (image st0)"
    "procs st1 = (procs st)(?N j := rp)" "booted k (?N j) rp"
    using boot_proc_ok [OF assms(1) Suc.prems(1) j same] nr by auto
  have "\<exists>st'. boot_loop k a ms [Suc j..<NR_BOOT_PROCS k] st1 = Inr st' \<and>
      (\<forall>i < NR_BOOT_PROCS k. booted k (?N i) (procs st' (?N i)))"
  proof (rule Suc.IH [OF st1(2)])
    fix i assume "i < Suc j"
    then show "booted k (?N i) (procs st1 (?N i))"
      using Suc.prems(3) [of i] st1(3,4) j inj [of i] by (auto simp: less_Suc_eq)
  next
    fix i assume "Suc j \<le> i" "i < NR_BOOT_PROCS k"
    then show "procs st1 (?N i) = procs st0 (?N i)" using Suc.prems(4) [of i] st1(3) inj [of i] by auto
  qed (use Suc.prems(2) in simp)
  then show ?case using j st1(1) by (simp add: upt_conv_Cons)
qed

lemma unstop_fold:
  "p_rts_flags (procs (fold (\<lambda>i st. st\<lparr>procs := (procs st)(int i :=
       (procs st (int i))\<lparr>p_rts_flags := p_rts_flags (procs st (int i)) - {RTS_PROC_STOP}\<rparr>)\<rparr>) is st) n) =
     p_rts_flags (procs st n) - (if 0 \<le> n \<and> nat n \<in> set is then {RTS_PROC_STOP} else {})"
  by (induction "is" arbitrary: st) auto

lemma unstop_priv:
  "priv_id (procs (fold (\<lambda>i st. st\<lparr>procs := (procs st)(int i :=
       (procs st (int i))\<lparr>p_rts_flags := p_rts_flags (procs st (int i)) - {RTS_PROC_STOP}\<rparr>)\<rparr>) is st) n) =
     priv_id (procs st n)"
  by (induction "is" arbitrary: st) auto

lemma boot_image_flags:
  assumes "boot_ready k a module_list st" "NR_BOOT_MODULES k = length module_list"
  shows "\<exists>st'. setup_processes k a (length module_list) module_list st = Inr st' \<and>
    (\<forall>ip \<in> set (image st). let rp = procs (start_processes k st') (proc_nr ip) in
       p_rts_flags rp = final_flags k (proc_nr ip) \<and> (p_rts_flags rp = {} \<longleftrightarrow> proc_nr ip = VM_PROC_NR k) \<and>
       (priv_id rp \<noteq> None \<longleftrightarrow> schedulable_proc k (proc_nr ip)))"
proof -
  obtain st' where st': "boot_loop k a module_list [0..<NR_BOOT_PROCS k] st = Inr st'"
    "\<And>i. i < NR_BOOT_PROCS k \<Longrightarrow> booted k (proc_nr (image st ! i)) (procs st' (proc_nr (image st ! i)))"
    using boot_loop_ok [OF assms(1), of st 0 "NR_BOOT_PROCS k"] by auto
  have "p_rts_flags rp = final_flags k (proc_nr ip) \<and> (p_rts_flags rp = {} \<longleftrightarrow> proc_nr ip = VM_PROC_NR k) \<and>
       (priv_id rp \<noteq> None \<longleftrightarrow> schedulable_proc k (proc_nr ip))"
    if ip: "ip \<in> set (image st)" and rp: "rp = procs (start_processes k st') (proc_nr ip)" for ip rp
  proof -
    have b: "booted k (proc_nr ip) (procs st' (proc_nr ip))"
      using st'(2) ip assms(1) by (auto simp: in_set_conv_nth boot_ready_def)
    have n: "proc_nr ip < int (NR_BOOT_PROCS k - NR_TASKS k)" using ip assms(1) unfolding boot_ready_def by blast
    then have m: "0 \<le> proc_nr ip \<Longrightarrow> nat (proc_nr ip) < NR_BOOT_PROCS k - NR_TASKS k" by linarith
    have "p_rts_flags rp = p_rts_flags (procs st' (proc_nr ip)) - (if 0 \<le> proc_nr ip then {RTS_PROC_STOP} else {})"
      unfolding rp start_processes_def unstop_fold set_upt atLeastLessThan_iff using m by (cases "0 \<le> proc_nr ip") (simp_all only: simp_thms if_True if_False le0)
    then have f: "p_rts_flags rp = final_flags k (proc_nr ip)" using b by (auto simp: booted_def final_flags_def)
    moreover have "final_flags k (proc_nr ip) = {} \<longleftrightarrow> proc_nr ip = VM_PROC_NR k"
      using assms(1) by (auto simp: final_flags_def boot_ready_def)
    moreover have "priv_id rp = priv_id (procs st' (proc_nr ip))" unfolding rp start_processes_def unstop_priv ..
    ultimately show ?thesis using b by (simp add: booted_def)
  qed
  then have all: "\<forall>ip \<in> set (image st). let rp = procs (start_processes k st') (proc_nr ip) in
       p_rts_flags rp = final_flags k (proc_nr ip) \<and> (p_rts_flags rp = {} \<longleftrightarrow> proc_nr ip = VM_PROC_NR k) \<and>
       (priv_id rp \<noteq> None \<longleftrightarrow> schedulable_proc k (proc_nr ip))"
    unfolding Let_def by blast
  have "setup_processes k a (length module_list) module_list st = Inr st'"
    unfolding setup_processes_def assms(2) st'(1) by (simp only: simp_thms if_False)
  then show ?thesis using all by blast
qed

text \<open>
  C30. After the kernel has set up the boot image and let the processes go, VM is the only process
  nothing keeps from running: the kernel tasks are stopped, the root system process waits for VM
  and the start, and every other process waits for its privileges as well. Exactly the processes
  that may run without the root system process have a privilege structure. Two comments of main.c
  say otherwise: that the kernel tasks and the root system process run immediately (they have their
  privileges, but are stopped and inhibited), and that all boot processes are on the ready queue.
\<close>

theorem boot_runs_vm_only:
  assumes "boot_ready k a module_list st" "NR_BOOT_MODULES k = length module_list"
  shows "\<exists>st'. setup_processes k a (length module_list) module_list st = Inr st' \<and>
    (\<forall>ip \<in> set (image st). let rp = procs (start_processes k st') (proc_nr ip) in
       p_rts_flags rp = final_flags k (proc_nr ip) \<and> (p_rts_flags rp = {} \<longleftrightarrow> proc_nr ip = VM_PROC_NR k) \<and>
       (priv_id rp \<noteq> None \<longleftrightarrow> schedulable_proc k (proc_nr ip)))"
  using assms by (rule boot_image_flags)

definition sample_proc :: "int \<Rightarrow> proc" where
  "sample_proc n = \<lparr>p_nr = n, p_endpoint = n, p_rts_flags = {RTS_SLOT_FREE}, p_name = [], p_priority = 0,
     p_quantum_size_ms = 0, priv_id = None, s_flags = 0, s_trap_mask = 0, s_sig_mgr = 0, s_k_call_mask = []\<rparr>"

definition sample_const :: boot_const where
  "sample_const = \<lparr>NR_BOOT_PROCS = 4, NR_TASKS = 1, NR_BOOT_MODULES = 3, NR_SYS_PROCS = 2, SYS_CALL_MASK_SIZE = 1,
     p_name_size = 16, VM_PROC_NR = 2, IDLE = - 4, CLOCK = - 3, SYSTEM = - 2, SELF = 9,
     iskerneln = (\<lambda>n. n < 0), isrootsysn = (\<lambda>n. n = 1), static_priv_id = (\<lambda>n. n + 5),
     VM_F = 1, IDL_F = 2, TSK_F = 3, RSYS_F = 4, SRV_T = 5, CSK_T = 6, TSK_T = 7, SRV_M = 8, TSK_M = 0, ALL_M = 8,
     SRV_KC = 1, TSK_KC = 0, NO_C = 0, SRV_SM = 1, SRV_Q = 3, SRV_QT = 500,
     get_priv = (\<lambda>rp i. rp\<lparr>priv_id := Some i\<rparr>), fill_sendto_mask = (\<lambda>rp bs. rp)\<rparr>"

definition sample_state :: boot_state where
  "sample_state = \<lparr>procs = sample_proc,
     image = map (\<lambda>n. \<lparr>proc_name = [], proc_nr = n, endpoint = 0, start_addr = 0, len = 0\<rparr>) [- 1, 0, 1, 2],
     proc_ptr = None\<rparr>"

theorem boot_runs_vm_only_witness:
  "\<exists>st'. setup_processes sample_const (\<lambda>ip rp. rp) 3 [(0, 1), (1, 2), (2, 3)] sample_state = Inr st' \<and>
    p_rts_flags (procs (start_processes sample_const st') 2) = {} \<and>
    p_rts_flags (procs (start_processes sample_const st') 1) = {RTS_VMINHIBIT, RTS_BOOTINHIBIT} \<and>
    priv_id (procs (start_processes sample_const st') 0) = None"
proof -
  have ready: "boot_ready sample_const (\<lambda>ip rp. rp) [(0, 1), (1, 2), (2, 3)] sample_state"
    by (simp add: boot_ready_def sample_const_def sample_state_def sample_proc_def)
  have "NR_BOOT_MODULES sample_const = length [(0 :: 32 word, 1 :: 32 word), (1, 2), (2, 3)]"
    by (simp add: sample_const_def)
  moreover have three: "length [(0 :: 32 word, 1 :: 32 word), (1, 2), (2, 3)] = 3" by simp
  ultimately obtain st' where
    k: "setup_processes sample_const (\<lambda>ip rp. rp) 3 [(0, 1), (1, 2), (2, 3)] sample_state = Inr st'"
    and all: "\<forall>ip \<in> set (image sample_state). let rp = procs (start_processes sample_const st') (proc_nr ip) in
       p_rts_flags rp = final_flags sample_const (proc_nr ip) \<and>
       (p_rts_flags rp = {} \<longleftrightarrow> proc_nr ip = VM_PROC_NR sample_const) \<and>
       (priv_id rp \<noteq> None \<longleftrightarrow> schedulable_proc sample_const (proc_nr ip))"
    using boot_runs_vm_only [OF ready] unfolding three by blast
  have at: "p_rts_flags (procs (start_processes sample_const st') n) = final_flags sample_const n"
    "priv_id (procs (start_processes sample_const st') n) \<noteq> None \<longleftrightarrow> schedulable_proc sample_const n"
    if "n \<in> {0, 1, 2}" for n
  proof -
    let ?ip = "\<lparr>proc_name = [], proc_nr = n, endpoint = 0, start_addr = 0, len = 0\<rparr>"
    have ip: "?ip \<in> set (image sample_state)" "proc_nr ?ip = n" using that by (auto simp: sample_state_def)
    note all = bspec [OF all ip(1), unfolded Let_def ip(2)]
    show "p_rts_flags (procs (start_processes sample_const st') n) = final_flags sample_const n"
      using all by (rule conjunct1)
    show "priv_id (procs (start_processes sample_const st') n) \<noteq> None \<longleftrightarrow> schedulable_proc sample_const n"
      using conjunct2 [OF all] by (rule conjunct2)
  qed
  have k2: "VM_PROC_NR sample_const = 2" and k1: "isrootsysn sample_const n \<longleftrightarrow> n = 1"
    and k0: "iskerneln sample_const n \<longleftrightarrow> n < 0" for n
    unfolding sample_const_def by simp_all
  have "final_flags sample_const 2 = {}" "final_flags sample_const 1 = {RTS_VMINHIBIT, RTS_BOOTINHIBIT}"
    "\<not> schedulable_proc sample_const 0"
    unfolding final_flags_def schedulable_proc_def k2 k1 k0 by simp_all
  then show ?thesis using k at(1) [of 2] at(1) [of 1] at(2) [of 0] by (intro exI [of _ st']) simp
qed

end
