(* ===== verification/KernelStart.thy ===== *)
theory KernelStart
  imports Kernel KernelBoot
begin

text \<open>
  The rest of the start and the end of the kernel (Lab3, kernel/main.c): the names of the IPC calls,
  how \<open>kmain\<close> goes on after the boot image is set up, and the shutdown. What is done to hardware
  and to tables of other files is the sequence of the functions called.
\<close>

section \<open>The names of the calls\<close>

text \<open>The macro \<open>IPCNAME\<close>; the number of a call and the highest one are constants of a header.\<close>

type_synonym call_names = "int \<Rightarrow> string option"

definition IPCNAME :: "int \<Rightarrow> (string \<Rightarrow> int) \<Rightarrow> string \<Rightarrow> call_names \<Rightarrow> boot_failure + call_names" where
  "IPCNAME IPCNO_HIGHEST number n ipc_call_names =
     (if \<not> (0 \<le> number n \<and> number n \<le> IPCNO_HIGHEST) then Inl Assertion_Fails
      else if ipc_call_names (number n) \<noteq> None then Inl Assertion_Fails
      else Inr (ipc_call_names(number n := Some n)))"

fun name_calls :: "int \<Rightarrow> (string \<Rightarrow> int) \<Rightarrow> string list \<Rightarrow> call_names \<Rightarrow> boot_failure + call_names" where
  "name_calls highest number [] names = Inr names"
| "name_calls highest number (n # ns) names =
     (case IPCNAME highest number n names of Inl e \<Rightarrow> Inl e | Inr names1 \<Rightarrow> name_calls highest number ns names1)"

definition ipc_calls :: "string list" where
  "ipc_calls = [''SEND'', ''RECEIVE'', ''SENDREC'', ''NOTIFY'', ''SENDNB'', ''SENDA'']"

lemma name_calls_iff:
  "(\<exists>t. name_calls highest number ns names = Inr t) \<longleftrightarrow>
     distinct (map number ns) \<and> (\<forall>n \<in> set ns. 0 \<le> number n \<and> number n \<le> highest \<and> names (number n) = None)"
proof (induction ns arbitrary: names)
  case (Cons n ns)
  then show ?case by (auto simp: IPCNAME_def image_iff split: if_splits)
qed simp

lemma name_calls_table:
  "name_calls highest number ns names = Inr t \<Longrightarrow>
     t k = (case find (\<lambda>n. number n = k) ns of None \<Rightarrow> names k | Some n \<Rightarrow> Some n)"
proof (induction ns arbitrary: names)
  case (Cons n ns)
  then have r: "name_calls highest number ns (names(number n := Some n)) = Inr t"
    by (auto simp: IPCNAME_def split: if_splits)
  then have "\<forall>m \<in> set ns. number m \<noteq> number n"
    using name_calls_iff [of highest number ns "names(number n := Some n)"] by force
  then have "find (\<lambda>m. number m = number n) ns = None" by (auto simp: find_None_iff)
  then show ?case using Cons.IH [OF r] by (auto split: option.splits)
qed simp

text \<open>
  The kernel gets past the naming of the calls exactly when their numbers are all different and in
  the range of the table; then the table has the name of every call at its number and no others.
\<close>

lemma ipc_names:
  "(\<exists>t. name_calls highest number ipc_calls (\<lambda>k. None) = Inr t) \<longleftrightarrow>
     distinct (map number ipc_calls) \<and> (\<forall>n \<in> set ipc_calls. 0 \<le> number n \<and> number n \<le> highest)"
  "name_calls highest number ipc_calls (\<lambda>k. None) = Inr t \<Longrightarrow>
     t k = find (\<lambda>n. number n = k) ipc_calls"
  using name_calls_iff [of highest number ipc_calls "\<lambda>k. None"]
    name_calls_table [of highest number ipc_calls "\<lambda>k. None" t k]
  by (auto split: option.splits)

section \<open>How kmain goes on\<close>

datatype boot_call = Smp_Single_CPU_Fallback | Smp_Init | Bsp_Finish_Booting

text \<open>The end of \<open>kmain\<close>; \<open>smp_init\<close> comes back when it has failed.\<close>

definition finish_kmain :: "build \<Rightarrow> kernel \<Rightarrow> boot_call list" where
  "finish_kmain b k =
     (if CONFIG_SMP b
      then if config_no_apic k \<noteq> 0 then [Smp_Single_CPU_Fallback]
           else if config_no_smp k \<noteq> 0 then [Smp_Single_CPU_Fallback]
           else [Smp_Init, Bsp_Finish_Booting]
      else [Bsp_Finish_Booting])"

text \<open>
  From the boot parameters to the processors: with multiprocessing and APIC in the build, the
  kernel \<open>cstart\<close> has configured tries to start the other processors exactly when the parameters
  say \<open>no_apic\<close> is 0, which is not the default, and do not say that \<open>no_smp\<close> is not 0. So it does not
  matter that \<open>cstart\<close> overwrites the \<open>config_no_smp\<close> it has derived from \<open>config_no_apic\<close>.
\<close>

theorem processors_started:
  assumes "entries_ok es" "values_ok es" "c_string (VERBOSEBOOTVARNAME b)" "CONFIG_SMP b" "USE_APIC b"
  shows "\<exists>k'. cstart b (layout es @ junk) k = Inr k' \<and>
    (Smp_Init \<in> set (finish_kmain b k') \<longleftrightarrow> param es ''no_apic'' 1 = 0 \<and> param es ''no_smp'' 0 = 0) \<and>
    (Smp_Init \<notin> set (finish_kmain b k') \<longrightarrow> finish_kmain b k' = [Smp_Single_CPU_Fallback]) \<and>
    finish_kmain b (k'\<lparr>config_no_smp := if config_no_apic k' \<noteq> 0 then 1 else config_no_smp k'\<rparr>) = finish_kmain b k'"
proof -
  obtain k' where k: "cstart b (layout es @ junk) k = Inr k'" "config_no_apic k' = param es ''no_apic'' 1"
    "config_no_smp k' = param es ''no_smp'' 0"
    using kernel_settings [OF assms(1-3), of junk k] assms(4,5) by auto
  then show ?thesis using assms(4) by (auto simp: finish_kmain_def)
qed

theorem processors_started_witness:
  "\<forall>k. \<exists>k'. cstart example_build (layout example_entries @ ''x'') k = Inr k' \<and>
    finish_kmain example_build k' = [Smp_Single_CPU_Fallback]"
proof
  fix k
  have b: "CONFIG_SMP example_build" "USE_APIC example_build" by (simp_all add: example_build_def)
  have "param example_entries ''no_apic'' 1 = 1" by (simp add: param_def example_lookups)
  then show "\<exists>k'. cstart example_build (layout example_entries @ ''x'') k = Inr k' \<and>
      finish_kmain example_build k' = [Smp_Single_CPU_Fallback]"
    using processors_started [OF example_entries_ok b, of "''x''" k] by fastforce
qed

section \<open>The shutdown\<close>

record timer =
  exp_time :: "32 word"
  ta_int :: int

datatype shutdown_call = Smp_Shutdown_Aps | Hw_Intr_Disable_All | Stop_Local_Timer | Arch_Shutdown int

text \<open>\<open>prepare_shutdown\<close> sets a timer, whose function is \<open>minix_shutdown\<close>, to one second from now.\<close>

definition prepare_shutdown :: "int \<Rightarrow> 32 word \<Rightarrow> kernel \<Rightarrow> timer" where
  "prepare_shutdown how uptime k = \<lparr>exp_time = uptime + word_of_int (system_hz k), ta_int = how\<rparr>"

definition minix_shutdown :: "build \<Rightarrow> nat \<Rightarrow> int \<Rightarrow> timer option \<Rightarrow> shutdown_call list" where
  "minix_shutdown b ncpus RBT_PANIC tp =
     (if CONFIG_SMP b \<and> 1 < ncpus then [Smp_Shutdown_Aps] else []) @
     [Hw_Intr_Disable_All, Stop_Local_Timer,
      Arch_Shutdown (case tp of None \<Rightarrow> RBT_PANIC | Some t \<Rightarrow> ta_int t)]"

text \<open>
  The shutdown that was asked for is the one that happens, with the interrupts disabled, the timer
  stopped and no other processor running; without a timer it is a panic.
\<close>

lemma shutdown_as_asked:
  "last (minix_shutdown b ncpus panic (Some (prepare_shutdown how uptime k))) = Arch_Shutdown how"
  "last (minix_shutdown b ncpus panic None) = Arch_Shutdown panic"
  "{Hw_Intr_Disable_All, Stop_Local_Timer} \<subseteq> set (butlast (minix_shutdown b ncpus panic tp))"
  "CONFIG_SMP b \<Longrightarrow> 1 < ncpus \<Longrightarrow> hd (minix_shutdown b ncpus panic tp) = Smp_Shutdown_Aps"
  by (simp_all add: minix_shutdown_def prepare_shutdown_def)

section \<open>The frequency of a processor\<close>

text \<open>The two numbers \<open>cpu_print_freq\<close> prints, with \<open>%d\<close> and \<open>%lu\<close>; \<open>div64u\<close> answers a word of 32 bits.\<close>

definition cpu_print_freq :: "(32 word \<Rightarrow> 64 word) \<Rightarrow> (64 word \<Rightarrow> 32 word \<Rightarrow> 32 word) \<Rightarrow> 32 word \<Rightarrow> int \<times> nat" where
  "cpu_print_freq cpu_get_freq div64u cpu =
     (let freq = cpu_get_freq cpu in (sint cpu, unat (div64u freq 1000000)))"

lemma frequency_in_MHz:
  assumes "\<And>a b. b \<noteq> 0 \<Longrightarrow> unat a div unat b < 2 ^ 32 \<Longrightarrow> unat (div64u a b) = unat a div unat b"
    and "unat (cpu_get_freq cpu) < 2 ^ 32 * 1000000"
  shows "snd (cpu_print_freq cpu_get_freq div64u cpu) = unat (cpu_get_freq cpu) div 1000000"
proof -
  have "unat (cpu_get_freq cpu) div unat (1000000 :: 32 word) < 2 ^ 32"
    using assms(2) by (simp add: div_less_iff_less_mult)
  from assms(1) [OF _ this] show ?thesis by (simp add: cpu_print_freq_def)
qed

end
