(* ===== verification/KernelMain.thy ===== *)
theory KernelMain
  imports KernelStart
begin

text \<open>
  The boot of the kernel as a whole (Lab3, kernel/main.c): \<open>kmain\<close> from its entry to the switch to
  user mode, \<open>bsp_finish_booting\<close> and \<open>announce\<close>, over the variables they write. The functions of
  other files are calls in the list \<open>calls\<close>, each with what \<open>kernel_may_alloc\<close> was at the call;
  what they answer, and what \<open>proc_init\<close> and \<open>arch_boot_proc\<close> do to the process table, is the record
  \<open>outside\<close>. A pointer to a process is the number of the process. Debugging prints are left out.
\<close>

section \<open>The state\<close>

datatype kernel_call = Prot_Init | Intr_Init int | Arch_Init | Bkl_Lock | Proc_Init | Arch_Post_Init
  | Memory_Init | System_Init | Add_Memmap "32 word" "32 word" | Start boot_call
  | Cpu_Identify | Boot_Cpu_Init_Timer int | Fpu_Init | Fixme string | Cycles_Accounting_Init
  | Cpu_Set_Flag nat | Switch_To_User

text \<open>What the boot loader hands over.\<close>

record kernel_info =
  boot_procs :: "boot_image list"
  param_buf :: string
  mods_count :: nat
  module_list :: "(32 word \<times> 32 word) list"
  bootstrap_start :: "32 word"
  bootstrap_len :: "32 word"
  messages :: string

record machine =
  kinfo :: kernel_info
  kmess :: string
  settings :: kernel
  proc_table :: "int \<Rightarrow> proc"
  image_table :: "boot_image list"
  current :: "int option"
  bill_ptr :: "int option"
  ipc_call_names :: call_names
  kernel_may_alloc :: bool
  vm_running :: bool
  sprofiling :: bool
  cprof_procs_no :: nat
  random_sources :: nat
  random_elements :: nat
  processors_count :: nat
  bsp_id :: nat
  console :: string
  calls :: "(kernel_call \<times> bool) list"

text \<open>The switches of the build and the constants of the IPC calls.\<close>

record kernel_options =
  SPROFILE :: bool
  DEBUG_SCHED_CHECK :: bool
  DEBUG_VMASSERT :: bool
  DEBUG_PROC_CHECK :: bool
  VCS_REVISION :: "string option"
  RANDOM_SOURCES :: nat
  RANDOM_ELEMENTS :: nat
  IPCNO_HIGHEST :: int
  ipc_number :: "string \<Rightarrow> int"

record outside =
  proc_init :: "(int \<Rightarrow> proc) \<Rightarrow> int \<Rightarrow> proc"
  arch_boot_proc :: "boot_image \<Rightarrow> proc \<Rightarrow> proc"
  timer_status :: "int \<Rightarrow> int"
  smp_init_fails :: bool
  ncpus :: nat
  bsp_cpu_id :: nat

text \<open>
  How the boot ends: in user mode; with a panic or a failed assertion; with undefined behaviour; in
  a function of smp.c that goes on by itself; or behind the end of \<open>kmain\<close>.
\<close>

datatype boot_end = User_Mode machine | Stops boot_failure machine | Undefined ub
  | Given_To boot_call machine | Not_Reachable machine

definition kcall :: "kernel_call \<Rightarrow> machine \<Rightarrow> machine" where
  "kcall c m = m\<lparr>calls := calls m @ [(c, kernel_may_alloc m)]\<rparr>"

definition say :: "string \<Rightarrow> machine \<Rightarrow> machine" where
  "say s m = m\<lparr>console := console m @ s\<rparr>"

section \<open>The code\<close>

definition newline :: string where "newline = [CHR 0x0A]"

definition banner :: "kernel_options \<Rightarrow> build \<Rightarrow> string" where
  "banner c b =
     newline @ ''MINIX '' @ OS_RELEASE b @ ''.'' @ OS_VERSION b @ ''. '' @
     (case VCS_REVISION c of None \<Rightarrow> [] | Some r \<Rightarrow> ''('' @ r @ '')'' @ newline) @
     ''Copyright 2012, Vrije Universiteit, Amsterdam, The Netherlands. Modified by Oanca Andrei Madalin and Tom Apol as an exercise for OS(RuG).''
     @ newline @ ''MINIX is open source software, see http://www.minix3.org'' @ newline"

definition announce :: "kernel_options \<Rightarrow> build \<Rightarrow> machine \<Rightarrow> machine" where
  "announce c b m = say (banner c b) m"

definition fixmes :: "kernel_options \<Rightarrow> string list" where
  "fixmes c = (if DEBUG_SCHED_CHECK c then [''DEBUG_SCHED_CHECK enabled''] else []) @
     (if DEBUG_VMASSERT c then [''DEBUG_VMASSERT enabled''] else []) @
     (if DEBUG_PROC_CHECK c then [''PROC check enabled''] else [])"

definition bsp_finish_booting :: "kernel_options \<Rightarrow> build \<Rightarrow> boot_const \<Rightarrow> outside \<Rightarrow> machine \<Rightarrow> boot_end" where
  "bsp_finish_booting c b k x m =
     (let m1 = (if SPROFILE c then m\<lparr>sprofiling := False\<rparr> else m)\<lparr>cprof_procs_no := 0\<rparr>;
          m2 = (kcall Cpu_Identify m1)\<lparr>vm_running := False, random_sources := RANDOM_SOURCES c,
                 random_elements := RANDOM_ELEMENTS c, bill_ptr := Some (IDLE k), current := Some (IDLE k)\<rparr>;
          m3 = announce c b m2;
          st = start_processes k \<lparr>procs = proc_table m3, image = image_table m3, proc_ptr = current m3\<rparr>;
          hz = system_hz (settings m3);
          m4 = kcall (Boot_Cpu_Init_Timer hz) (m3\<lparr>proc_table := procs st\<rparr>)
      in if timer_status x hz \<noteq> 0 then Stops Panics m4
      else
        let m5 = kcall Cycles_Accounting_Init (fold (\<lambda>s. kcall (Fixme s)) (fixmes c) (kcall Fpu_Init m4));
            m6 = (if CONFIG_SMP b
                  then (kcall (Cpu_Set_Flag (bsp_cpu_id x)) m5)\<lparr>processors_count := ncpus x, bsp_id := bsp_cpu_id x\<rparr>
                  else m5\<lparr>processors_count := 1, bsp_id := 0\<rparr>)
        in User_Mode (kcall Switch_To_User (m6\<lparr>kernel_may_alloc := False\<rparr>)))"

text \<open>
  The end of \<open>kmain\<close>, the calls of \<open>finish_kmain\<close>: \<open>smp_single_cpu_fallback\<close> does not come back,
  \<open>smp_init\<close> only when it fails.
\<close>

fun start_cpus :: "kernel_options \<Rightarrow> build \<Rightarrow> boot_const \<Rightarrow> outside \<Rightarrow> boot_call list \<Rightarrow> machine \<Rightarrow> boot_end" where
  "start_cpus c b k x [] m = Not_Reachable m"
| "start_cpus c b k x (Smp_Single_CPU_Fallback # cs) m =
     Given_To Smp_Single_CPU_Fallback (kcall (Start Smp_Single_CPU_Fallback) m)"
| "start_cpus c b k x (Smp_Init # cs) m =
     (if smp_init_fails x then start_cpus c b k x cs (kcall (Start Smp_Init) m)
      else Given_To Smp_Init (kcall (Start Smp_Init) m))"
| "start_cpus c b k x (Bsp_Finish_Booting # cs) m = bsp_finish_booting c b k x (kcall (Start Bsp_Finish_Booting) m)"

definition kmain :: "kernel_options \<Rightarrow> build \<Rightarrow> boot_const \<Rightarrow> outside \<Rightarrow> kernel_info \<Rightarrow> machine \<Rightarrow> boot_end" where
  "kmain c b k x local_cbi m =
     (let m1 = m\<lparr>kinfo := local_cbi, kmess := messages local_cbi\<rparr>;
          m2 = (say (''MINIX booting'' @ newline) m1)\<lparr>kernel_may_alloc := True\<rparr>
      in if length (boot_procs (kinfo m2)) \<noteq> length (image_table m2) then Stops Assertion_Fails m2
      else
        let m3 = kcall Prot_Init (m2\<lparr>kinfo := (kinfo m2)\<lparr>boot_procs := image_table m2\<rparr>\<rparr>)
        in (case cstart b (param_buf (kinfo m3)) (settings m3) of Inl e \<Rightarrow> Undefined e
            | Inr s \<Rightarrow>
          let m4 = kcall Bkl_Lock (kcall Arch_Init (kcall (Intr_Init 0) (m3\<lparr>settings := s\<rparr>)));
              m5 = kcall Proc_Init (m4\<lparr>proc_table := proc_init x (proc_table m4)\<rparr>)
          in (case setup_processes k (arch_boot_proc x) (mods_count (kinfo m5)) (module_list (kinfo m5))
                \<lparr>procs = proc_table m5, image = image_table m5, proc_ptr = current m5\<rparr> of
                Inl e \<Rightarrow> Stops e m5
              | Inr st \<Rightarrow>
            let m6 = m5\<lparr>proc_table := procs st, image_table := image st, current := proc_ptr st\<rparr>;
                m7 = kcall Arch_Post_Init (m6\<lparr>kinfo := (kinfo m6)\<lparr>boot_procs := image_table m6\<rparr>\<rparr>)
            in (case name_calls (IPCNO_HIGHEST c) (ipc_number c) ipc_calls (ipc_call_names m7) of
                  Inl e \<Rightarrow> Stops e m7
                | Inr names \<Rightarrow>
              let m8 = kcall System_Init (kcall Memory_Init (m7\<lparr>ipc_call_names := names\<rparr>));
                  m9 = kcall (Add_Memmap (bootstrap_start (kinfo m8)) (bootstrap_len (kinfo m8))) m8
              in start_cpus c b k x (finish_kmain b (settings m9)) m9))))"

section \<open>What VM is told of the boot processes\<close>

text \<open>
  The entry of the image, with the endpoint of its process and, for a module, the memory the loader
  has put it in.
\<close>

definition told :: "boot_const \<Rightarrow> (32 word \<times> 32 word) list \<Rightarrow> boot_state \<Rightarrow> nat \<Rightarrow> boot_image" where
  "told k ms st i =
     (let ip = (image st ! i)\<lparr>endpoint := p_endpoint (procs st (proc_nr (image st ! i)))\<rparr>
      in if NR_TASKS k \<le> i
         then ip\<lparr>start_addr := fst (ms ! (i - NR_TASKS k)),
                 len := snd (ms ! (i - NR_TASKS k)) - fst (ms ! (i - NR_TASKS k))\<rparr>
         else ip)"

lemma proc_nr_told [simp]: "proc_nr (told k ms st i) = proc_nr (image st ! i)"
  by (simp add: told_def Let_def)

lemma boot_proc_told:
  assumes "boot_proc k a ms i st = Inr st'"
  shows "i < length (image st)" "image st' = (image st)[i := told k ms st i]"
    "\<exists>rp. procs st' = (procs st)(proc_nr (image st ! i) := rp)"
  using assms by (auto simp: boot_proc_def told_def Let_def split: if_splits sum.splits)

lemma boot_loop_told:
  assumes "boot_loop k a ms [j..<N] st = Inr st'" "distinct (map proc_nr (image st))" "length (image st) = N"
  shows "image st' = map (\<lambda>i. if j \<le> i then told k ms st i else image st ! i) [0..<N]"
  using assms
proof (induction "N - j" arbitrary: j st)
  case 0
  then have "st' = st" by simp
  then show ?case using 0 by (auto intro!: nth_equalityI)
next
  case (Suc m)
  have j: "j < N" using Suc.hyps(2) by simp
  then obtain st1 where b: "boot_proc k a ms j st = Inr st1" "boot_loop k a ms [Suc j..<N] st1 = Inr st'"
    using Suc.prems(1) by (auto simp: upt_conv_Cons split: sum.splits)
  obtain rp where rp: "procs st1 = (procs st)(proc_nr (image st ! j) := rp)" using boot_proc_told(3) [OF b(1)] by blast
  have im: "image st1 = (image st)[j := told k ms st j]" using boot_proc_told(2) [OF b(1)] .
  have nrs: "map proc_nr (image st1) = map proc_nr (image st)"
    using j Suc.prems(3) by (simp add: im map_update) (metis list_update_id nth_map)
  have same: "told k ms st1 i = told k ms st i" if "j < i" "i < N" for i
  proof -
    have "proc_nr (image st ! i) \<noteq> proc_nr (image st ! j)"
      using Suc.prems(2,3) that j by (auto simp: distinct_conv_nth)
    then show ?thesis using that by (simp add: told_def im rp)
  qed
  have "image st' = map (\<lambda>i. if Suc j \<le> i then told k ms st1 i else image st1 ! i) [0..<N]"
    using Suc.hyps(1) [of "Suc j" st1] Suc.hyps(2) b(2) nrs Suc.prems(2,3) im by simp
  also have "\<dots> = map (\<lambda>i. if j \<le> i then told k ms st i else image st ! i) [0..<N]"
  proof (rule map_cong [OF refl])
    fix i assume "i \<in> set [0..<N]"
    then show "(if Suc j \<le> i then told k ms st1 i else image st1 ! i) = (if j \<le> i then told k ms st i else image st ! i)"
      using same [of i] j Suc.prems(3) by (cases "i = j") (auto simp: im)
  qed
  finally show ?case .
qed

lemma setup_told:
  assumes "setup_processes k a n ms st = Inr st'" "boot_ready k a ms st"
  shows "image st' = map (told k ms st) [0..<NR_BOOT_PROCS k]"
proof -
  have "boot_loop k a ms [0..<NR_BOOT_PROCS k] st = Inr st'"
    using assms(1) by (auto simp: setup_processes_def split: if_splits)
  then show ?thesis using boot_loop_told [of k a ms 0 "NR_BOOT_PROCS k" st st'] assms(2) by (auto simp: boot_ready_def)
qed

section \<open>From the entry to user mode\<close>

definition boot_start :: "outside \<Rightarrow> machine \<Rightarrow> boot_state" where
  "boot_start x m = \<lparr>procs = proc_init x (proc_table m), image = image_table m, proc_ptr = current m\<rparr>"

text \<open>The calls of \<open>kmain\<close> up to its end, and those of \<open>bsp_finish_booting\<close>.\<close>

definition kmain_calls :: "kernel_info \<Rightarrow> kernel_call list" where
  "kmain_calls cbi = [Prot_Init, Intr_Init 0, Arch_Init, Bkl_Lock, Proc_Init, Arch_Post_Init, Memory_Init, System_Init,
     Add_Memmap (bootstrap_start cbi) (bootstrap_len cbi)]"

definition finish_calls :: "kernel_options \<Rightarrow> build \<Rightarrow> outside \<Rightarrow> int \<Rightarrow> kernel_call list" where
  "finish_calls c b x hz = [Cpu_Identify, Boot_Cpu_Init_Timer hz, Fpu_Init] @ map Fixme (fixmes c) @
     [Cycles_Accounting_Init] @ (if CONFIG_SMP b then [Cpu_Set_Flag (bsp_cpu_id x)] else []) @ [Switch_To_User]"

definition may_alloc_until_user :: "kernel_call list \<Rightarrow> (kernel_call \<times> bool) list" where
  "may_alloc_until_user qs = map (\<lambda>q. (q, q \<noteq> Switch_To_User)) qs"

lemma kcall_fields [simp]:
  "kinfo (kcall q m) = kinfo m" "settings (kcall q m) = settings m" "proc_table (kcall q m) = proc_table m"
  "image_table (kcall q m) = image_table m" "current (kcall q m) = current m" "ipc_call_names (kcall q m) = ipc_call_names m"
  "kernel_may_alloc (kcall q m) = kernel_may_alloc m" "vm_running (kcall q m) = vm_running m"
  "console (kcall q m) = console m" "calls (kcall q m) = calls m @ [(q, kernel_may_alloc m)]"
  "processors_count (kcall q m) = processors_count m" "bsp_id (kcall q m) = bsp_id m"
  by (simp_all add: kcall_def)

lemma fixmes_fold:
  "fold (\<lambda>s. kcall (Fixme s)) ss m = m\<lparr>calls := calls m @ map (\<lambda>s. (Fixme s, kernel_may_alloc m)) ss\<rparr>"
  by (induction ss arbitrary: m) (simp_all add: kcall_def)

text \<open>What \<open>bsp_finish_booting\<close> leaves behind.\<close>

lemma bsp_finish_booting_ends:
  assumes "kernel_may_alloc m" "timer_status x (system_hz (settings m)) = 0"
  shows "\<exists>m'. bsp_finish_booting c b k x m = User_Mode m' \<and> kinfo m' = kinfo m \<and> settings m' = settings m \<and>
    ipc_call_names m' = ipc_call_names m \<and> image_table m' = image_table m \<and>
    proc_table m' = procs (start_processes k \<lparr>procs = proc_table m, image = image_table m, proc_ptr = Some (IDLE k)\<rparr>) \<and>
    \<not> kernel_may_alloc m' \<and> \<not> vm_running m' \<and> current m' = Some (IDLE k) \<and>
    processors_count m' = (if CONFIG_SMP b then ncpus x else 1) \<and>
    console m' = console m @ banner c b \<and>
    calls m' = calls m @ may_alloc_until_user (finish_calls c b x (system_hz (settings m)))"
  using assms
  by (auto simp: bsp_finish_booting_def Let_def announce_def say_def fixmes_fold may_alloc_until_user_def
    finish_calls_def comp_def)

text \<open>\<open>kmain\<close> up to its end.\<close>

lemma kmain_until_end:
  assumes "length (boot_procs cbi) = length (image_table m)" "cstart b (param_buf cbi) (settings m) = Inr s"
    and "setup_processes k (arch_boot_proc x) (mods_count cbi) (module_list cbi) (boot_start x m) = Inr st"
    and "name_calls (IPCNO_HIGHEST c) (ipc_number c) ipc_calls (ipc_call_names m) = Inr names"
  shows "\<exists>m'. kmain c b k x cbi m = start_cpus c b k x (finish_kmain b s) m' \<and> kernel_may_alloc m' \<and>
    kinfo m' = cbi\<lparr>boot_procs := image st\<rparr> \<and> settings m' = s \<and> ipc_call_names m' = names \<and>
    image_table m' = image st \<and> proc_table m' = procs st \<and>
    console m' = console m @ ''MINIX booting'' @ newline \<and>
    calls m' = calls m @ may_alloc_until_user (kmain_calls cbi)"
  using assms
  by (simp add: kmain_def Let_def say_def may_alloc_until_user_def kmain_calls_def boot_start_def)
    (rule exI, rule conjI, rule refl, simp)

text \<open>What the calls and the hardware are relied on for, next to \<open>boot_ready\<close>.\<close>

definition boots_well :: "kernel_options \<Rightarrow> boot_const \<Rightarrow> outside \<Rightarrow> kernel_info \<Rightarrow> machine \<Rightarrow> bool" where
  "boots_well c k x cbi m \<longleftrightarrow>
     boot_ready k (arch_boot_proc x) (module_list cbi) (boot_start x m) \<and>
     mods_count cbi = length (module_list cbi) \<and> NR_BOOT_MODULES k = length (module_list cbi) \<and>
     length (boot_procs cbi) = length (image_table m) \<and> ipc_call_names m = (\<lambda>j. None) \<and>
     distinct (map (ipc_number c) ipc_calls) \<and> (\<forall>n \<in> set ipc_calls. 0 \<le> ipc_number c n \<and> ipc_number c n \<le> IPCNO_HIGHEST c)"

definition boot_hz :: "build \<Rightarrow> string list \<Rightarrow> int" where
  "boot_hz b es = (let hz = param es ''hz'' 0 in if hz < 2 \<or> hz > 50000 then DEFAULT_HZ b else hz)"

text \<open>The state at the end of \<open>kmain\<close>, and what is then known of the processes.\<close>

lemma kmain_well:
  assumes "entries_ok es" "values_ok es" "c_string (VERBOSEBOOTVARNAME b)" "param_buf cbi = layout es @ junk"
    and "boots_well c k x cbi m"
  obtains s st m' where
    "cstart b (layout es @ junk) (settings m) = Inr s" "system_hz s = boot_hz b es"
    "kmain c b k x cbi m = start_cpus c b k x (finish_kmain b s) m'" "kernel_may_alloc m'" "settings m' = s"
    "boot_procs (kinfo m') = map (told k (module_list cbi) (boot_start x m)) [0..<NR_BOOT_PROCS k]"
    "image_table m' = image st" "proc_table m' = procs st"
    "ipc_call_names m' = (\<lambda>j. find (\<lambda>n. ipc_number c n = j) ipc_calls)"
    "console m' = console m @ ''MINIX booting'' @ newline"
    "calls m' = calls m @ may_alloc_until_user (kmain_calls cbi)"
    "\<forall>ip \<in> set (image_table m). p_rts_flags (procs (start_processes k st) (proc_nr ip)) = final_flags k (proc_nr ip) \<and>
      (priv_id (procs (start_processes k st) (proc_nr ip)) \<noteq> None \<longleftrightarrow> schedulable_proc k (proc_nr ip))"
proof -
  note w = assms(5) [unfolded boots_well_def]
  obtain s where s: "cstart b (layout es @ junk) (settings m) = Inr s" "system_hz s = boot_hz b es"
    using kernel_settings [OF assms(1-3), of junk "settings m"] by (auto simp: boot_hz_def)
  have ready: "boot_ready k (arch_boot_proc x) (module_list cbi) (boot_start x m)"
    and mods: "NR_BOOT_MODULES k = length (module_list cbi)" "mods_count cbi = length (module_list cbi)" using w by auto
  obtain st where st: "setup_processes k (arch_boot_proc x) (mods_count cbi) (module_list cbi) (boot_start x m) = Inr st"
    and fl: "\<forall>ip \<in> set (image (boot_start x m)).
       p_rts_flags (procs (start_processes k st) (proc_nr ip)) = final_flags k (proc_nr ip) \<and>
       (priv_id (procs (start_processes k st) (proc_nr ip)) \<noteq> None \<longleftrightarrow> schedulable_proc k (proc_nr ip))"
    using boot_image_flags [OF ready mods(1)] unfolding mods(2) Let_def by blast
  obtain names where names: "name_calls (IPCNO_HIGHEST c) (ipc_number c) ipc_calls (\<lambda>j. None) = Inr names"
    using ipc_names(1) [of "IPCNO_HIGHEST c" "ipc_number c"] w by blast
  have "names = (\<lambda>j. find (\<lambda>n. ipc_number c n = j) ipc_calls)" using ipc_names(2) [OF names] by blast
  moreover obtain m' where "kmain c b k x cbi m = start_cpus c b k x (finish_kmain b s) m'" "kernel_may_alloc m'"
    "kinfo m' = cbi\<lparr>boot_procs := image st\<rparr>" "settings m' = s" "ipc_call_names m' = names"
    "image_table m' = image st" "proc_table m' = procs st" "console m' = console m @ ''MINIX booting'' @ newline"
    "calls m' = calls m @ may_alloc_until_user (kmain_calls cbi)"
    using kmain_until_end [of cbi m b s k x st c names] w s(1) st names assms(4) by auto
  moreover have "image (boot_start x m) = image_table m" by (simp add: boot_start_def)
  ultimately show thesis using that [OF s, of m' st] setup_told [OF st ready] fl by simp
qed

lemma start_processes_at:
  "procs (start_processes k st) n = (if 0 \<le> n \<and> nat n < NR_BOOT_PROCS k - NR_TASKS k
     then (procs st n)\<lparr>p_rts_flags := p_rts_flags (procs st n) - {RTS_PROC_STOP}\<rparr> else procs st n)"
proof -
  have "procs (fold (\<lambda>i st. st\<lparr>procs := (procs st)(int i :=
       (procs st (int i))\<lparr>p_rts_flags := p_rts_flags (procs st (int i)) - {RTS_PROC_STOP}\<rparr>)\<rparr>) is st) n =
     (if 0 \<le> n \<and> nat n \<in> set is then (procs st n)\<lparr>p_rts_flags := p_rts_flags (procs st n) - {RTS_PROC_STOP}\<rparr>
      else procs st n)" for "is"
    by (induction "is" arbitrary: st) auto
  from this [of "[0..<NR_BOOT_PROCS k - NR_TASKS k]"] show ?thesis by (simp add: start_processes_def)
qed

lemma start_processes_table:
  "procs (start_processes k \<lparr>procs = procs st, image = i, proc_ptr = p\<rparr>) = procs (start_processes k st)"
  by (rule ext) (simp add: start_processes_at)

text \<open>
  C28. In a build for one processor, with boot parameters whose numbers fit an \<open>int\<close>, the modules the
  build expects and a timer that starts, the kernel gets from \<open>kmain\<close> to user mode: it has called the
  other parts of the kernel in the order stated, each with the right to allocate memory except for
  the switch to user mode, has printed its banner once, runs at the frequency the parameters give,
  has named the IPC calls, VM is the only boot process nothing keeps from running, and what VM
  will read of the boot processes are their endpoints and the memory of their modules. That VM is the
  only one contradicts two comments of main.c (see \<open>boot_runs_vm_only\<close>).
\<close>

theorem kernel_boots:
  assumes "entries_ok es" "values_ok es" "c_string (VERBOSEBOOTVARNAME b)" "param_buf cbi = layout es @ junk"
    and "boots_well c k x cbi m" "\<not> CONFIG_SMP b" "timer_status x (boot_hz b es) = 0"
  shows "\<exists>m'. kmain c b k x cbi m = User_Mode m' \<and>
    calls m' = calls m @ may_alloc_until_user
      (kmain_calls cbi @ [Start Bsp_Finish_Booting] @ finish_calls c b x (boot_hz b es)) \<and>
    console m' = console m @ ''MINIX booting'' @ newline @ banner c b \<and>
    system_hz (settings m') = boot_hz b es \<and> \<not> kernel_may_alloc m' \<and> \<not> vm_running m' \<and>
    current m' = Some (IDLE k) \<and> processors_count m' = 1 \<and>
    ipc_call_names m' = (\<lambda>j. find (\<lambda>n. ipc_number c n = j) ipc_calls) \<and>
    (\<forall>ip \<in> set (image_table m). p_rts_flags (proc_table m' (proc_nr ip)) = {} \<longleftrightarrow> proc_nr ip = VM_PROC_NR k) \<and>
    boot_procs (kinfo m') = map (told k (module_list cbi) (boot_start x m)) [0..<NR_BOOT_PROCS k]"
proof -
  obtain s st m1 where "cstart b (layout es @ junk) (settings m) = Inr s" and 1: "system_hz s = boot_hz b es"
    "kmain c b k x cbi m = start_cpus c b k x (finish_kmain b s) m1" "kernel_may_alloc m1" "settings m1 = s"
    "boot_procs (kinfo m1) = map (told k (module_list cbi) (boot_start x m)) [0..<NR_BOOT_PROCS k]"
    "image_table m1 = image st" "proc_table m1 = procs st"
    "ipc_call_names m1 = (\<lambda>j. find (\<lambda>n. ipc_number c n = j) ipc_calls)"
    "console m1 = console m @ ''MINIX booting'' @ newline"
    "calls m1 = calls m @ may_alloc_until_user (kmain_calls cbi)"
    "\<forall>ip \<in> set (image_table m). p_rts_flags (procs (start_processes k st) (proc_nr ip)) = final_flags k (proc_nr ip) \<and>
      (priv_id (procs (start_processes k st) (proc_nr ip)) \<noteq> None \<longleftrightarrow> schedulable_proc k (proc_nr ip))"
    by (rule kmain_well [OF assms(1-5)])
  let ?m = "kcall (Start Bsp_Finish_Booting) m1"
  have start: "kmain c b k x cbi m = bsp_finish_booting c b k x ?m" using 1(2) assms(6) by (simp add: finish_kmain_def)
  have "kernel_may_alloc ?m" "timer_status x (system_hz (settings ?m)) = 0" using 1(1,3,4) assms(7) by simp_all
  from bsp_finish_booting_ends [OF this, of c b k] obtain m' where m': "bsp_finish_booting c b k x ?m = User_Mode m'"
    "kinfo m' = kinfo m1" "settings m' = s" "ipc_call_names m' = ipc_call_names m1"
    "proc_table m' = procs (start_processes k \<lparr>procs = procs st, image = image st, proc_ptr = Some (IDLE k)\<rparr>)"
    "\<not> kernel_may_alloc m'" "\<not> vm_running m'" "current m' = Some (IDLE k)"
    "processors_count m' = (if CONFIG_SMP b then ncpus x else 1)" "console m' = console m1 @ banner c b"
    "calls m' = (calls m1 @ [(Start Bsp_Finish_Booting, kernel_may_alloc m1)]) @
      may_alloc_until_user (finish_calls c b x (boot_hz b es))"
    unfolding kcall_fields 1(1,4,6,7) by (elim exE conjE) (rule that)
  have "final_flags k n = {} \<longleftrightarrow> n = VM_PROC_NR k" for n
    using assms(5) by (auto simp: final_flags_def boots_well_def boot_ready_def)
  then have vm: "\<forall>ip \<in> set (image_table m). p_rts_flags (proc_table m' (proc_nr ip)) = {} \<longleftrightarrow> proc_nr ip = VM_PROC_NR k"
    using 1(11) m'(5) [unfolded start_processes_table] by simp
  have cs: "calls m' = calls m @ may_alloc_until_user
      (kmain_calls cbi @ [Start Bsp_Finish_Booting] @ finish_calls c b x (boot_hz b es))"
    using m'(11) 1(3,10) by (simp add: may_alloc_until_user_def)
  have out: "console m' = console m @ ''MINIX booting'' @ newline @ banner c b" using m'(10) 1(9) by simp
  show ?thesis unfolding start m'(1)
    by (intro exI [of _ m'] conjI refl cs out vm m'(6-8)) (simp_all add: m'(2-4,9) 1(1,5,8) assms(6))
qed

text \<open>
  The kernel stops instead: with a panic when the loader has not put the expected number of modules
  in memory, before any process of the image is set up, or when the timer does not start.
\<close>

lemma kernel_stops:
  assumes "length (boot_procs cbi) = length (image_table m)" "cstart b (param_buf cbi) (settings m) = Inr s"
  shows "mods_count cbi \<noteq> NR_BOOT_MODULES k \<Longrightarrow>
      \<exists>m'. kmain c b k x cbi m = Stops Panics m' \<and> proc_table m' = proc_init x (proc_table m)"
    and "setup_processes k (arch_boot_proc x) (mods_count cbi) (module_list cbi) (boot_start x m) = Inr st \<Longrightarrow>
      ipc_call_names m = (\<lambda>j. None) \<Longrightarrow> \<not> distinct (map (ipc_number c) ipc_calls) \<Longrightarrow>
      \<exists>m'. kmain c b k x cbi m = Stops Assertion_Fails m'"
proof -
  assume "mods_count cbi \<noteq> NR_BOOT_MODULES k"
  then show "\<exists>m'. kmain c b k x cbi m = Stops Panics m' \<and> proc_table m' = proc_init x (proc_table m)"
    using assms by (simp add: kmain_def Let_def say_def setup_processes_def)
next
  assume a: "setup_processes k (arch_boot_proc x) (mods_count cbi) (module_list cbi) (boot_start x m) = Inr st"
    "ipc_call_names m = (\<lambda>j. None)" "\<not> distinct (map (ipc_number c) ipc_calls)"
  have only: "name_calls h f ns t = Inl e \<Longrightarrow> e = Assertion_Fails" for h f ns t e
    by (induction ns arbitrary: t) (auto simp: IPCNAME_def split: sum.splits if_splits)
  obtain e where "name_calls (IPCNO_HIGHEST c) (ipc_number c) ipc_calls (\<lambda>j. None) = Inl e"
    using ipc_names(1) [of "IPCNO_HIGHEST c" "ipc_number c"] a(3)
    by (cases "name_calls (IPCNO_HIGHEST c) (ipc_number c) ipc_calls (\<lambda>j. None)") auto
  then show "\<exists>m'. kmain c b k x cbi m = Stops Assertion_Fails m'"
    using only assms a(1,2) by (simp add: kmain_def Let_def say_def boot_start_def)
qed

text \<open>
  C29. In a build for several processors the kernel hands over to the single processor start of smp.c
  unless the parameters say that \<open>no_apic\<close> is 0 and \<open>no_smp\<close> is not set; then it tries to start the
  other processors, and when that fails it gets to user mode by itself, with VM as the only boot
  process nothing keeps from running and the number of processors as found.
\<close>

theorem kernel_boots_smp:
  assumes "entries_ok es" "values_ok es" "c_string (VERBOSEBOOTVARNAME b)" "param_buf cbi = layout es @ junk"
    and "boots_well c k x cbi m" "CONFIG_SMP b" "USE_APIC b" "timer_status x (boot_hz b es) = 0"
  shows "\<exists>m'. if param es ''no_apic'' 1 = 0 \<and> param es ''no_smp'' 0 = 0
    then if smp_init_fails x
      then kmain c b k x cbi m = User_Mode m' \<and> processors_count m' = ncpus x \<and>
        calls m' = calls m @ may_alloc_until_user
          (kmain_calls cbi @ [Start Smp_Init, Start Bsp_Finish_Booting] @ finish_calls c b x (boot_hz b es)) \<and>
        (\<forall>ip \<in> set (image_table m). p_rts_flags (proc_table m' (proc_nr ip)) = {} \<longleftrightarrow> proc_nr ip = VM_PROC_NR k)
      else kmain c b k x cbi m = Given_To Smp_Init m' \<and>
        calls m' = calls m @ may_alloc_until_user (kmain_calls cbi @ [Start Smp_Init])
    else kmain c b k x cbi m = Given_To Smp_Single_CPU_Fallback m' \<and>
      calls m' = calls m @ may_alloc_until_user (kmain_calls cbi @ [Start Smp_Single_CPU_Fallback])"
proof -
  obtain s st m1 where cs: "cstart b (layout es @ junk) (settings m) = Inr s" and e: "system_hz s = boot_hz b es"
    "kmain c b k x cbi m = start_cpus c b k x (finish_kmain b s) m1" "kernel_may_alloc m1" "settings m1 = s"
    "boot_procs (kinfo m1) = map (told k (module_list cbi) (boot_start x m)) [0..<NR_BOOT_PROCS k]"
    "image_table m1 = image st" "proc_table m1 = procs st"
    "ipc_call_names m1 = (\<lambda>j. find (\<lambda>n. ipc_number c n = j) ipc_calls)"
    "console m1 = console m @ ''MINIX booting'' @ newline"
    "calls m1 = calls m @ may_alloc_until_user (kmain_calls cbi)"
    "\<forall>ip \<in> set (image_table m). p_rts_flags (procs (start_processes k st) (proc_nr ip)) = final_flags k (proc_nr ip) \<and>
      (priv_id (procs (start_processes k st) (proc_nr ip)) \<noteq> None \<longleftrightarrow> schedulable_proc k (proc_nr ip))"
    by (rule kmain_well [OF assms(1-5)])
  have s: "config_no_apic s = param es ''no_apic'' 1" "config_no_smp s = param es ''no_smp'' 0"
    using kernel_settings [OF assms(1-3), of junk "settings m"] cs assms(6,7) by auto
  have given: "start_cpus c b k x (Smp_Single_CPU_Fallback # qs) m1 = Given_To Smp_Single_CPU_Fallback m2"
      "calls m2 = calls m @ may_alloc_until_user (kmain_calls cbi @ [Start Smp_Single_CPU_Fallback])"
    if "m2 = kcall (Start Smp_Single_CPU_Fallback) m1" for m2 qs
    using that e(3,10) by (simp_all add: may_alloc_until_user_def)
  let ?ap = "param es ''no_apic'' 1 = 0 \<and> param es ''no_smp'' 0 = 0"
  have fin: "finish_kmain b s = (if ?ap then [Smp_Init, Bsp_Finish_Booting] else [Smp_Single_CPU_Fallback])"
    using s assms(6) by (auto simp: finish_kmain_def)
  consider "\<not> ?ap" | "?ap" "\<not> smp_init_fails x" | "?ap" "smp_init_fails x" by blast
  then show ?thesis
  proof cases
    case 1
    show ?thesis unfolding if_not_P [OF 1]
      using given(1) [OF refl, of "[]"] given(2) [OF refl] e(2) fin [unfolded if_not_P [OF 1]] by simp
  next
    case 2
    show ?thesis unfolding if_P [OF 2(1)] if_not_P [OF 2(2)]
      using 2(2) e(2,3,10) fin [unfolded if_P [OF 2(1)]] by (simp add: may_alloc_until_user_def)
  next
    case 3
    let ?m = "kcall (Start Bsp_Finish_Booting) (kcall (Start Smp_Init) m1)"
    have start: "kmain c b k x cbi m = bsp_finish_booting c b k x ?m" using e(2) 3 fin by simp
    have "kernel_may_alloc ?m" "timer_status x (system_hz (settings ?m)) = 0" using e(1,3,4) assms(8) by simp_all
    from bsp_finish_booting_ends [OF this, of c b k] obtain m' where m': "bsp_finish_booting c b k x ?m = User_Mode m'"
      "proc_table m' = procs (start_processes k \<lparr>procs = procs st, image = image st, proc_ptr = Some (IDLE k)\<rparr>)"
      "processors_count m' = (if CONFIG_SMP b then ncpus x else 1)"
      "calls m' = ((calls m1 @ [(Start Smp_Init, kernel_may_alloc m1)]) @ [(Start Bsp_Finish_Booting, kernel_may_alloc m1)]) @
        may_alloc_until_user (finish_calls c b x (boot_hz b es))"
      unfolding kcall_fields e(1,4,6,7) by (elim exE conjE) (rule that)
    have "final_flags k n = {} \<longleftrightarrow> n = VM_PROC_NR k" for n
      using assms(5) by (auto simp: final_flags_def boots_well_def boot_ready_def)
    then have "\<forall>ip \<in> set (image_table m). p_rts_flags (proc_table m' (proc_nr ip)) = {} \<longleftrightarrow> proc_nr ip = VM_PROC_NR k"
      using e(11) m'(2) [unfolded start_processes_table] by simp
    moreover have "calls m' = calls m @ may_alloc_until_user
        (kmain_calls cbi @ [Start Smp_Init, Start Bsp_Finish_Booting] @ finish_calls c b x (boot_hz b es))"
      using m'(4) e(3,10) by (simp add: may_alloc_until_user_def)
    ultimately show ?thesis unfolding if_P [OF 3(1)] if_P [OF 3(2)] start
      using m'(1,3) assms(6) by (intro exI [of _ m']) simp
  qed
qed

section \<open>Witnesses\<close>

definition sample_options :: kernel_options where
  "sample_options = \<lparr>SPROFILE = True, DEBUG_SCHED_CHECK = False, DEBUG_VMASSERT = True, DEBUG_PROC_CHECK = False,
     VCS_REVISION = None, RANDOM_SOURCES = 16, RANDOM_ELEMENTS = 64, IPCNO_HIGHEST = 17,
     ipc_number = (\<lambda>n. if n = ''SEND'' then 1 else if n = ''RECEIVE'' then 2 else if n = ''SENDREC'' then 3
       else if n = ''NOTIFY'' then 4 else if n = ''SENDNB'' then 5 else 16)\<rparr>"

definition sample_outside :: outside where
  "sample_outside = \<lparr>proc_init = (\<lambda>t. sample_proc), arch_boot_proc = (\<lambda>ip rp. rp), timer_status = (\<lambda>hz. 0),
     smp_init_fails = True, ncpus = 2, bsp_cpu_id = 0\<rparr>"

definition sample_info :: kernel_info where
  "sample_info = \<lparr>boot_procs = image sample_state, param_buf = layout [''no_apic=0'', ''hz=100''], mods_count = 3,
     module_list = [(0, 1), (1, 2), (2, 3)], bootstrap_start = 4096, bootstrap_len = 8192, messages = []\<rparr>"

definition sample_machine :: machine where
  "sample_machine = \<lparr>kinfo = sample_info, kmess = [],
     settings = \<lparr>verboseboot = 0, system_hz = 0, nr_procs = 0, nr_tasks = 0, release = [], version = [],
       proc_last_slot = 0, proc_load_history = [], config_no_apic = 0, config_apic_timer_x = 0,
       watchdog_enabled = 0, config_no_smp = 0\<rparr>,
     proc_table = sample_proc, image_table = image sample_state, current = None, bill_ptr = None,
     ipc_call_names = (\<lambda>j. None), kernel_may_alloc = False, vm_running = True, sprofiling = False,
     cprof_procs_no = 0, random_sources = 0, random_elements = 0, processors_count = 0, bsp_id = 0,
     console = [], calls = []\<rparr>"

lemma sample_boots_well: "boots_well sample_options sample_const sample_outside sample_info sample_machine"
proof -
  have "boot_start sample_outside sample_machine = sample_state"
    by (simp add: boot_start_def sample_outside_def sample_machine_def sample_state_def)
  moreover have "boot_ready sample_const (\<lambda>ip rp. rp) [(0, 1), (1, 2), (2, 3)] sample_state"
    by (simp add: boot_ready_def sample_const_def sample_state_def sample_proc_def)
  ultimately show ?thesis
    by (simp add: boots_well_def sample_outside_def sample_info_def sample_machine_def)
      (simp add: sample_const_def sample_options_def ipc_calls_def)
qed

lemma sample_params: "entries_ok [''no_apic=0'', ''hz=100'']" "values_ok [''no_apic=0'', ''hz=100'']"
  "param [''no_apic=0'', ''hz=100''] ''no_apic'' 1 = 0" "param [''no_apic=0'', ''hz=100''] ''no_smp'' 0 = 0"
  "boot_hz b [''no_apic=0'', ''hz=100''] = 100"
  by (simp_all add: entries_ok_def values_ok_def param_def boot_hz_def NUL_def atoi_val_def digits_val_def
    isdigit_def isspace_def cstr_def)

lemma sample_hz: "param_buf sample_info = layout [''no_apic=0'', ''hz=100''] @ []" "timer_status sample_outside hz = 0"
  "smp_init_fails sample_outside" "ncpus sample_outside = 2" "CONFIG_SMP example_build" "USE_APIC example_build"
  by (simp_all add: sample_info_def sample_outside_def example_build_def)

theorem kernel_boots_witness:
  "\<exists>m'. kmain sample_options (example_build\<lparr>CONFIG_SMP := False\<rparr>) sample_const sample_outside sample_info sample_machine = User_Mode m' \<and>
    processors_count m' = 1 \<and> system_hz (settings m') = 100"
proof -
  let ?b = "example_build\<lparr>CONFIG_SMP := False\<rparr>"
  have "c_string (VERBOSEBOOTVARNAME ?b)" "\<not> CONFIG_SMP ?b" using example_entries_ok(3) by simp_all
  moreover have "boot_hz ?b [''no_apic=0'', ''hz=100''] = 100" by (rule sample_params(5))
  ultimately show ?thesis
    using kernel_boots [OF sample_params(1,2) _ sample_hz(1) sample_boots_well, of ?b] sample_hz(2) by auto
qed

theorem kernel_boots_smp_witness:
  "\<exists>m'. kmain sample_options example_build sample_const sample_outside sample_info sample_machine = User_Mode m' \<and>
    processors_count m' = 2"
  using kernel_boots_smp [OF sample_params(1,2) example_entries_ok(3) sample_hz(1) sample_boots_well sample_hz(5,6,2)]
  unfolding sample_params(3,4) sample_hz(4) if_P [OF conjI [OF refl refl]] if_P [OF sample_hz(3)] by blast

end
