(* ===== verification/Ring.thy ===== *)
theory Ring
  imports Runs
begin

text \<open>
  The ring of processes (Lab1/ring.c) once every process has its number: \<open>initMyPipes\<close>,
  \<open>cycleNumber\<close>, \<open>cleanup\<close> and the wait of \<open>main\<close>, as a step relation on all processes at once.
  Process i writes to pipe i and reads from pipe i - 1 (modulo the number of processes). A
  process is at a system call or at the head of its loop; a pipe is the list of numbers in it.
\<close>

section \<open>The processes\<close>

definition STOPNUMBER :: int where "STOPNUMBER = 50"
definition MYSIG_WAITFORCHILD :: int where "MYSIG_WAITFORCHILD = - 1"

text \<open>
  Where a process is: before \<open>initMyPipes\<close>; at the start of \<open>cycleNumber\<close>; at the head of its
  loop with a number; before the write and the read in the loop; before the write after the loop;
  before the read that waits for the stop signal; in \<open>cleanup\<close>; in \<open>waitpid\<close>; gone.
\<close>

datatype place = Init | Start | Loop int | Write_Next int | Read_Next | Stop int | Final_Read
  | Cleanup | Waiting | Exited

record ring =
  place :: "nat \<Rightarrow> place"
  queue :: "nat \<Rightarrow> int list"
  printed :: "(nat \<times> int) list"

definition ring_init :: ring where
  "ring_init = \<lparr>place = (\<lambda>i. Init), queue = (\<lambda>p. []), printed = []\<rparr>"

text \<open>
  Who holds an end of a pipe: a process that has not run \<open>initMyPipes\<close> has all of them,
  afterwards it has its own two until \<open>cleanup\<close>.
\<close>

definition input_pipe :: "nat \<Rightarrow> nat \<Rightarrow> nat" where
  "input_pipe n i = (i + n - 1) mod n"

definition holds_pipes :: "place \<Rightarrow> bool" where
  "holds_pipes x \<longleftrightarrow> x \<noteq> Waiting \<and> x \<noteq> Exited"

definition has_writer :: "nat \<Rightarrow> nat \<Rightarrow> ring \<Rightarrow> bool" where
  "has_writer n p s \<longleftrightarrow> list_ex (\<lambda>j. place s j = Init \<or> j = p \<and> holds_pipes (place s j)) [0..<n]"

definition has_reader :: "nat \<Rightarrow> nat \<Rightarrow> ring \<Rightarrow> bool" where
  "has_reader n p s \<longleftrightarrow> list_ex (\<lambda>j. place s j = Init \<or> input_pipe n j = p \<and> holds_pipes (place s j)) [0..<n]"

text \<open>
  A system call blocks, or the process goes on. A write to a pipe without a reader kills the
  process (SIGPIPE); a read at the end of a pipe leaves \<open>tempInt\<close> uninitialised.
\<close>

datatype outcome = Blocked | Sigpipe | Uninitialised_Int | Next ring

definition goto :: "nat \<Rightarrow> place \<Rightarrow> ring \<Rightarrow> ring" where
  "goto i x s = s\<lparr>place := (place s)(i := x)\<rparr>"

definition writeIntToMyPipe :: "nat \<Rightarrow> nat \<Rightarrow> nat \<Rightarrow> int \<Rightarrow> place \<Rightarrow> ring \<Rightarrow> outcome" where
  "writeIntToMyPipe n cap i v x s =
     (if \<not> has_reader n i s then Sigpipe
      else if cap \<le> length (queue s i) then Blocked
      else Next (goto i x (s\<lparr>queue := (queue s)(i := queue s i @ [v])\<rparr>)))"

definition readIntFromMyPipe :: "nat \<Rightarrow> nat \<Rightarrow> (int \<Rightarrow> place) \<Rightarrow> ring \<Rightarrow> outcome" where
  "readIntFromMyPipe n i f s =
     (let p = input_pipe n i in
      case queue s p of
        v # vs \<Rightarrow> Next (goto i (f v) (s\<lparr>queue := (queue s)(p := vs)\<rparr>))
      | [] \<Rightarrow> if has_writer n p s then Blocked else Uninitialised_Int)"

text \<open>One step of process i, with pipes that take \<open>cap\<close> numbers.\<close>

definition ring_step :: "nat \<Rightarrow> nat \<Rightarrow> nat \<Rightarrow> ring \<Rightarrow> outcome" where
  "ring_step n cap i s =
     (case place s i of
        Init \<Rightarrow> Next (goto i Start s)
      | Start \<Rightarrow> Next (goto i (if i \<noteq> 0 then Read_Next else Loop 0) s)
      | Loop number \<Rightarrow>
          if number \<noteq> MYSIG_WAITFORCHILD
          then (let s1 = s\<lparr>printed := printed s @ [(i, number)]\<rparr> in
                if number = STOPNUMBER then Next (goto i (Stop number) s1)
                else Next (goto i (Write_Next number) s1))
          else Next (goto i (Stop number) s)
      | Write_Next number \<Rightarrow> writeIntToMyPipe n cap i (number + 1) Read_Next s
      | Read_Next \<Rightarrow> readIntFromMyPipe n i Loop s
      | Stop number \<Rightarrow>
          writeIntToMyPipe n cap i MYSIG_WAITFORCHILD (if number = STOPNUMBER then Final_Read else Cleanup) s
      | Final_Read \<Rightarrow> readIntFromMyPipe n i (\<lambda>v. Cleanup) s
      | Cleanup \<Rightarrow> Next (goto i Waiting s)
      | Waiting \<Rightarrow> if Suc i < n \<and> place s (Suc i) \<noteq> Exited then Blocked else Next (goto i Exited s)
      | Exited \<Rightarrow> Blocked)"

definition ring_steps :: "nat \<Rightarrow> nat \<Rightarrow> ring \<Rightarrow> ring \<Rightarrow> bool" where
  "ring_steps n cap s s' \<longleftrightarrow> (\<exists>i<n. ring_step n cap i s = Next s')"

section \<open>The invariant\<close>

text \<open>
  Exactly one thing moves the number on: a process that has it, or the pipe it is in. The
  positions are counted through: position k up to 50 is where k is handled, at process k modulo
  n, the positions 51 to 49 + n are where the stop signal is handled.
\<close>

datatype phase = At nat | Out nat | In nat | Over

definition number_at :: "nat \<Rightarrow> int" where
  "number_at k = (if k \<le> 50 then int k else MYSIG_WAITFORCHILD)"

definition idle :: "nat \<Rightarrow> place \<Rightarrow> bool" where
  "idle i x \<longleftrightarrow> x = Read_Next \<or> i \<noteq> 0 \<and> (x = Init \<or> x = Start)"

definition done_place :: "place \<Rightarrow> bool" where
  "done_place x \<longleftrightarrow> x = Cleanup \<or> x = Waiting \<or> x = Exited"

definition passed :: "nat \<Rightarrow> nat \<Rightarrow> nat \<Rightarrow> bool" where
  "passed n k i \<longleftrightarrow> (\<exists>q. 50 < q \<and> q < k \<and> q mod n = i)"

definition rests :: "nat \<Rightarrow> nat \<Rightarrow> nat \<Rightarrow> place \<Rightarrow> bool" where
  "rests n k i x \<longleftrightarrow>
     (if passed n k i then done_place x else if 50 < k \<and> i = 50 mod n then x = Final_Read else idle i x)"

definition printed_upto :: "nat \<Rightarrow> nat \<Rightarrow> (nat \<times> int) list" where
  "printed_upto n k = map (\<lambda>j. (j mod n, int j)) [0..<min k 51]"

fun in_phase :: "nat \<Rightarrow> phase \<Rightarrow> ring \<Rightarrow> bool" where
  "in_phase n (At k) s \<longleftrightarrow> k < 50 + n \<and> queue s = (\<lambda>p. []) \<and> printed s = printed_upto n k \<and>
     (place s (k mod n) = Loop (number_at k) \<or> k = 0 \<and> (place s 0 = Init \<or> place s 0 = Start)) \<and>
     (\<forall>i<n. i \<noteq> k mod n \<longrightarrow> rests n k i (place s i))"
| "in_phase n (Out k) s \<longleftrightarrow> k < 50 + n \<and> queue s = (\<lambda>p. []) \<and> printed s = printed_upto n (Suc k) \<and>
     place s (k mod n) = (if k < 50 then Write_Next (number_at k) else Stop (number_at k)) \<and>
     (\<forall>i<n. i \<noteq> k mod n \<longrightarrow> rests n k i (place s i))"
| "in_phase n (In k) s \<longleftrightarrow> 0 < k \<and> k \<le> 50 + n \<and> queue s = (\<lambda>p. [])(input_pipe n (k mod n) := [number_at k]) \<and>
     printed s = printed_upto n k \<and> (\<forall>i<n. rests n k i (place s i))"
| "in_phase n Over s \<longleftrightarrow> queue s = (\<lambda>p. []) \<and> printed s = printed_upto n 51 \<and> (\<forall>i<n. done_place (place s i))"

text \<open>How far a state is: the phases in order, and the steps a process makes on its own.\<close>

fun phase_num :: "nat \<Rightarrow> phase \<Rightarrow> nat" where
  "phase_num n (At k) = 3 * k"
| "phase_num n (Out k) = 3 * k + 1"
| "phase_num n (In k) = 3 * k - 1"
| "phase_num n Over = 3 * (50 + n)"

fun rank :: "place \<Rightarrow> nat" where
  "rank Init = 0"
| "rank Start = 1"
| "rank Waiting = 3"
| "rank Exited = 4"
| "rank _ = 2"

definition ranks :: "nat \<Rightarrow> ring \<Rightarrow> nat" where
  "ranks n s = (\<Sum>i<n. rank (place s i))"

definition ring_inv :: "nat \<Rightarrow> nat \<Rightarrow> nat \<Rightarrow> ring \<Rightarrow> bool" where
  "ring_inv n cap k s \<longleftrightarrow> 2 \<le> n \<and> 1 \<le> cap \<and> (\<exists>ph. in_phase n ph s \<and> k = phase_num n ph + ranks n s)"

definition ring_final :: "nat \<Rightarrow> ring \<Rightarrow> bool" where
  "ring_final n s \<longleftrightarrow> (\<forall>i<n. place s i = Exited)"

section \<open>Arithmetic of the ring\<close>

lemma mod_distinct: "q mod n = r mod n \<Longrightarrow> q < r \<Longrightarrow> n \<le> r - q" for n q r :: nat
  by (metis dvd_imp_le less_imp_le_nat mod_eq_dvd_iff_nat zero_less_diff)

lemma input_pipe_less: "2 \<le> n \<Longrightarrow> input_pipe n i < n"
  by (simp add: input_pipe_def)

lemma input_pipe_Suc: "2 \<le> n \<Longrightarrow> input_pipe n (Suc k mod n) = k mod n"
proof -
  assume n: "2 \<le> n"
  have "input_pipe n (Suc k mod n) = (Suc k mod n + (n - 1)) mod n" using n by (simp add: input_pipe_def)
  also have "\<dots> = (Suc k + (n - 1)) mod n" by (simp add: mod_add_left_eq)
  also have "Suc k + (n - 1) = k + n" using n by simp
  finally show ?thesis by simp
qed

lemma next_of_input: "2 \<le> n \<Longrightarrow> i < n \<Longrightarrow> Suc (input_pipe n i) mod n = i"
proof -
  assume n: "2 \<le> n" "i < n"
  have "Suc (input_pipe n i) mod n = Suc (i + n - 1) mod n" by (simp add: input_pipe_def mod_Suc_eq)
  also have "Suc (i + n - 1) = i + n" using n by simp
  finally show ?thesis using n by simp
qed

lemma holder_not_passed: "k < 50 + n \<Longrightarrow> \<not> passed n k (k mod n)"
  using mod_distinct [of _ n k] by (fastforce simp: passed_def)

lemma first_not_passed: "k \<le> 50 + n \<Longrightarrow> \<not> passed n k (50 mod n)"
proof
  assume k: "k \<le> 50 + n" and "passed n k (50 mod n)"
  then obtain q where "50 < q" "q < k" "q mod n = 50 mod n" by (auto simp: passed_def)
  then show False using mod_distinct [of 50 n q] k by simp
qed

lemma passed_Suc: "passed n (Suc k) i \<longleftrightarrow> passed n k i \<or> 50 < k \<and> i = k mod n"
  by (auto simp: passed_def less_Suc_eq)

lemma holder_not_first: "50 < k \<Longrightarrow> k < 50 + n \<Longrightarrow> k mod n \<noteq> 50 mod n"
  for k n :: nat
  using mod_distinct [of 50 n k] by auto

lemma all_passed: "i < n \<Longrightarrow> passed n (50 + n) i \<or> i = 50 mod n"
proof -
  assume i: "i < n"
  let ?j = "(i + n - 50 mod n) mod n"
  have n: "0 < n" using i by simp
  have "(50 + ?j) mod n = (50 mod n + (i + n - 50 mod n)) mod n" by (simp add: mod_simps)
  also have "50 mod n + (i + n - 50 mod n) = i + n"
    using n by (metis add.commute le_add_diff_inverse le_trans less_imp_le_nat mod_less_divisor trans_le_add2 add_leD2)
  finally have j: "(50 + ?j) mod n = i" using i by simp
  show ?thesis
  proof (cases "?j = 0")
    case True
    then show ?thesis using j by simp
  next
    case False
    moreover have "?j < n" using n by simp
    ultimately have "50 < 50 + ?j \<and> 50 + ?j < 50 + n" by simp
    then show ?thesis using j unfolding passed_def by blast
  qed
qed

text \<open>What a process may do next to the holder of the number.\<close>

lemma rests_Suc: "rests n k i x \<Longrightarrow> i \<noteq> k mod n \<Longrightarrow> rests n (Suc k) i x"
  by (auto simp: rests_def passed_Suc less_Suc_eq split: if_splits)

lemma rests_holder:
  assumes "k < 50 + n"
  shows "rests n (Suc k) (k mod n) (if k < 50 then Read_Next else if k = 50 then Final_Read else Cleanup)"
  using assms holder_not_passed [OF assms] by (auto simp: rests_def passed_Suc idle_def done_place_def passed_def)

lemma rests_receiver: "k < 50 + n \<Longrightarrow> 0 < k \<Longrightarrow> rests n k (k mod n) x \<Longrightarrow> idle (k mod n) x"
  using holder_not_passed [of k n] holder_not_first [of k n] by (auto simp: rests_def split: if_splits)

lemma rests_last: "rests n (50 + n) (50 mod n) x \<Longrightarrow> 0 < n \<Longrightarrow> x = Final_Read"
  using first_not_passed [of "50 + n" n] by (auto simp: rests_def)

lemma rests_all: "i < n \<Longrightarrow> i \<noteq> 50 mod n \<Longrightarrow> rests n (50 + n) i x \<Longrightarrow> done_place x"
  using all_passed [of i n] by (auto simp: rests_def)

lemma rests_open:
  "rests n k i x \<Longrightarrow> \<not> passed n k i \<Longrightarrow> holds_pipes x"
  by (auto simp: rests_def idle_def holds_pipes_def split: if_splits)

text \<open>The phase says everything that the steps of a process change.\<close>

lemma in_phase_goto:
  assumes "in_phase n ph s" "i < n" "\<And>k. ph = At k \<Longrightarrow> i \<noteq> k mod n" "\<And>k. ph = Out k \<Longrightarrow> i \<noteq> k mod n"
    and "\<And>k. ph = At k \<or> ph = Out k \<or> ph = In k \<Longrightarrow> rests n k i x" "ph = Over \<Longrightarrow> done_place x"
  shows "in_phase n ph (goto i x s)"
  using assms by (cases ph) (auto simp: goto_def)

lemma sum_upd: "i < n \<Longrightarrow> (\<Sum>j<n. f (if j = i then x else g j)) + f (g i) = (\<Sum>j<n. f (g j)) + f x"
  for f :: "'a \<Rightarrow> nat" and i n :: nat
proof -
  assume "i < n"
  then have "(\<Sum>j<n. f (h j)) = f (h i) + (\<Sum>j \<in> {..<n} - {i}. f (h j))" for h :: "nat \<Rightarrow> 'a"
    by (simp add: sum.remove [of "{..<n}" i])
  from this [of g] this [of "\<lambda>j. if j = i then x else g j"] show ?thesis by simp
qed

lemma ranks_goto: "i < n \<Longrightarrow> ranks n (goto i x s) + rank (place s i) = ranks n s + rank x"
  using sum_upd [of i n rank x "place s"] by (simp add: ranks_def goto_def fun_upd_def)

lemma ranks_fields [simp]: "ranks n (s\<lparr>queue := q\<rparr>) = ranks n s" "ranks n (s\<lparr>printed := l\<rparr>) = ranks n s"
  by (simp_all add: ranks_def)

lemma ranks_same: "i < n \<Longrightarrow> rank x = rank (place s i) \<Longrightarrow> ranks n (goto i x s) = ranks n s"
  using ranks_goto [of i n x s] by simp

lemma goto_fields [simp]:
  "queue (goto i x s) = queue s" "printed (goto i x s) = printed s"
  "place (goto i x s) j = (if j = i then x else place s j)"
  by (simp_all add: goto_def)

lemma printed_upto_Suc: "k \<le> 50 \<Longrightarrow> printed_upto n (Suc k) = printed_upto n k @ [(k mod n, number_at k)]"
  by (simp add: printed_upto_def number_at_def)

lemma printed_upto_more: "50 < k \<Longrightarrow> printed_upto n k = printed_upto n 51"
  by (simp add: printed_upto_def)

section \<open>Steps keep the invariant\<close>

lemma next_not_passed: "2 \<le> n \<Longrightarrow> k < 50 + n \<Longrightarrow> \<not> passed n k (Suc k mod n)"
proof
  assume k: "k < 50 + n" and "passed n k (Suc k mod n)"
  then obtain q where "50 < q" "q < k" "q mod n = Suc k mod n" by (auto simp: passed_def)
  then show False using mod_distinct [of q n "Suc k"] k by simp
qed

lemma next_not_holder: "2 \<le> n \<Longrightarrow> Suc k mod n \<noteq> k mod n"
  using mod_distinct [of k n "Suc k"] by auto

lemma writer_not_passed:
  assumes "2 \<le> n" "j < n" "j \<noteq> k mod n" "rests n k j x" "\<not> done_place x"
  shows "\<not> passed n k (input_pipe n j)"
proof
  assume "passed n k (input_pipe n j)"
  then obtain q where q: "50 < q" "q < k" "q mod n = input_pipe n j" by (auto simp: passed_def)
  then have "Suc q mod n = j" using next_of_input [OF assms(1,2)] by (metis mod_Suc_eq)
  moreover from this have "Suc q < k" using q(2) assms(3) by (metis Suc_lessI)
  ultimately have "passed n k j" using q(1) by (auto simp: passed_def intro!: exI [of _ "Suc q"])
  then show False using assms(4,5) by (simp add: rests_def)
qed

lemma has_writerI: "p < n \<Longrightarrow> holds_pipes (place s p) \<Longrightarrow> has_writer n p s"
  by (auto simp: has_writer_def list_ex_iff)

lemma has_readerI: "j < n \<Longrightarrow> input_pipe n j = p \<Longrightarrow> holds_pipes (place s j) \<Longrightarrow> has_reader n p s"
  by (auto simp: has_reader_def list_ex_iff)

text \<open>A process that neither has the number nor is the next to get it.\<close>

lemma rests_step:
  assumes "rests n k i (place s i)"
    and "place s i = Read_Next \<or> place s i = Final_Read \<Longrightarrow>
      queue s (input_pipe n i) = [] \<and> has_writer n (input_pipe n i) s"
  shows "ring_step n cap i s = Blocked \<or>
    (\<exists>y. ring_step n cap i s = Next (goto i y s) \<and> rests n k i y \<and> rank y = Suc (rank (place s i)))"
  using assms
  by (auto simp: rests_def idle_def done_place_def ring_step_def readIntFromMyPipe_def Let_def split: if_splits)

lemma done_step:
  assumes "done_place (place s i)"
  shows "ring_step n cap i s = Blocked \<or>
    (\<exists>y. ring_step n cap i s = Next (goto i y s) \<and> done_place y \<and> rank y = Suc (rank (place s i)))"
  using assms by (auto simp: done_place_def ring_step_def)

text \<open>What the outcome of a step has to be.\<close>

definition advances :: "nat \<Rightarrow> phase \<Rightarrow> ring \<Rightarrow> outcome \<Rightarrow> bool" where
  "advances n ph s r \<longleftrightarrow> r = Blocked \<or>
     (\<exists>s' ph'. r = Next s' \<and> in_phase n ph' s' \<and> phase_num n ph' + ranks n s' = Suc (phase_num n ph + ranks n s))"

lemma advancesI:
  "in_phase n ph' s' \<Longrightarrow> phase_num n ph' + ranks n s' = Suc (phase_num n ph + ranks n s) \<Longrightarrow>
    advances n ph s (Next s')"
  by (auto simp: advances_def)

lemma advances_goto:
  assumes "in_phase n ph (goto i y s)" "i < n" "rank y = Suc (rank (place s i))"
  shows "advances n ph s (Next (goto i y s))"
  using assms ranks_goto [of i n y s] unfolding advances_def by fastforce

lemma advances_rests:
  assumes "in_phase n ph s" "i < n" "2 \<le> n" "ph = At k \<or> ph = Out k \<or> ph = In k" "i \<noteq> k mod n"
  shows "advances n ph s (ring_step n cap i s)"
proof -
  have r: "rests n k j (place s j)" if "j < n" "j \<noteq> k mod n" for j using assms(1,4) that by auto
  have q: "queue s (input_pipe n i) = []"
  proof -
    have "input_pipe n i \<noteq> input_pipe n (k mod n)"
      using next_of_input [OF assms(3), of i] next_of_input [OF assms(3), of "k mod n"] assms(2,3,5) by force
    then show ?thesis using assms(1,4) by auto
  qed
  have w: "has_writer n (input_pipe n i) s" if "place s i = Read_Next \<or> place s i = Final_Read"
  proof (rule has_writerI [OF input_pipe_less [OF assms(3)]])
    have p: "\<not> passed n k (input_pipe n i)"
      using writer_not_passed [OF assms(3,2,5) r] assms(2,5) that by (auto simp: done_place_def)
    show "holds_pipes (place s (input_pipe n i))"
    proof (cases "input_pipe n i = k mod n \<and> ph \<noteq> In k")
      case True
      then show ?thesis using assms(1,4) by (auto simp: holds_pipes_def split: if_splits)
    next
      case False
      then have "rests n k (input_pipe n i) (place s (input_pipe n i))"
        using assms(1,4) input_pipe_less [OF assms(3)] by auto
      then show ?thesis using rests_open p by blast
    qed
  qed
  from rests_step [of n k i s cap] r [OF assms(2,5)] q w
  consider "ring_step n cap i s = Blocked"
    | y where "ring_step n cap i s = Next (goto i y s)" "rests n k i y" "rank y = Suc (rank (place s i))" by blast
  then show ?thesis
  proof cases
    case 1
    then show ?thesis by (simp add: advances_def)
  next
    case 2
    have "in_phase n ph (goto i y s)" using in_phase_goto [OF assms(1,2)] assms(4,5) 2(2) by auto
    then show ?thesis using advances_goto assms(2) 2 by simp
  qed
qed

text \<open>The process that has the number, and the one it is on its way to.\<close>

lemma advances_at:
  assumes "in_phase n (At k) s" "2 \<le> n"
  shows "advances n (At k) s (ring_step n cap (k mod n) s)"
proof -
  let ?i = "k mod n"
  have i: "?i < n" using assms(2) by simp
  consider "k = 0" "place s 0 = Init" | "k = 0" "place s 0 = Start" | "place s ?i = Loop (number_at k)" "k \<le> 50"
    | "place s ?i = Loop (number_at k)" "50 < k" using assms(1) by fastforce
  then show ?thesis
  proof cases
    case 1
    then have "ring_step n cap ?i s = Next (goto ?i Start s)" by (simp add: ring_step_def)
    moreover have "in_phase n (At k) (goto ?i Start s)" using assms(1) 1 by auto
    ultimately show ?thesis using advances_goto [OF _ i] 1 by simp
  next
    case 2
    then have "ring_step n cap ?i s = Next (goto ?i (Loop 0) s)" by (simp add: ring_step_def)
    moreover have "in_phase n (At k) (goto ?i (Loop 0) s)" using assms(1) 2 by (auto simp: number_at_def)
    ultimately show ?thesis using advances_goto [OF _ i] 2 by simp
  next
    case 3
    let ?x = "if k < 50 then Write_Next (number_at k) else Stop (number_at k)"
    let ?s = "goto ?i ?x (s\<lparr>printed := printed s @ [(?i, number_at k)]\<rparr>)"
    have "ring_step n cap ?i s = Next ?s"
      using 3 by (auto simp: ring_step_def number_at_def MYSIG_WAITFORCHILD_def STOPNUMBER_def)
    moreover have "in_phase n (Out k) ?s"
      using assms(1) 3(2) by (auto simp: printed_upto_Suc)
    moreover have "ranks n ?s = ranks n s"
      by (subst ranks_same [OF i]) (use 3 in auto)
    ultimately show ?thesis unfolding advances_def by (intro disjI2 exI [of _ ?s] exI [of _ "Out k"]) simp
  next
    case 4
    let ?s = "goto ?i (Stop (number_at k)) s"
    have "ring_step n cap ?i s = Next ?s" using 4 by (simp add: ring_step_def number_at_def)
    moreover have "in_phase n (Out k) ?s"
      using assms(1) 4(2) printed_upto_more [of k n] printed_upto_more [of "Suc k" n] by auto
    moreover have "ranks n ?s = ranks n s"
      by (subst ranks_same [OF i]) (use 4 in auto)
    ultimately show ?thesis unfolding advances_def by (intro disjI2 exI [of _ ?s] exI [of _ "Out k"]) simp
  qed
qed

lemma advances_out:
  assumes "in_phase n (Out k) s" "2 \<le> n" "1 \<le> cap"
  shows "advances n (Out k) s (ring_step n cap (k mod n) s)"
    and "ring_step n cap (k mod n) s \<noteq> Blocked"
proof -
  let ?i = "k mod n"
  let ?x = "if k < 50 then Read_Next else if k = 50 then Final_Read else Cleanup"
  let ?t = "s\<lparr>queue := (queue s)(?i := queue s ?i @ [number_at (Suc k)])\<rparr>"
  have i: "?i < n" using assms(2) by simp
  have k: "k < 50 + n" "queue s = (\<lambda>p. [])" using assms(1) by auto
  have j: "Suc k mod n < n" "Suc k mod n \<noteq> ?i" using assms(2) next_not_holder by auto
  then have "rests n k (Suc k mod n) (place s (Suc k mod n))" using assms(1) by auto
  then have "holds_pipes (place s (Suc k mod n))"
    using rests_open next_not_passed [OF assms(2) k(1)] by blast
  then have "has_reader n ?i s" using has_readerI [OF j(1) input_pipe_Suc [OF assms(2)]] by blast
  then have step: "ring_step n cap ?i s = Next (goto ?i ?x ?t)"
    using assms(1,3) k(2)
    by (auto simp: ring_step_def writeIntToMyPipe_def number_at_def MYSIG_WAITFORCHILD_def STOPNUMBER_def
      add.commute)
  have "rests n (Suc k) j (place (goto ?i ?x ?t) j)" if "j < n" for j
  proof (cases "j = ?i")
    case True
    then show ?thesis using rests_holder [OF k(1)] by simp
  next
    case False
    then show ?thesis using assms(1) that rests_Suc by simp
  qed
  moreover have "queue (goto ?i ?x ?t) = (\<lambda>p. [])(input_pipe n (Suc k mod n) := [number_at (Suc k)])"
    "printed (goto ?i ?x ?t) = printed_upto n (Suc k)" "Suc k \<le> 50 + n"
    using assms(1) input_pipe_Suc [OF assms(2)] by simp_all
  ultimately have A: "in_phase n (In (Suc k)) (goto ?i ?x ?t)"
    unfolding in_phase.simps by blast
  have B: "ranks n (goto ?i ?x ?t) = ranks n s"
    by (subst ranks_same [OF i]) (use assms(1) in auto)
  show "advances n (Out k) s (ring_step n cap ?i s)"
    unfolding step by (rule advancesI [OF A]) (simp only: B, simp)
  show "ring_step n cap ?i s \<noteq> Blocked" using step by simp
qed

lemma upd_nil [simp]: "(\<lambda>p. [])(x := []) = (\<lambda>p. [])"
  by auto

lemma read_message:
  assumes "in_phase n (In k) s" "place s (k mod n) = Read_Next \<or> place s (k mod n) = Final_Read"
  shows "ring_step n cap (k mod n) s =
    Next (goto (k mod n) (if place s (k mod n) = Read_Next then Loop (number_at k) else Cleanup) (s\<lparr>queue := \<lambda>p. []\<rparr>))"
  using assms by (auto simp: ring_step_def readIntFromMyPipe_def Let_def)

lemma advances_in:
  assumes "in_phase n (In k) s" "2 \<le> n"
  shows "advances n (In k) s (ring_step n cap (k mod n) s)" and "ring_step n cap (k mod n) s \<noteq> Blocked"
proof -
  let ?i = "k mod n"
  have i: "?i < n" using assms(2) by simp
  have k: "0 < k" "k \<le> 50 + n" "rests n k ?i (place s ?i)" "\<And>j. j < n \<Longrightarrow> rests n k j (place s j)"
    using assms(1) i by auto
  consider "k < 50 + n" "place s ?i = Read_Next" | "k < 50 + n" "place s ?i = Init \<or> place s ?i = Start"
    | "k = 50 + n" "place s ?i = Final_Read"
  proof (cases "k < 50 + n")
    case True
    then show ?thesis using that(1,2) rests_receiver [OF True k(1,3)] by (auto simp: idle_def)
  next
    case False
    then have "k = 50 + n" using k(2) by simp
    then show ?thesis using that(3) rests_last [of n] k(3) assms(2) by simp
  qed
  then have "advances n (In k) s (ring_step n cap ?i s) \<and> ring_step n cap ?i s \<noteq> Blocked"
  proof cases
    case 1
    let ?s = "goto ?i (Loop (number_at k)) (s\<lparr>queue := \<lambda>p. []\<rparr>)"
    have "ring_step n cap ?i s = Next ?s" using read_message [OF assms(1)] 1 by simp
    moreover have "in_phase n (At k) ?s" using assms(1) 1 by auto
    moreover have "ranks n ?s = ranks n s"
      by (subst ranks_same [OF i]) (use 1 in auto)
    ultimately show ?thesis using k(1) unfolding advances_def
      by (intro conjI disjI2 exI [of _ ?s] exI [of _ "At k"]) simp_all
  next
    case 2
    from rests_step [OF k(3), of cap] 2(2) obtain y where
      y: "ring_step n cap ?i s = Next (goto ?i y s)" "rests n k ?i y" "rank y = Suc (rank (place s ?i))"
      by (auto simp: ring_step_def)
    then show ?thesis using advances_goto [OF in_phase_goto [OF assms(1) i]] i by simp
  next
    case 3
    let ?s = "goto ?i Cleanup (s\<lparr>queue := \<lambda>p. []\<rparr>)"
    have "ring_step n cap ?i s = Next ?s" using read_message [OF assms(1)] 3 by simp
    moreover have "in_phase n Over ?s"
      using assms 3(1) k(4) rests_all printed_upto_more [of "50 + n" n] by (auto simp: done_place_def)
    moreover have "ranks n ?s = ranks n s"
      by (subst ranks_same [OF i]) (use 3 in auto)
    ultimately show ?thesis using 3(1) unfolding advances_def
      by (intro conjI disjI2 exI [of _ ?s] exI [of _ Over]) simp_all
  qed
  then show "advances n (In k) s (ring_step n cap ?i s)" "ring_step n cap ?i s \<noteq> Blocked" by simp_all
qed

lemma advances_over:
  assumes "in_phase n Over s" "i < n"
  shows "advances n Over s (ring_step n cap i s)"
proof -
  have d: "done_place (place s i)" using assms by simp
  from done_step [OF d, of n cap] consider "ring_step n cap i s = Blocked"
    | y where "ring_step n cap i s = Next (goto i y s)" "done_place y" "rank y = Suc (rank (place s i))" by blast
  then show ?thesis
  proof cases
    case 1
    then show ?thesis by (simp add: advances_def)
  next
    case 2
    then show ?thesis using advances_goto [OF in_phase_goto [OF assms]] assms by simp
  qed
qed

lemma advances_step:
  assumes "in_phase n ph s" "i < n" "2 \<le> n" "1 \<le> cap"
  shows "advances n ph s (ring_step n cap i s)"
proof (cases ph)
  case (At k)
  then show ?thesis using assms advances_at advances_rests by metis
next
  case (Out k)
  then show ?thesis using assms advances_out(1) advances_rests by metis
next
  case (In k)
  then show ?thesis using assms advances_in(1) advances_rests by metis
next
  case Over
  then show ?thesis using assms advances_over by simp
qed

section \<open>Runs of the ring\<close>

lemma ring_stepE:
  assumes "ring_steps n cap s s'"
  obtains i where "i < n" "ring_step n cap i s = Next s'"
  using assms by (auto simp: ring_steps_def)

lemma at_not_blocked: "in_phase n (At k) s \<Longrightarrow> ring_step n cap (k mod n) s \<noteq> Blocked"
  by (auto simp: ring_step_def Let_def split: if_splits)

text \<open>In the end the processes go one by one, the last first.\<close>

lemma over_goes_on:
  assumes "in_phase n Over s" "\<not> ring_final n s"
  shows "\<exists>i<n. ring_step n cap i s \<noteq> Blocked"
proof -
  let ?P = "\<lambda>i. i < n \<and> place s i \<noteq> Exited"
  obtain i where "?P i" using assms(2) by (auto simp: ring_final_def)
  then obtain m where m: "?P m" "\<And>j. ?P j \<Longrightarrow> j \<le> m"
    using ex_has_greatest_nat [of ?P i "\<lambda>i. i" n] by auto
  have "done_place (place s m)" using assms(1) m by simp
  moreover have "Suc m < n \<Longrightarrow> place s (Suc m) = Exited" using m(2) [of "Suc m"] by auto
  ultimately have "ring_step n cap m s \<noteq> Blocked" using m(1) by (auto simp: done_place_def ring_step_def)
  then show ?thesis using m(1) by blast
qed

lemma phase_goes_on:
  assumes "in_phase n ph s" "2 \<le> n" "1 \<le> cap" "\<not> ring_final n s"
  shows "\<exists>i<n. ring_step n cap i s \<noteq> Blocked"
proof (cases ph)
  case (At k)
  then show ?thesis using assms at_not_blocked [of n k s cap] by (auto intro!: exI [of _ "k mod n"])
next
  case (Out k)
  then show ?thesis using assms advances_out(2) by (auto intro!: exI [of _ "k mod n"])
next
  case (In k)
  then show ?thesis using assms advances_in(2) by (auto intro!: exI [of _ "k mod n"])
next
  case Over
  then show ?thesis using assms over_goes_on by blast
qed

lemma rank_le: "rank x \<le> 4"
  by (cases x) auto

lemma rank_full: "rank x = 4 \<longleftrightarrow> x = Exited"
  by (cases x) auto

lemma ranks_le: "ranks n s \<le> 4 * n"
  using sum_bounded_above [of "{..<n}" "\<lambda>i. rank (place s i)" 4] rank_le by (simp add: ranks_def)

lemma ranks_final: "ring_final n s \<Longrightarrow> ranks n s = 4 * n"
  by (simp add: ring_final_def ranks_def)

lemma phase_num_le: "in_phase n ph s \<Longrightarrow> phase_num n ph \<le> 3 * (50 + n)"
  by (cases ph) auto

lemma final_over: "in_phase n ph s \<Longrightarrow> 2 \<le> n \<Longrightarrow> ring_final n s \<Longrightarrow> ph = Over"
proof (rule ccontr)
  assume a: "in_phase n ph s" "2 \<le> n" "ring_final n s" "ph \<noteq> Over"
  then have e: "place s j = Exited" if "j < n" for j using that by (simp add: ring_final_def)
  have m: "k mod n < n" for k using a(2) by simp
  consider k where "ph = At k" | k where "ph = Out k" | k where "ph = In k" using a(4) by (cases ph) auto
  then show False
  proof cases
    case 1
    then show False using a(1) e [OF m [of k]] e [of 0] a(2) by auto
  next
    case 2
    then show False using a(1) e [OF m [of k]] by (auto split: if_splits)
  next
    case 3
    then have "ring_step n 1 (k mod n) s \<noteq> Blocked" using advances_in(2) a(1,2) by simp
    then show False using e [OF m [of k]] by (simp add: ring_step_def)
  qed
qed

interpretation ringrun: progressing "ring_steps n cap" "ring_inv n cap" "ring_final n" "150 + 7 * n" for n cap
proof (unfold_locales, goal_cases)
  case (1 k s s')
  then obtain ph i where ph: "in_phase n ph s" "k = phase_num n ph + ranks n s" "2 \<le> n" "1 \<le> cap"
    and i: "i < n" "ring_step n cap i s = Next s'" by (auto simp: ring_inv_def elim: ring_stepE)
  then show ?case using advances_step [OF ph(1) i(1) ph(3,4)] by (auto simp: advances_def ring_inv_def)
next
  case (2 k s)
  then obtain ph where "in_phase n ph s" "k = phase_num n ph + ranks n s" by (auto simp: ring_inv_def)
  then show ?case using phase_num_le [of n ph s] ranks_le [of n s] by simp
next
  case (3 k s)
  then obtain ph where ph: "in_phase n ph s" "2 \<le> n" "1 \<le> cap" by (auto simp: ring_inv_def)
  then obtain i where i: "i < n" "ring_step n cap i s \<noteq> Blocked" using phase_goes_on 3(2) by blast
  then show ?case using advances_step [OF ph(1) i(1) ph(2,3)] by (auto simp: advances_def ring_steps_def)
next
  case (4 k s)
  then obtain ph where ph: "in_phase n ph s" "2 \<le> n" "k = phase_num n ph + ranks n s"
    by (auto simp: ring_inv_def)
  then show ?case using final_over [OF ph(1,2) 4(2)] ranks_final [OF 4(2)] by simp
qed

lemma ring_init_inv:
  assumes "2 \<le> n" "1 \<le> cap"
  shows "ring_inv n cap 0 ring_init"
proof -
  have "in_phase n (At 0) ring_init" using assms by (auto simp: ring_init_def rests_def passed_def idle_def printed_upto_def)
  moreover have "ranks n ring_init = 0" by (simp add: ranks_def ring_init_def)
  ultimately show ?thesis using assms unfolding ring_inv_def by (intro conjI exI [of _ "At 0"]) auto
qed

section \<open>The properties of the ring\<close>

text \<open>
  Whatever the order the processes run in, none of them is killed by SIGPIPE and none reads at
  the end of a pipe: in no state the ring gets to can a process do anything but block or go on.
\<close>

theorem ring_never_crashes:
  assumes "2 \<le> n" "1 \<le> cap" "run (ring_steps n cap) m ring_init s" "i < n"
  shows "ring_step n cap i s \<noteq> Sigpipe \<and> ring_step n cap i s \<noteq> Uninitialised_Int"
proof -
  obtain ph where ph: "in_phase n ph s"
    using ringrun.run_inv [OF assms(3) ring_init_inv [OF assms(1,2)]] by (auto simp: ring_inv_def)
  then show ?thesis using advances_step [OF ph assms(4,1,2)] by (auto simp: advances_def)
qed

text \<open>
  Every run of the ring ends: it makes at most 150 + 7 n steps, and it can make no more exactly
  when it has made that many.
\<close>

theorem ring_terminates:
  assumes "2 \<le> n" "1 \<le> cap" "run (ring_steps n cap) m ring_init s"
  shows "m \<le> 150 + 7 * n \<and> (stuck (ring_steps n cap) s \<longleftrightarrow> m = 150 + 7 * n)"
proof -
  have inv: "ring_inv n cap m s" using ringrun.run_inv [OF assms(3) ring_init_inv [OF assms(1,2)]] by simp
  moreover have "stuck (ring_steps n cap) s" if "m = 150 + 7 * n"
    using ringrun.inv_bound ringrun.step_inv [OF inv] that unfolding stuck_def by fastforce
  ultimately show ?thesis
    using ringrun.run_bound [OF assms(3) ring_init_inv [OF assms(1,2)]]
      ringrun.stuck_run [OF assms(3) ring_init_inv [OF assms(1,2)]] by auto
qed

lemma final_state:
  assumes "ring_inv n cap k s" "ring_final n s"
  shows "queue s = (\<lambda>p. []) \<and> printed s = map (\<lambda>k. (k mod n, int k)) [0..<51]"
proof -
  obtain ph where "in_phase n ph s" "2 \<le> n" using assms(1) by (auto simp: ring_inv_def)
  then show ?thesis using final_over assms(2) by (force simp: printed_upto_def)
qed

text \<open>
  A run of the ring that can make no more steps, whatever order its processes ran in, has
  printed the numbers 0 to 50 in order, number k by process k modulo n, has left no number in a
  pipe, and all its processes are gone.
\<close>

theorem ring_prints:
  assumes "2 \<le> n" "1 \<le> cap" "run (ring_steps n cap) m ring_init s" "stuck (ring_steps n cap) s"
  shows "printed s = map (\<lambda>k. (k mod n, int k)) [0..<51] \<and> queue s = (\<lambda>p. []) \<and> (\<forall>i<n. place s i = Exited)"
proof -
  have "ring_inv n cap m s" using ringrun.run_inv [OF assms(3) ring_init_inv [OF assms(1,2)]] by simp
  moreover from this have "ring_final n s" using ringrun.stuck_final assms(4) by blast
  ultimately show ?thesis using final_state by (auto simp: ring_final_def)
qed

text \<open>
  In every state the ring gets to there is at most one number in all pipes together, and the
  numbers printed so far are 0, 1, 2 and so on, number k by process k modulo n.
\<close>

theorem ring_one_number:
  assumes "2 \<le> n" "1 \<le> cap" "run (ring_steps n cap) m ring_init s"
  shows "(\<Sum>p<n. length (queue s p)) \<le> 1 \<and>
    (\<exists>j\<le>51. printed s = map (\<lambda>k. (k mod n, int k)) [0..<j])"
proof -
  obtain ph where ph: "in_phase n ph s"
    using ringrun.run_inv [OF assms(3) ring_init_inv [OF assms(1,2)]] by (auto simp: ring_inv_def)
  have "\<exists>p v. queue s = (\<lambda>p. [])(p := v) \<and> length v \<le> 1"
    using ph by (cases ph) (fastforce intro: exI [of _ "[]"])+
  then obtain p v where q: "queue s = (\<lambda>p. [])(p := v)" "length v \<le> 1" by blast
  have "(\<Sum>p'<n. length (queue s p')) = (\<Sum>p'<n. if p = p' then length v else 0)"
    unfolding q by (rule sum.cong) auto
  then have "(\<Sum>p<n. length (queue s p)) \<le> 1" using q(2) by simp
  moreover have "\<exists>k. printed s = printed_upto n k" using ph by (cases ph) auto
  ultimately show ?thesis by (metis min.cobounded2 printed_upto_def)
qed

text \<open>No process is gone before its child.\<close>

definition exits_in_order :: "nat \<Rightarrow> ring \<Rightarrow> bool" where
  "exits_in_order n s \<longleftrightarrow> (\<forall>i. Suc i < n \<longrightarrow> place s i = Exited \<longrightarrow> place s (Suc i) = Exited)"

lemma exited_stays: "ring_step n cap i s = Next s' \<Longrightarrow> place s j = Exited \<Longrightarrow> place s' j = Exited"
  by (cases "j = i") (auto simp: ring_step_def writeIntToMyPipe_def readIntFromMyPipe_def Let_def
      split: place.splits if_splits list.splits)

lemma exits_new:
  "ring_step n cap i s = Next s' \<Longrightarrow> place s' j = Exited \<Longrightarrow> place s j \<noteq> Exited \<Longrightarrow>
    j = i \<and> (Suc i < n \<longrightarrow> place s (Suc i) = Exited)"
  by (auto simp: ring_step_def writeIntToMyPipe_def readIntFromMyPipe_def Let_def
      split: place.splits if_splits list.splits)

lemma exits_in_order_step: "exits_in_order n s \<Longrightarrow> ring_steps n cap s s' \<Longrightarrow> exits_in_order n s'"
  unfolding exits_in_order_def by (metis exited_stays exits_new ring_stepE)

lemma exits_in_order_run: "run (ring_steps n cap) m s s' \<Longrightarrow> exits_in_order n s \<Longrightarrow> exits_in_order n s'"
  by (induction rule: run.induct) (auto intro: exits_in_order_step)

text \<open>
  No process is gone before its child: a process that has exited has left no zombie behind.
\<close>

theorem ring_no_zombies:
  assumes "run (ring_steps n cap) m ring_init s" "Suc i < n" "place s i = Exited"
  shows "place s (Suc i) = Exited"
  using exits_in_order_run [OF assms(1)] assms(2,3) by (auto simp: exits_in_order_def ring_init_def)

section \<open>Witnesses\<close>

text \<open>A run of two processes, given by who makes each step.\<close>

fun schedule :: "nat \<Rightarrow> nat \<Rightarrow> nat list \<Rightarrow> ring \<Rightarrow> ring option" where
  "schedule n cap [] s = Some s"
| "schedule n cap (i # is) s = (case ring_step n cap i s of Next s' \<Rightarrow> schedule n cap is s' | _ \<Rightarrow> None)"

lemma schedule_run:
  "schedule n cap is s = Some s' \<Longrightarrow> list_all (\<lambda>i. i < n) is \<Longrightarrow> run (ring_steps n cap) (length is) s s'"
proof (induction "is" arbitrary: s)
  case (Cons i "is")
  then obtain s1 where "ring_step n cap i s = Next s1" "schedule n cap is s1 = Some s'"
    by (auto split: outcome.splits)
  then have "ring_steps n cap s s1" "run (ring_steps n cap) (length is) s1 s'"
    using Cons.prems(2) Cons.IH [of s1] by (auto simp: ring_steps_def [of n cap s])
  then show ?case using run_first by fastforce
qed (auto intro: run.intros)

lemma complete_run: "2 \<le> n \<Longrightarrow> 1 \<le> cap \<Longrightarrow> \<exists>s. run (ring_steps n cap) (150 + 7 * n) ring_init s \<and> ring_final n s"
  using ringrun.run_completes [OF ring_init_inv] by fastforce

theorem ring_never_crashes_witness:
  "\<exists>s. run (ring_steps 2 1) 164 ring_init s \<and> ring_step 2 1 0 s \<noteq> Sigpipe \<and> ring_step 2 1 0 s \<noteq> Uninitialised_Int"
  using complete_run [of 2 1] ring_never_crashes [of 2 1 164 _ 0] by auto

theorem ring_terminates_witness: "\<exists>s. run (ring_steps 3 1) 171 ring_init s \<and> stuck (ring_steps 3 1) s"
  using complete_run [of 3 1] ring_terminates [of 3 1 171] by auto

theorem ring_prints_witness:
  "\<exists>s. run (ring_steps 16 128) 262 ring_init s \<and> printed s = map (\<lambda>k. (k mod 16, int k)) [0..<51]"
proof -
  obtain s where s: "run (ring_steps 16 128) 262 ring_init s" "ring_final 16 s"
    using complete_run [of 16 128] by auto
  then have "ring_inv 16 128 262 s" using ringrun.run_inv [OF s(1) ring_init_inv] by simp
  then have "stuck (ring_steps 16 128) s" using ringrun.stuck_final s(2) by blast
  then show ?thesis using ring_prints [of 16 128 262 s] s(1) by auto
qed

lemma upt2: "[0..<2] = [0, Suc 0]"
  by (simp add: numeral_2_eq_2)

theorem ring_one_number_witness:
  "\<exists>s. run (ring_steps 2 1) 4 ring_init s \<and> printed s = [(0, 0)] \<and> (\<Sum>p<2. length (queue s p)) = 1"
proof -
  have "schedule 2 1 [0, 0, 0, 0] ring_init \<noteq> None"
    and "\<And>s. schedule 2 1 [0, 0, 0, 0] ring_init = Some s \<Longrightarrow> printed s = [(0, 0)] \<and> queue s 0 = [1]"
    by (simp_all add: ring_init_def ring_step_def goto_def MYSIG_WAITFORCHILD_def STOPNUMBER_def
      writeIntToMyPipe_def has_reader_def upt2)
  then obtain s where s: "schedule 2 1 [0, 0, 0, 0] ring_init = Some s" "printed s = [(0, 0)]" "queue s 0 = [1]"
    by blast
  then have "run (ring_steps 2 1) 4 ring_init s" using schedule_run [OF s(1)] by (simp add: numeral_eq_Suc)
  moreover from this have "(\<Sum>p<2. length (queue s p)) \<le> 1" using ring_one_number [of 2 1 4 s] by simp
  ultimately show ?thesis using s(2,3) by (auto simp: numeral_2_eq_2)
qed

theorem ring_no_zombies_witness:
  "\<exists>s. run (ring_steps 2 1) 164 ring_init s \<and> place s 0 = Exited \<and> place s 1 = Exited"
  using complete_run [of 2 1] ring_no_zombies [of 2 1 164 _ 0] by (auto simp: ring_final_def)

end
