(* ===== verification/RingSetup.thy ===== *)
theory RingSetup
  imports Ring Posix CStrings
begin

text \<open>
  How the ring of processes is set up (Lab1/ring.c): the check of the argument, the pipes, the
  forks that number the processes, and which descriptors each process keeps.
\<close>

section \<open>The argument\<close>

text \<open>The loop of \<open>isNatNum\<close>: \<open>c\<close> is the first character throughout.\<close>

fun isNatNum_loop :: "char \<Rightarrow> nat \<Rightarrow> bool" where
  "isNatNum_loop c 0 = True"
| "isNatNum_loop c (Suc k) = (if \<not> isdigit c then False else isNatNum_loop c k)"

text \<open>\<open>Inl\<close> is the status the process exits with.\<close>

definition isNatNum :: "string option \<Rightarrow> int + bool" where
  "isNatNum s = (case s of None \<Rightarrow> Inl 1
     | Some str \<Rightarrow> Inr (isNatNum_loop (if str = [] then NUL else str ! 0) (Suc (length str))))"

definition MINPROC :: int where "MINPROC = 2"
definition MAXPROC :: int where "MAXPROC = 16"

text \<open>The first part of \<open>main\<close>: the number of processes, or the status it exits with.\<close>

definition ring_arguments :: "string list \<Rightarrow> (int + int) res" where
  "ring_arguments argv =
     (if length argv \<noteq> 2 then Inr (Inl 1)
      else case isNatNum (Some (argv ! 1)) of
        Inl code \<Rightarrow> Inr (Inl code)
      | Inr b \<Rightarrow>
          if \<not> b then Inr (Inl 1)
          else bind_res (atoi (argv ! 1)) (\<lambda>nrOfProcesses.
            if nrOfProcesses < MINPROC \<or> nrOfProcesses > MAXPROC then Inr (Inl 1)
            else Inr (Inr nrOfProcesses)))"

section \<open>The pipes\<close>

type_synonym pipe_array = "(int \<times> int) list"

text \<open>The loop of \<open>createPipes\<close>, from pipe i on; None when a pipe fails.\<close>

fun createPipes_loop :: "env \<Rightarrow> nat \<Rightarrow> nat \<Rightarrow> fdtable \<Rightarrow> (pipe_array \<times> fdtable) option" where
  "createPipes_loop env i 0 t = Some ([], t)"
| "createPipes_loop env i (Suc k) t =
     (case sys_pipe env i (-1, -1) t of (r, p, t1) \<Rightarrow>
        if r \<noteq> 0 then None
        else map_option (\<lambda>(ps, t2). (p # ps, t2)) (createPipes_loop env (Suc i) k t1))"

text \<open>The answers of the two requests for memory are not looked at.\<close>

definition createPipes :: "env \<Rightarrow> nat \<Rightarrow> fdtable \<Rightarrow> heap \<Rightarrow> (int + pipe_array \<times> (nat \<times> nat) \<times> fdtable \<times> heap) res" where
  "createPipes env nrOfProcesses t h =
     (case malloc (nrOfProcesses * 8) h of (p, h1) \<Rightarrow>
      case p of None \<Rightarrow> Inl Null_Deref | Some b \<Rightarrow>
      (case malloc (nrOfProcesses * 2 * 4) h1 of (q, h2) \<Rightarrow>
       case q of None \<Rightarrow> Inl Null_Deref | Some c \<Rightarrow>
       (case createPipes_loop env 0 nrOfProcesses t of
          None \<Rightarrow> Inr (Inl 1)
        | Some (arr, t1) \<Rightarrow> Inr (Inr (arr, (b, c), t1, h2)))))"

definition freePipes :: "nat \<times> nat \<Rightarrow> heap \<Rightarrow> heap res" where
  "freePipes blocks h = bind_res (mfree (Some (snd blocks)) h) (mfree (Some (fst blocks)))"

definition initPipe :: "int \<times> int \<Rightarrow> bool \<Rightarrow> fdtable \<Rightarrow> fdtable" where
  "initPipe p isOutgoing t = snd (sys_close (if isOutgoing then fst p else snd p) t)"

definition ring_closePipe :: "int \<times> int \<Rightarrow> bool \<Rightarrow> fdtable \<Rightarrow> fdtable" where
  "ring_closePipe p isOutgoing t = snd (sys_close (if isOutgoing then snd p else fst p) t)"

definition closeUnnecessaryPipe :: "int \<times> int \<Rightarrow> fdtable \<Rightarrow> fdtable" where
  "closeUnnecessaryPipe p t = snd (sys_close (snd p) (snd (sys_close (fst p) t)))"

text \<open>The two pipes of a process, as indices into the array: the code compares their addresses.\<close>

definition getMyOutputPipe :: "nat \<Rightarrow> nat" where
  "getMyOutputPipe myProcessNr = myProcessNr"

definition getMyInputPipe :: "nat \<Rightarrow> nat \<Rightarrow> nat" where
  "getMyInputPipe myProcessNr nrOfProcesses = (myProcessNr + nrOfProcesses - 1) mod nrOfProcesses"

definition initMyPipes :: "pipe_array \<Rightarrow> nat \<Rightarrow> nat \<Rightarrow> fdtable \<Rightarrow> fdtable" where
  "initMyPipes arr nr n t =
     (let inp = getMyInputPipe nr n; out = getMyOutputPipe nr;
          t1 = initPipe (arr ! inp) False (initPipe (arr ! out) True t)
      in fold (\<lambda>i t. if i \<noteq> inp \<and> i \<noteq> out then closeUnnecessaryPipe (arr ! i) t else t) [0..<n] t1)"

definition closeMyPipes :: "pipe_array \<Rightarrow> nat \<Rightarrow> nat \<Rightarrow> fdtable \<Rightarrow> fdtable" where
  "closeMyPipes arr nr n t =
     ring_closePipe (arr ! getMyInputPipe nr n) False (ring_closePipe (arr ! getMyOutputPipe nr) True t)"

definition ring_cleanup :: "pipe_array \<times> (nat \<times> nat) \<Rightarrow> nat \<Rightarrow> nat \<Rightarrow> fdtable \<Rightarrow> heap \<Rightarrow> (fdtable \<times> heap) res" where
  "ring_cleanup arr nr n t h =
     bind_res (freePipes (snd arr) h) (\<lambda>h1. Inr (closeMyPipes (fst arr) nr n t, h1))"

section \<open>The processes\<close>

lemma fork_measure: "p \<noteq> n - 1 \<Longrightarrow> unat (n - 1 - (p + 1)) < unat (n - 1 - p)" for p n :: "32 word"
  using measure_unat [of "n - 1 - p"] by (simp add: algebra_simps)

text \<open>
  \<open>recFork\<close>, as the processes that come out of it, the oldest first: their number, or the status
  they exit with when \<open>fork\<close> fails. The number is unsigned, so it is compared to \<open>n - 1\<close> modulo
  2 ^ 32.
\<close>

function recFork :: "(32 word \<Rightarrow> bool) \<Rightarrow> 32 word \<Rightarrow> 32 word \<Rightarrow> (int + 32 word) list" where
  "recFork fork_ok n processNr =
     (if processNr = n - 1 then [Inr processNr]
      else if \<not> fork_ok processNr then [Inl 1]
      else Inr processNr # recFork fork_ok n (processNr + 1))"
  by pat_completeness auto
termination
proof (relation "measure (\<lambda>(f, n, p). unat (n - 1 - p))", goal_cases)
  case (2 f n p)
  then show ?case using fork_measure [of p n] by (simp only: in_measure prod.case not_False_eq_True simp_thms)
qed simp

declare recFork.simps [simp del]

definition recursivelyForkToNProcesses :: "(32 word \<Rightarrow> bool) \<Rightarrow> int \<Rightarrow> (int + 32 word) list" where
  "recursivelyForkToNProcesses fork_ok n = (if n < 1 then [Inl 1] else recFork fork_ok (word_of_int n) 0)"

text \<open>
  \<open>main\<close> up to \<open>cycleNumber\<close>: the status it exits with, or every process with its number and its
  descriptors. A process whose \<open>fork\<close> fails exits.
\<close>

definition ring_start :: "env \<Rightarrow> (32 word \<Rightarrow> bool) \<Rightarrow> string list \<Rightarrow> fdtable \<Rightarrow> heap
    \<Rightarrow> (int + (int + nat \<times> fdtable) list) res" where
  "ring_start env fork_ok argv t h =
     bind_res (ring_arguments argv) (\<lambda>a. case a of Inl code \<Rightarrow> Inr (Inl code) | Inr n \<Rightarrow>
     bind_res (createPipes env (nat n) t h) (\<lambda>c. case c of Inl code \<Rightarrow> Inr (Inl code) | Inr (arr, blocks, t1, h1) \<Rightarrow>
       Inr (Inr (map (map_sum id (\<lambda>nr. (unat nr, initMyPipes arr (unat nr) (nat n) t1)))
         (recursivelyForkToNProcesses fork_ok n)))))"

section \<open>The descriptors of the processes\<close>

text \<open>
  A table with the three standard descriptors and the first i pipes, the descriptors of pipe k
  being 3 + 2 k and 4 + 2 k.
\<close>

definition pipes_table :: "nat \<Rightarrow> nat \<Rightarrow> fdtable" where
  "pipes_table L i = \<lparr>slots = (\<lambda>m. if m < 3 then Some (Inherited m)
       else if m < 3 + 2 * i then Some (if even (m - 3) then Pipe_R ((m - 3) div 2) else Pipe_W ((m - 3) div 2))
       else None), limit = L\<rparr>"

definition pipe_fds :: "nat \<Rightarrow> int \<times> int" where
  "pipe_fds k = (int (3 + 2 * k), int (4 + 2 * k))"

text \<open>The table of process nr: the write end of its own pipe, the read end of the one before.\<close>

definition ring_table :: "nat \<Rightarrow> nat \<Rightarrow> nat \<Rightarrow> fdtable" where
  "ring_table L n nr = \<lparr>slots = (\<lambda>m. if m < 3 then Some (Inherited m)
       else if m = 4 + 2 * nr then Some (Pipe_W nr)
       else if m = 3 + 2 * input_pipe n nr then Some (Pipe_R (input_pipe n nr))
       else None), limit = L\<rparr>"

lemma slots_pipes_table: "slots (pipes_table L i) m =
    (if m < 3 then Some (Inherited m)
     else if m < 3 + 2 * i then Some (if even (m - 3) then Pipe_R ((m - 3) div 2) else Pipe_W ((m - 3) div 2))
     else None)"
  by (simp add: pipes_table_def)

lemma limit_pipes_table [simp]: "limit (pipes_table L i) = L"
  by (simp add: pipes_table_def)

lemma pipe_added:
  "put_fd (4 + 2 * i) (Some (Pipe_W i)) (put_fd (3 + 2 * i) (Some (Pipe_R i)) (pipes_table L i)) = pipes_table L (Suc i)"
proof (rule fdtable_eqI)
  fix m
  consider "m < 3 + 2 * i" | "m = 3 + 2 * i" | "m = 4 + 2 * i" | "5 + 2 * i \<le> m" by linarith
  then show "slots (put_fd (4 + 2 * i) (Some (Pipe_W i)) (put_fd (3 + 2 * i) (Some (Pipe_R i)) (pipes_table L i))) m =
      slots (pipes_table L (Suc i)) m"
    by cases (auto simp: slots_pipes_table)
qed simp

lemma pipe_opens:
  assumes "pipe_ok env i" "5 + 2 * i \<le> L"
  shows "sys_pipe env i p (pipes_table L i) = (0, pipe_fds i, pipes_table L (Suc i))"
proof -
  have "lowest_free (pipes_table L i) = Some (3 + 2 * i)"
    using assms(2) by (intro lowest_freeI) (auto simp: slots_pipes_table)
  moreover have "lowest_free (put_fd (3 + 2 * i) (Some (Pipe_R i)) (pipes_table L i)) = Some (4 + 2 * i)"
    using assms(2) by (intro lowest_freeI) (auto simp: slots_pipes_table)
  ultimately show ?thesis using assms(1) by (simp add: sys_pipe_def new_fd_def pipe_added pipe_fds_def)
qed

lemma createPipes_loop_all:
  assumes "\<And>k. pipe_ok env k" "3 + 2 * (i + k) \<le> L"
  shows "createPipes_loop env i k (pipes_table L i) = Some (map pipe_fds [i..<i + k], pipes_table L (i + k))"
  using assms(2)
proof (induction k arbitrary: i)
  case (Suc k)
  then have "createPipes_loop env (Suc i) k (pipes_table L (Suc i)) =
      Some (map pipe_fds [Suc i..<Suc i + k], pipes_table L (Suc i + k))" by simp
  moreover have "sys_pipe env i (-1, -1) (pipes_table L i) = (0, pipe_fds i, pipes_table L (Suc i))"
    using pipe_opens assms(1) Suc.prems by simp
  ultimately show ?case by (simp add: upt_conv_Cons del: upt_Suc)
qed simp

text \<open>What is closed in the loop of \<open>initMyPipes\<close>.\<close>

definition close_slots :: "nat set \<Rightarrow> fdtable \<Rightarrow> fdtable" where
  "close_slots A t = t\<lparr>slots := (\<lambda>m. if m \<in> A then None else slots t m)\<rparr>"

lemma close_slots_simps [simp]: "slots (close_slots A t) m = (if m \<in> A then None else slots t m)"
  "limit (close_slots A t) = limit t"
  by (simp_all add: close_slots_def)

lemma sys_close_slots: "snd (sys_close (int k) t) = close_slots {k} t"
  by (rule fdtable_eqI) (auto simp: sys_close_def)

lemma close_slots_twice: "close_slots A (close_slots B t) = close_slots (A \<union> B) t"
  by (rule fdtable_eqI) auto

lemma closes_fold:
  "fold (\<lambda>i t. if P i then closeUnnecessaryPipe (map pipe_fds [0..<n] ! i) t else t) is t =
    close_slots {m. \<exists>i \<in> set is. P i \<and> (m = 3 + 2 * i \<or> m = 4 + 2 * i)} t" if "set is \<subseteq> {..<n}"
  using that
proof (induction "is" arbitrary: t)
  case Nil
  then show ?case by (simp add: close_slots_def)
next
  case (Cons i "is")
  then have "closeUnnecessaryPipe (map pipe_fds [0..<n] ! i) t = close_slots {3 + 2 * i, 4 + 2 * i} t"
    by (simp add: closeUnnecessaryPipe_def pipe_fds_def sys_close_slots close_slots_twice
      insert_commute del: of_nat_add of_nat_mult of_nat_numeral)
  then show ?case using Cons
    by (auto simp: close_slots_twice intro!: arg_cong [of _ _ "\<lambda>A. close_slots A t"])
qed

lemma initMyPipes_table:
  assumes "2 \<le> n" "nr < n"
  shows "initMyPipes (map pipe_fds [0..<n]) nr n (pipes_table L n) = ring_table L n nr"
proof -
  have i: "input_pipe n nr < n" "getMyInputPipe nr n = input_pipe n nr"
    using input_pipe_less assms(1) by (auto simp: getMyInputPipe_def input_pipe_def)
  have ne: "input_pipe n nr \<noteq> nr"
    using next_of_input [OF assms] assms next_not_holder [OF assms(1), of nr] by (metis mod_less)
  let ?arr = "map pipe_fds [0..<n]"
  let ?P = "\<lambda>i. i \<noteq> input_pipe n nr \<and> i \<noteq> nr"
  have "initPipe (?arr ! nr) True t = close_slots {3 + 2 * nr} t" for t
    using assms(2) by (simp add: initPipe_def pipe_fds_def sys_close_slots del: of_nat_add of_nat_mult of_nat_numeral)
  moreover have "initPipe (?arr ! input_pipe n nr) False t = close_slots {4 + 2 * input_pipe n nr} t" for t
    using i(1) by (simp add: initPipe_def pipe_fds_def sys_close_slots del: of_nat_add of_nat_mult of_nat_numeral)
  moreover have "fold (\<lambda>i t. if ?P i then closeUnnecessaryPipe (?arr ! i) t else t) [0..<n] t =
      close_slots {m. \<exists>i \<in> {..<n}. ?P i \<and> (m = 3 + 2 * i \<or> m = 4 + 2 * i)} t" for t
    using closes_fold [of "[0..<n]" n ?P t] by (simp only: set_upt lessThan_atLeast0 order_refl)
  ultimately have "initMyPipes ?arr nr n (pipes_table L n) =
      close_slots {m. \<exists>i \<in> {..<n}. i \<noteq> input_pipe n nr \<and> i \<noteq> nr \<and> (m = 3 + 2 * i \<or> m = 4 + 2 * i)}
        (close_slots {4 + 2 * input_pipe n nr, 3 + 2 * nr} (pipes_table L n))"
    unfolding initMyPipes_def Let_def getMyOutputPipe_def i(2)
    by (simp only: close_slots_twice Un_insert_left Un_empty_left conj_assoc)
  also have "\<dots> = ring_table L n nr"
  proof (rule fdtable_eqI)
    fix m
    show "slots (close_slots {m. \<exists>i \<in> {..<n}. i \<noteq> input_pipe n nr \<and> i \<noteq> nr \<and> (m = 3 + 2 * i \<or> m = 4 + 2 * i)}
        (close_slots {4 + 2 * input_pipe n nr, 3 + 2 * nr} (pipes_table L n))) m = slots (ring_table L n nr) m"
    proof (cases "m < 3 \<or> 3 + 2 * n \<le> m")
      case True
      then have "m \<noteq> 3 + 2 * k \<and> m \<noteq> 4 + 2 * k" if "k < n" for k using that by auto
      then show ?thesis using True assms(2) i(1) by (auto simp: slots_pipes_table ring_table_def Bex_def)
    next
      case False
      define k where "k = (m - 3) div 2"
      have k: "k < n" "m = 3 + 2 * k \<or> m = 4 + 2 * k" using False unfolding k_def by presburger+
      have "m = 3 + 2 * i \<or> m = 4 + 2 * i \<longleftrightarrow> i = k" for i using False unfolding k_def by presburger
      then have closed: "(\<exists>i \<in> {..<n}. i \<noteq> input_pipe n nr \<and> i \<noteq> nr \<and> (m = 3 + 2 * i \<or> m = 4 + 2 * i)) \<longleftrightarrow>
          k \<noteq> input_pipe n nr \<and> k \<noteq> nr" using k(1) by auto
      show ?thesis using k ne by (simp add: closed slots_pipes_table ring_table_def) auto
    qed
  qed (simp add: ring_table_def)
  finally show ?thesis .
qed

lemma closeMyPipes_table:
  assumes "2 \<le> n" "nr < n"
  shows "closeMyPipes (map pipe_fds [0..<n]) nr n (ring_table L n nr) = pipes_table L 0"
proof -
  have i: "input_pipe n nr < n" "getMyInputPipe nr n = input_pipe n nr"
    using input_pipe_less assms(1) by (auto simp: getMyInputPipe_def input_pipe_def)
  have "closeMyPipes (map pipe_fds [0..<n]) nr n (ring_table L n nr) =
      close_slots {3 + 2 * input_pipe n nr, 4 + 2 * nr} (ring_table L n nr)"
    using i assms(2) by (simp add: closeMyPipes_def getMyOutputPipe_def ring_closePipe_def pipe_fds_def
      sys_close_slots close_slots_twice insert_commute del: of_nat_add of_nat_mult of_nat_numeral)
  also have "\<dots> = pipes_table L 0" by (rule fdtable_eqI) (auto simp: ring_table_def slots_pipes_table)
  finally show ?thesis .
qed

lemma isNatNum_loop_iff: "isNatNum_loop c k \<longleftrightarrow> k = 0 \<or> isdigit c"
  by (induction k) auto

lemma isNatNum_first: "isNatNum (Some s) = Inr (s \<noteq> [] \<and> isdigit (hd s))"
proof -
  have "\<not> isdigit NUL" by (simp add: isdigit_def NUL_def)
  then show ?thesis by (simp add: isNatNum_def isNatNum_loop_iff hd_conv_nth)
qed

text \<open>The numbers of the processes.\<close>

lemma recFork_numbers:
  assumes "\<And>p. fork_ok p" "k < 2 ^ 32" "j \<le> k"
  shows "recFork fork_ok (word_of_nat (Suc k)) (word_of_nat j) = map (Inr \<circ> word_of_nat) [j..<Suc k]"
  using assms(3)
proof (induction "k - j" arbitrary: j)
  case 0
  then show ?case by (subst recFork.simps) simp
next
  case (Suc m)
  then have j: "j < k" by simp
  have "(word_of_nat j :: 32 word) \<noteq> word_of_nat k"
    using j assms(2) by (simp add: word_of_nat_eq_iff take_bit_nat_eq_self)
  moreover have "recFork fork_ok (word_of_nat (Suc k)) (word_of_nat (Suc j)) = map (Inr \<circ> word_of_nat) [Suc j..<Suc k]"
    using Suc(1) [of "Suc j"] Suc(2) j by simp
  ultimately show ?case using assms(1) j
    by (subst recFork.simps) (simp add: upt_conv_Cons add.commute del: upt_Suc)
qed

text \<open>
  \<open>recursivelyForkToNProcesses\<close>, when every \<open>fork\<close> succeeds, makes n processes, with the
  numbers 0 to n - 1, each once.
\<close>

theorem forks_number_processes:
  assumes "1 \<le> n" "n < 2 ^ 31" "\<And>p. fork_ok p"
  shows "map (map_sum id unat) (recursivelyForkToNProcesses fork_ok n) = map Inr [0..<nat n]"
proof -
  obtain k where k: "n = int (Suc k)" using assms(1) that [of "nat (n - 1)"] by simp
  have "recursivelyForkToNProcesses fork_ok n = map (Inr \<circ> word_of_nat) [0..<Suc k]"
    using recFork_numbers [of fork_ok k 0] assms(3) k assms(2) by (simp add: recursivelyForkToNProcesses_def)
  moreover have "unat (word_of_nat i :: 32 word) = i" if "i < Suc k" for i
    using that assms(2) k by (simp add: unat_of_nat take_bit_nat_eq_self)
  moreover have "nat n = Suc k" using k by simp
  ultimately show ?thesis by (simp add: comp_def del: upt_Suc)
qed

theorem forks_number_processes_witness:
  "map (map_sum id unat) (recursivelyForkToNProcesses (\<lambda>p. True) 16) = map Inr [0..<16]"
  using forks_number_processes [of 16 "\<lambda>p. True"] by simp

text \<open>
  The check of the argument only looks at the first character of it: the ring is made of the
  number the argument starts with, when that is 2 to 16, whatever follows it.
\<close>

theorem ring_argument_accepted:
  assumes "s \<noteq> []" "isdigit (hd s)" "2 \<le> atoi_val (cstr s)" "atoi_val (cstr s) \<le> 16"
  shows "ring_arguments [prog, s] = Inr (Inr (atoi_val (cstr s)))"
  using assms by (simp add: ring_arguments_def isNatNum_first atoi_def Let_def MINPROC_def MAXPROC_def)

theorem ring_argument_accepted_witness: "ring_arguments [''ring'', ''3x9''] = Inr (Inr 3)"
  using ring_argument_accepted [of "''3x9''" "''ring''"]
  by (simp add: isdigit_def atoi_val_def digits_val_def isspace_def cstr_def NUL_def)

text \<open>
  C20. With an accepted argument, descriptors and memory enough and no call that fails, \<open>main\<close>
  starts n processes numbered 0 to n - 1; process i has, next to the three descriptors the program
  was started with, the write end of pipe i and the read end of the pipe of the process before it,
  and nothing else.
\<close>

theorem ring_wiring:
  assumes "ring_arguments argv = Inr (Inr n)" "\<And>k. pipe_ok env k" "\<And>p. fork_ok p" "generous h"
    "3 + 2 * nat n \<le> L"
  shows "ring_start env fork_ok argv (pipes_table L 0) h =
    Inr (Inr (map (\<lambda>i. Inr (i, ring_table L (nat n) i)) [0..<nat n]))"
proof -
  have n: "2 \<le> n" "n \<le> 16"
    using assms(1) by (auto simp: ring_arguments_def MINPROC_def MAXPROC_def bind_res_eq_Inr
      split: if_splits sum.splits)
  let ?c = "nat n"
  let ?arr = "map pipe_fds [0..<?c]"
  have "createPipes_loop env 0 ?c (pipes_table L 0) = Some (?arr, pipes_table L ?c)"
    using createPipes_loop_all [of env 0 ?c L] assms(2,5) by simp
  moreover have small: "?c * 8 < 2 ^ 63" "?c * 2 * 4 < 2 ^ 63" using n by auto
  obtain g where m1: "malloc (?c * 8) h = (Some (fresh h), g)" "generous g"
    using malloc_generous [OF assms(4) small(1)] assms(4) by (simp add: generous_def)
  obtain g' where m2: "malloc (?c * 2 * 4) g = (Some (fresh g), g')"
    using malloc_generous [OF m1(2) small(2)] by simp
  ultimately obtain blocks h1 where c: "createPipes env ?c (pipes_table L 0) h = Inr (Inr (?arr, blocks, pipes_table L ?c, h1))"
    by (simp add: createPipes_def m1(1) m2)
  have f: "map (map_sum id unat) (recursivelyForkToNProcesses fork_ok n) = map Inr [0..<?c]"
    using forks_number_processes [of n fork_ok] n assms(3) by simp
  have "map (map_sum id (\<lambda>nr. (unat nr, initMyPipes ?arr (unat nr) ?c (pipes_table L ?c))))
        (recursivelyForkToNProcesses fork_ok n) =
      map (map_sum id (\<lambda>i. (i, initMyPipes ?arr i ?c (pipes_table L ?c))))
        (map (map_sum id unat) (recursivelyForkToNProcesses fork_ok n))"
    by (simp add: sum.map_comp comp_def id_def)
  also have "\<dots> = map (\<lambda>i. Inr (i, ring_table L ?c i)) [0..<?c]"
    unfolding f using initMyPipes_table [of ?c _ L] n by simp
  finally show ?thesis by (simp add: ring_start_def assms(1) c)
qed

definition ring_env :: env where
  "ring_env = \<lparr>my_pid = 1, fork_pid = (\<lambda>k. Some k), prctl_ret = (\<lambda>k. 0), parent_of = (\<lambda>k. 1),
     pipe_ok = (\<lambda>k. True), open_ok = (\<lambda>s. True), creat_ok = (\<lambda>s. True), exec_ok = (\<lambda>s. True),
     program_status = (\<lambda>k. Posix.Exited 0), nocldwait = False\<rparr>"

theorem ring_wiring_witness:
  "ring_start ring_env (\<lambda>p. True) [''ring'', ''4''] (pipes_table 256 0) (new_heap (\<lambda>k n. True)) =
    Inr (Inr (map (\<lambda>i. Inr (i, ring_table 256 4 i)) [0..<4]))"
proof -
  have "ring_arguments [''ring'', ''4''] = Inr (Inr 4)"
    by (simp add: ring_arguments_def isNatNum_first atoi_def Let_def MINPROC_def MAXPROC_def isdigit_def
      atoi_val_def digits_val_def isspace_def cstr_def NUL_def)
  then show ?thesis using ring_wiring [of "[''ring'', ''4'']" 4 ring_env "\<lambda>p. True" "new_heap (\<lambda>k n. True)" 256]
    by (simp add: ring_env_def)
qed

text \<open>
  \<open>cleanup\<close> gives back what the set-up took: after it a process has the descriptors the program
  was started with, and both blocks of the array are freed.
\<close>

theorem ring_cleanup_restores:
  assumes "2 \<le> n" "nr < n" "b \<noteq> c" "{b, c} \<subseteq> live h"
  shows "ring_cleanup (map pipe_fds [0..<n], (b, c)) nr n (ring_table L n nr) h =
    Inr (pipes_table L 0, h\<lparr>live := live h - {b, c}\<rparr>)"
proof -
  have "live h - {c} - {b} = live h - {b, c}" by auto
  then show ?thesis
    using closeMyPipes_table [OF assms(1,2), of L] assms(3,4) by (simp add: ring_cleanup_def freePipes_def)
qed

theorem ring_cleanup_restores_witness:
  "ring_cleanup (map pipe_fds [0..<2], (0, 1)) 1 2 (ring_table 256 2 1) \<lparr>live = {0, 1}, fresh = 2, grants = \<lambda>k n. True\<rparr> =
    Inr (pipes_table 256 0, \<lparr>live = {}, fresh = 2, grants = \<lambda>k n. True\<rparr>)"
  using ring_cleanup_restores [of 2 1 0 1 "\<lparr>live = {0, 1}, fresh = 2, grants = \<lambda>k n. True\<rparr>" 256] by simp

end
