(* ===== verification/RingSystem.thy ===== *)
theory RingSystem
  imports RingSetup
begin

text \<open>
  The ring of processes as the system runs it (Lab1/ring.c from \<open>main\<close> on): processes with a table
  of descriptors of their own, which come into being by \<open>fork\<close> one after the other while those that
  are there already run, close what they do not need descriptor by descriptor, and read and write
  through the descriptors they have. That a pipe has a reader or a writer is what the tables of the
  living processes say. Every run of this system is a run of theory Ring with more steps.
\<close>

section \<open>The calls of \<open>close\<close>, one by one\<close>

definition close_all :: "int list \<Rightarrow> fdtable \<Rightarrow> fdtable" where
  "close_all ds t = fold (\<lambda>d t. snd (sys_close d t)) ds t"

definition init_closes :: "pipe_array \<Rightarrow> nat \<Rightarrow> nat \<Rightarrow> int list" where
  "init_closes arr nr n =
     (let inp = getMyInputPipe nr n; out = getMyOutputPipe nr
      in fst (arr ! out) # snd (arr ! inp) #
         concat (map (\<lambda>i. [fst (arr ! i), snd (arr ! i)]) (filter (\<lambda>i. i \<noteq> inp \<and> i \<noteq> out) [0..<n])))"

definition cleanup_closes :: "pipe_array \<Rightarrow> nat \<Rightarrow> nat \<Rightarrow> int list" where
  "cleanup_closes arr nr n = [snd (arr ! getMyOutputPipe nr), fst (arr ! getMyInputPipe nr n)]"

lemma close_all_simps [simp]: "close_all [] t = t" "close_all (d # ds) t = close_all ds (snd (sys_close d t))"
  by (simp_all add: close_all_def)

lemma close_all_append: "close_all (ds @ es) t = close_all es (close_all ds t)"
  by (simp add: close_all_def)

lemma closes_filtered:
  "fold (\<lambda>i t. if P i then closeUnnecessaryPipe (arr ! i) t else t) is t =
    close_all (concat (map (\<lambda>i. [fst (arr ! i), snd (arr ! i)]) (filter P is))) t"
  by (induction "is" arbitrary: t) (simp_all add: closeUnnecessaryPipe_def)

text \<open>These are the calls \<open>initMyPipes\<close> and \<open>closeMyPipes\<close> make, in their order.\<close>

lemma initMyPipes_closes: "initMyPipes arr nr n t = close_all (init_closes arr nr n) t"
  by (simp add: initMyPipes_def init_closes_def Let_def initPipe_def closes_filtered)

lemma closeMyPipes_closes: "closeMyPipes arr nr n t = close_all (cleanup_closes arr nr n) t"
  by (simp add: closeMyPipes_def cleanup_closes_def ring_closePipe_def)

section \<open>The system\<close>

text \<open>
  Where a process is: in \<open>recFork\<close>; at a place of theory Ring; among the calls of \<open>close\<close> of
  \<open>initMyPipes\<close> or \<open>cleanup\<close>, with those that are left and the place after them.
\<close>

datatype pc = Forking | At_Place place | Closing "int list" place

record ring_sys =
  procs :: "nat \<Rightarrow> (pc \<times> fdtable) option"
  squeue :: "nat \<Rightarrow> int list"
  sprinted :: "(nat \<times> int) list"

text \<open>
  A write to a pipe whose read end nobody has kills the process, a read that fails or is at the end
  of the pipe leaves \<open>tempInt\<close> uninitialised; a call on a descriptor that is not a pipe is
  \<open>SElsewhere\<close>.
\<close>

datatype sys_outcome = SBlocked | SKilled | SUninitialised | SElsewhere | SNext ring_sys

definition put_proc :: "nat \<Rightarrow> pc \<Rightarrow> fdtable \<Rightarrow> ring_sys \<Rightarrow> ring_sys" where
  "put_proc i x t s = s\<lparr>procs := (procs s)(i \<mapsto> (x, t))\<rparr>"

definition no_fds :: "fdtable \<Rightarrow> fdtable" where
  "no_fds t = t\<lparr>slots := (\<lambda>m. None)\<rparr>"

definition has_fd :: "open_file \<Rightarrow> fdtable \<Rightarrow> bool" where
  "has_fd f t = list_ex (\<lambda>m. slots t m = Some f) [0..<limit t]"

text \<open>Whether any of the n processes has a descriptor for f.\<close>

definition held :: "nat \<Rightarrow> open_file \<Rightarrow> ring_sys \<Rightarrow> bool" where
  "held n f s = list_ex (\<lambda>j. case procs s j of None \<Rightarrow> False | Some (x, t) \<Rightarrow> has_fd f t) [0..<n]"

definition closing :: "int list \<Rightarrow> place \<Rightarrow> pc" where
  "closing ds x = (if ds = [] then At_Place x else Closing ds x)"

definition close_step :: "nat \<Rightarrow> int list \<Rightarrow> place \<Rightarrow> fdtable \<Rightarrow> ring_sys \<Rightarrow> sys_outcome" where
  "close_step i ds x t s =
     (case ds of [] \<Rightarrow> SNext (put_proc i (At_Place x) t s)
      | d # es \<Rightarrow> SNext (put_proc i (closing es x) (snd (sys_close d t)) s))"

definition sys_writeInt :: "pipe_array \<Rightarrow> nat \<Rightarrow> nat \<Rightarrow> nat \<Rightarrow> int \<Rightarrow> place \<Rightarrow> fdtable \<Rightarrow> ring_sys \<Rightarrow> sys_outcome" where
  "sys_writeInt arr n cap i v x t s =
     (case get_fd (snd (arr ! getMyOutputPipe i)) t of
        Some (Pipe_W p) \<Rightarrow>
          if \<not> held n (Pipe_R p) s then SKilled
          else if cap \<le> length (squeue s p) then SBlocked
          else SNext (put_proc i (At_Place x) t (s\<lparr>squeue := (squeue s)(p := squeue s p @ [v])\<rparr>))
      | Some (Pipe_R p) \<Rightarrow> SNext (put_proc i (At_Place x) t s)
      | None \<Rightarrow> SNext (put_proc i (At_Place x) t s)
      | _ \<Rightarrow> SElsewhere)"

definition sys_readInt :: "pipe_array \<Rightarrow> nat \<Rightarrow> nat \<Rightarrow> (int \<Rightarrow> place) \<Rightarrow> fdtable \<Rightarrow> ring_sys \<Rightarrow> sys_outcome" where
  "sys_readInt arr n i f t s =
     (case get_fd (fst (arr ! getMyInputPipe i n)) t of
        Some (Pipe_R p) \<Rightarrow>
          (case squeue s p of
             v # vs \<Rightarrow> SNext (put_proc i (At_Place (f v)) t (s\<lparr>squeue := (squeue s)(p := vs)\<rparr>))
           | [] \<Rightarrow> if held n (Pipe_W p) s then SBlocked else SUninitialised)
      | Some (Pipe_W p) \<Rightarrow> SUninitialised
      | None \<Rightarrow> SUninitialised
      | _ \<Rightarrow> SElsewhere)"

definition child_alive :: "nat \<Rightarrow> ring_sys \<Rightarrow> bool" where
  "child_alive i s = (case procs s (Suc i) of None \<Rightarrow> False | Some (x, t) \<Rightarrow> x \<noteq> At_Place place.Exited)"

text \<open>A process at a place: \<open>initMyPipes\<close>, \<open>cycleNumber\<close>, \<open>cleanup\<close>, \<open>waitpid\<close> and its end.\<close>

definition place_step :: "pipe_array \<Rightarrow> nat \<Rightarrow> nat \<Rightarrow> nat \<Rightarrow> place \<Rightarrow> fdtable \<Rightarrow> ring_sys \<Rightarrow> sys_outcome" where
  "place_step arr n cap i x t s =
     (case x of
        Init \<Rightarrow> close_step i (init_closes arr i n) Start t s
      | Start \<Rightarrow> SNext (put_proc i (At_Place (if i \<noteq> 0 then Read_Next else Loop 0)) t s)
      | Loop number \<Rightarrow>
          if number \<noteq> MYSIG_WAITFORCHILD
          then (let s1 = s\<lparr>sprinted := sprinted s @ [(i, number)]\<rparr> in
                if number = STOPNUMBER then SNext (put_proc i (At_Place (Stop number)) t s1)
                else SNext (put_proc i (At_Place (Write_Next number)) t s1))
          else SNext (put_proc i (At_Place (Stop number)) t s)
      | Write_Next number \<Rightarrow> sys_writeInt arr n cap i (number + 1) Read_Next t s
      | Read_Next \<Rightarrow> sys_readInt arr n i Loop t s
      | Stop number \<Rightarrow>
          sys_writeInt arr n cap i MYSIG_WAITFORCHILD (if number = STOPNUMBER then Final_Read else Cleanup) t s
      | Final_Read \<Rightarrow> sys_readInt arr n i (\<lambda>v. Cleanup) t s
      | Cleanup \<Rightarrow> close_step i (cleanup_closes arr i n) Waiting t s
      | Waiting \<Rightarrow> if child_alive i s then SBlocked else SNext (put_proc i (At_Place place.Exited) (no_fds t) s)
      | place.Exited \<Rightarrow> SBlocked)"

text \<open>
  One step of process i. In \<open>recFork\<close> the last process has its number, another one forks: the child
  gets a copy of the table. A process whose \<open>fork\<close> fails exits.
\<close>

definition sys_step :: "(nat \<Rightarrow> bool) \<Rightarrow> pipe_array \<Rightarrow> nat \<Rightarrow> nat \<Rightarrow> nat \<Rightarrow> ring_sys \<Rightarrow> sys_outcome" where
  "sys_step fork_ok arr n cap i s =
     (case procs s i of None \<Rightarrow> SBlocked
      | Some (x, t) \<Rightarrow>
         (case x of
            Forking \<Rightarrow>
              if i = n - 1 then SNext (put_proc i (At_Place Init) t s)
              else if \<not> fork_ok i then SNext (put_proc i (At_Place place.Exited) (no_fds t) s)
              else SNext (put_proc i (At_Place Init) t (put_proc (Suc i) Forking t s))
          | At_Place y \<Rightarrow> place_step arr n cap i y t s
          | Closing ds y \<Rightarrow> close_step i ds y t s))"

definition sys_steps :: "(nat \<Rightarrow> bool) \<Rightarrow> pipe_array \<Rightarrow> nat \<Rightarrow> nat \<Rightarrow> ring_sys \<Rightarrow> ring_sys \<Rightarrow> bool" where
  "sys_steps fork_ok arr n cap s s' \<longleftrightarrow> (\<exists>i<n. sys_step fork_ok arr n cap i s = SNext s')"

text \<open>
  \<open>main\<close> up to the first \<open>fork\<close>: the status it exits with, or the number of processes, the array
  and the system with its first process.
\<close>

definition ring_boot :: "env \<Rightarrow> string list \<Rightarrow> fdtable \<Rightarrow> heap \<Rightarrow> (int + nat \<times> pipe_array \<times> ring_sys) res" where
  "ring_boot env argv t h =
     bind_res (ring_arguments argv) (\<lambda>a. case a of Inl code \<Rightarrow> Inr (Inl code) | Inr n \<Rightarrow>
     bind_res (createPipes env (nat n) t h) (\<lambda>c. case c of Inl code \<Rightarrow> Inr (Inl code) | Inr (arr, blocks, t1, h1) \<Rightarrow>
       Inr (Inr (nat n, arr, \<lparr>procs = [0 \<mapsto> (Forking, t1)], squeue = (\<lambda>p. []), sprinted = []\<rparr>))))"

section \<open>The descriptors of a process\<close>

lemma get_fd_nat: "get_fd d t = slots t (nat d)" if "0 \<le> d"
  using that by (simp add: get_fd_def)

lemma slots_sys_close: "slots (snd (sys_close d t)) m = (if d = int m then None else slots t m)"
  by (auto simp: sys_close_def get_fd_def split: if_splits)

lemma limit_sys_close [simp]: "limit (snd (sys_close d t)) = limit t"
  by (simp add: sys_close_def)

lemma slots_close_all: "slots (close_all ds t) m = (if int m \<in> set ds then None else slots t m)"
  by (induction ds arbitrary: t) (auto simp: slots_sys_close)

lemma limit_close_all [simp]: "limit (close_all ds t) = limit t"
  by (induction ds arbitrary: t) auto

lemma no_fds_pipes_table: "slots (no_fds t) m = None" "limit (no_fds t) = limit t"
  by (simp_all add: no_fds_def)

abbreviation ring_pipes :: "nat \<Rightarrow> pipe_array" where
  "ring_pipes n \<equiv> map pipe_fds [0..<n]"

lemma ring_pipe_fds: "i < n \<Longrightarrow> fst (ring_pipes n ! i) = int (3 + 2 * i)" "i < n \<Longrightarrow> snd (ring_pipes n ! i) = int (4 + 2 * i)"
  by (simp_all add: pipe_fds_def)

lemma getMyInputPipe_is: "getMyInputPipe i n = input_pipe n i"
  by (simp add: getMyInputPipe_def input_pipe_def)

lemma input_not_own: "2 \<le> n \<Longrightarrow> i < n \<Longrightarrow> input_pipe n i \<noteq> i"
  using next_of_input [of n i] next_not_holder [of n i] by (metis mod_less)

lemma set_init_closes:
  assumes "2 \<le> n" "i < n"
  shows "set (init_closes (ring_pipes n) i n) =
    {int (3 + 2 * i), int (4 + 2 * input_pipe n i)} \<union>
    (\<Union>j \<in> {j. j < n \<and> j \<noteq> input_pipe n i \<and> j \<noteq> i}. {int (3 + 2 * j), int (4 + 2 * j)})"
proof -
  have fds: "concat (map (\<lambda>j. [fst (ring_pipes n ! j), snd (ring_pipes n ! j)]) js) =
      concat (map (\<lambda>j. [int (3 + 2 * j), int (4 + 2 * j)]) js)" if "set js \<subseteq> {..<n}" for js
    using that by (induction js) (auto simp: pipe_fds_def)
  have "set (filter (\<lambda>j. j \<noteq> input_pipe n i \<and> j \<noteq> i) [0..<n]) \<subseteq> {..<n}" by auto
  from fds [OF this] show ?thesis
    using ring_pipe_fds(1) [of i n] ring_pipe_fds(2) [OF input_pipe_less [OF assms(1), of i]] assms(2)
    by (simp add: init_closes_def Let_def getMyInputPipe_is getMyOutputPipe_def del: of_nat_add of_nat_mult of_nat_numeral nth_map)
qed

lemma parity: "2 * a \<noteq> Suc (2 * b)" "Suc (2 * b) \<noteq> 2 * a" for a b :: nat
  by presburger+

lemma keeps_own_fds:
  assumes "2 \<le> n" "i < n"
  shows "int (4 + 2 * i) \<notin> set (init_closes (ring_pipes n) i n)"
    and "int (3 + 2 * input_pipe n i) \<notin> set (init_closes (ring_pipes n) i n)"
  unfolding set_init_closes [OF assms] using input_not_own [OF assms] by (auto simp: parity)

lemma length_init_closes:
  assumes "2 \<le> n" "i < n"
  shows "length (init_closes (ring_pipes n) i n) = 2 * n - 2"
proof -
  have two: "length (concat (map (\<lambda>j. [f j, g j]) js)) = 2 * length js" for f g :: "nat \<Rightarrow> int" and js
    by (induction js) auto
  have "{j. j \<noteq> input_pipe n i \<and> j \<noteq> i} \<inter> set [0..<n] = {..<n} - {input_pipe n i, i}" by auto
  then have "length (filter (\<lambda>j. j \<noteq> input_pipe n i \<and> j \<noteq> i) [0..<n]) = card ({..<n} - {input_pipe n i, i})"
    by (simp add: distinct_length_filter)
  also have "\<dots> = n - 2"
    using assms input_pipe_less [OF assms(1), of i] input_not_own [OF assms] by (subst card_Diff_subset) auto
  finally show ?thesis using assms(1) by (simp add: init_closes_def Let_def getMyInputPipe_is getMyOutputPipe_def two)
qed

text \<open>What a process has before the calls of \<open>close\<close> that lead to a place.\<close>

definition closes_to :: "nat \<Rightarrow> nat \<Rightarrow> place \<Rightarrow> int list" where
  "closes_to n i x = (if x = Start then init_closes (ring_pipes n) i n else cleanup_closes (ring_pipes n) i n)"

definition table_at :: "nat \<Rightarrow> nat \<Rightarrow> nat \<Rightarrow> place \<Rightarrow> fdtable" where
  "table_at L n i x = (if x = Init then pipes_table L n else if x = Waiting then pipes_table L 0
     else if x = place.Exited then no_fds (pipes_table L 0) else ring_table L n i)"

fun place_before :: "place \<Rightarrow> place" where
  "place_before Start = Init"
| "place_before x = Cleanup"

lemma closes_all:
  assumes "2 \<le> n" "i < n" "x = Start \<or> x = Waiting"
  shows "close_all (closes_to n i x) (table_at L n i (place_before x)) = table_at L n i x"
  using assms(3) initMyPipes_table [OF assms(1,2), of L] closeMyPipes_table [OF assms(1,2), of L]
  by (auto simp: closes_to_def table_at_def initMyPipes_closes closeMyPipes_closes)

lemma has_fdI: "slots t m = Some f \<Longrightarrow> m < limit t \<Longrightarrow> has_fd f t"
  by (auto simp: has_fd_def list_ex_iff)

text \<open>The table of a process that has not begun \<open>cleanup\<close> has the ends of its own two pipes.\<close>

definition own_fds :: "nat \<Rightarrow> nat \<Rightarrow> fdtable \<Rightarrow> bool" where
  "own_fds n i t \<longleftrightarrow> slots t (4 + 2 * i) = Some (Pipe_W i) \<and> slots t (3 + 2 * input_pipe n i) = Some (Pipe_R (input_pipe n i))"

lemma own_fds_pipes_table: "2 \<le> n \<Longrightarrow> i < n \<Longrightarrow> own_fds n i (pipes_table L n)"
  using input_pipe_less [of n i] by (simp add: own_fds_def slots_pipes_table parity)

lemma own_fds_ring_table: "own_fds n i (ring_table L n i)"
  by (simp add: own_fds_def ring_table_def parity)

lemma own_fds_closing:
  assumes "2 \<le> n" "i < n" "es @ ds = init_closes (ring_pipes n) i n"
  shows "own_fds n i (close_all es (pipes_table L n))"
  using own_fds_pipes_table [OF assms(1,2), of L] keeps_own_fds [OF assms(1,2), folded assms(3)]
  by (simp add: own_fds_def slots_close_all)

section \<open>What the ring does next\<close>

lemma rests_not_done: "rests n k i x \<Longrightarrow> \<not> passed n k i \<Longrightarrow> \<not> done_place x"
  by (auto simp: rests_def idle_def done_place_def split: if_splits)

text \<open>Who writes has a reader to come, who finds its pipe empty has a writer to come.\<close>

lemma rests_places: "rests n k i x \<Longrightarrow> x \<noteq> Write_Next v \<and> x \<noteq> Stop v"
  by (auto simp: rests_def idle_def done_place_def split: if_splits)

lemma writes_out:
  assumes "in_phase n ph s" "i < n" "place s i = Write_Next v \<or> place s i = Stop v"
  shows "\<exists>k. ph = Out k \<and> i = k mod n"
proof (cases ph)
  case (At k)
  then show ?thesis using assms rests_places [of n k i "place s i"] by (cases "i = k mod n") auto
next
  case (Out k)
  then show ?thesis using assms rests_places [of n k i "place s i"] by (cases "i = k mod n") auto
next
  case (In k)
  then show ?thesis using assms rests_places [of n k i "place s i"] by auto
next
  case Over
  then have "done_place (place s i)" using assms(1,2) by simp
  then show ?thesis using assms(3) by (auto simp: done_place_def)
qed

lemma reader_to_come:
  assumes "in_phase n ph s" "i < n" "2 \<le> n" "place s i = Write_Next v \<or> place s i = Stop v"
  shows "\<not> done_place (place s (Suc i mod n))"
proof -
  obtain k where k: "ph = Out k" "i = k mod n" using writes_out [OF assms(1,2,4)] by blast
  have "Suc i mod n < n" "Suc i mod n = Suc k mod n" "Suc i mod n \<noteq> k mod n"
    using assms(3) next_not_holder [of n i] k(2) assms(2) by (simp_all add: mod_Suc_eq)
  then show ?thesis
    using rests_not_done [of n k "Suc k mod n"] next_not_passed [OF assms(3), of k] assms(1) k(1) by auto
qed

lemma writer_to_come:
  assumes "in_phase n ph s" "i < n" "2 \<le> n" "place s i = Read_Next \<or> place s i = Final_Read"
    and "queue s (input_pipe n i) = []"
  shows "\<not> done_place (place s (input_pipe n i))"
proof -
  have "ph \<noteq> Over" using assms(1,2,4) by (fastforce simp: done_place_def)
  then obtain k where k: "ph = At k \<or> ph = Out k \<or> ph = In k" by (cases ph) auto
  have i: "i \<noteq> k mod n" using assms(1,4,5) k by (auto split: if_splits)
  then have r: "rests n k i (place s i)" using assms(1,2) k by auto
  have "\<not> done_place (place s i)" using assms(4) by (auto simp: done_place_def)
  then have np: "\<not> passed n k (input_pipe n i)" by (rule writer_not_passed [OF assms(3,2) i r])
  show ?thesis
  proof (cases "input_pipe n i = k mod n \<and> ph \<noteq> In k")
    case True
    then show ?thesis using assms(1) k by (auto simp: done_place_def split: if_splits)
  next
    case False
    then have "rests n k (input_pipe n i) (place s (input_pipe n i))"
      using assms(1) k input_pipe_less [OF assms(3)] by auto
    then show ?thesis using rests_not_done np by blast
  qed
qed

section \<open>The system as a ring\<close>

fun pc_place :: "pc \<Rightarrow> place" where
  "pc_place Forking = Init"
| "pc_place (At_Place x) = x"
| "pc_place (Closing ds x) = place_before x"

definition sys_abs :: "ring_sys \<Rightarrow> ring" where
  "sys_abs s = \<lparr>place = (\<lambda>i. case procs s i of None \<Rightarrow> Init | Some (x, t) \<Rightarrow> pc_place x),
     queue = squeue s, printed = sprinted s\<rparr>"

fun proc_ok :: "nat \<Rightarrow> nat \<Rightarrow> nat \<Rightarrow> pc \<Rightarrow> fdtable \<Rightarrow> bool" where
  "proc_ok L n i Forking t \<longleftrightarrow> t = pipes_table L n"
| "proc_ok L n i (At_Place x) t \<longleftrightarrow> t = table_at L n i x"
| "proc_ok L n i (Closing ds x) t \<longleftrightarrow> (x = Start \<or> x = Waiting) \<and> ds \<noteq> [] \<and>
     (\<exists>es. es \<noteq> [] \<and> es @ ds = closes_to n i x \<and> t = close_all es (table_at L n i (place_before x)))"

text \<open>
  The processes there are come before those there are not, with the last one there is in
  \<open>recFork\<close> until all of them are there.
\<close>

fun still_forking :: "(pc \<times> fdtable) option \<Rightarrow> bool" where
  "still_forking None = True"
| "still_forking (Some (x, t)) = (x = Forking)"

definition in_order :: "nat \<Rightarrow> (nat \<Rightarrow> (pc \<times> fdtable) option) \<Rightarrow> bool" where
  "in_order n ps \<longleftrightarrow> (\<forall>j. Suc j < n \<longrightarrow> ps (Suc j) = None \<longleftrightarrow> still_forking (ps j))"

definition sys_ok :: "nat \<Rightarrow> nat \<Rightarrow> ring_sys \<Rightarrow> bool" where
  "sys_ok L n s \<longleftrightarrow> 2 \<le> n \<and> 3 + 2 * n \<le> L \<and> procs s 0 \<noteq> None \<and>
     in_order n (procs s) \<and> (\<forall>j x t. procs s j = Some (x, t) \<longrightarrow> j < n \<and> proc_ok L n j x t)"

text \<open>The steps a process has made that are none of theory Ring.\<close>

fun pc_extra :: "nat \<Rightarrow> pc \<Rightarrow> nat" where
  "pc_extra n Forking = 0"
| "pc_extra n (Closing ds x) = (if x = Start then 2 * n - 1 - length ds else 2 * n - length ds)"
| "pc_extra n (At_Place x) = (if x = Init then 1 else if x = Waiting \<or> x = place.Exited then 2 * n - 1 else 2 * n - 2)"

definition proc_extra :: "nat \<Rightarrow> (pc \<times> fdtable) option \<Rightarrow> nat" where
  "proc_extra n p = (case p of None \<Rightarrow> 0 | Some (x, t) \<Rightarrow> pc_extra n x)"

definition sys_extra :: "nat \<Rightarrow> ring_sys \<Rightarrow> nat" where
  "sys_extra n s = (\<Sum>i<n. proc_extra n (procs s i))"

lemma place_sys_abs: "place (sys_abs s) i = (case procs s i of None \<Rightarrow> Init | Some (x, t) \<Rightarrow> pc_place x)"
  by (simp add: sys_abs_def)

lemma sys_abs_fields [simp]:
  "queue (sys_abs s) = squeue s" "printed (sys_abs s) = sprinted s"
  "sys_abs (s\<lparr>squeue := q\<rparr>) = (sys_abs s)\<lparr>queue := q\<rparr>" "sys_abs (s\<lparr>sprinted := l\<rparr>) = (sys_abs s)\<lparr>printed := l\<rparr>"
  by (simp_all add: sys_abs_def)

lemma put_proc_fields [simp]:
  "procs (put_proc i x t s) = (procs s)(i \<mapsto> (x, t))" "squeue (put_proc i x t s) = squeue s"
  "sprinted (put_proc i x t s) = sprinted s"
  by (simp_all add: put_proc_def)

lemma sys_abs_put: "sys_abs (put_proc i x t s) = goto i (pc_place x) (sys_abs s)"
  by (auto simp: sys_abs_def put_proc_def goto_def)

lemma goto_same: "place s i = x \<Longrightarrow> goto i x s = s"
  by (auto simp: goto_def)

lemma extra_put: "i < n \<Longrightarrow> sys_extra n (put_proc i x t s) + proc_extra n (procs s i) = sys_extra n s + pc_extra n x"
  using sum_upd [of i n "proc_extra n" "Some (x, t)" "procs s"]
  by (simp add: sys_extra_def fun_upd_def proc_extra_def [of n "Some (x, t)"])

lemma extra_fields [simp]: "sys_extra n (s\<lparr>squeue := q\<rparr>) = sys_extra n s" "sys_extra n (s\<lparr>sprinted := l\<rparr>) = sys_extra n s"
  by (simp_all add: sys_extra_def)

lemma sys_ok_fields [simp]: "sys_ok L n (s\<lparr>squeue := q\<rparr>) = sys_ok L n s" "sys_ok L n (s\<lparr>sprinted := l\<rparr>) = sys_ok L n s"
  by (simp_all add: sys_ok_def)

lemma sys_ok_proc: "sys_ok L n s \<Longrightarrow> procs s j = Some (x, t) \<Longrightarrow> j < n \<and> proc_ok L n j x t"
  by (auto simp: sys_ok_def)

lemma still_forking_iff: "still_forking p \<longleftrightarrow> p = None \<or> (\<exists>t. p = Some (Forking, t))"
  by (cases p rule: still_forking.cases) auto

lemma in_order_put:
  assumes "in_order n ps" "ps i = Some (x, t)" "x \<noteq> Forking \<or> i = n - 1" "y \<noteq> Forking"
  shows "in_order n (ps(i \<mapsto> (y, u)))"
proof -
  have "Suc j < n \<Longrightarrow> Suc j = i \<Longrightarrow> \<not> still_forking (ps j)" for j using assms(1,2) unfolding in_order_def by auto
  then show ?thesis using assms unfolding in_order_def by auto
qed

lemma in_order_fork:
  assumes "in_order n ps" "ps i = Some (Forking, t)" "Suc i < n" "y \<noteq> Forking"
  shows "in_order n (ps(Suc i \<mapsto> (Forking, t'), i \<mapsto> (y, u)))" and "ps (Suc i) = None"
proof -
  show none: "ps (Suc i) = None" using assms(1-3) by (simp add: in_order_def)
  have "still_forking (ps (Suc i))" using none by simp
  then have "ps (Suc (Suc i)) = None" if "Suc (Suc i) < n" using assms(1) that unfolding in_order_def by blast
  moreover have "Suc j = i \<Longrightarrow> \<not> still_forking (ps j)" for j
    using assms(1) [unfolded in_order_def, rule_format, of j] assms(2,3) by auto
  ultimately show "in_order n (ps(Suc i \<mapsto> (Forking, t'), i \<mapsto> (y, u)))"
    using assms unfolding in_order_def by auto
qed

lemma sys_ok_put:
  assumes "sys_ok L n s" "procs s i = Some (x, t)" "x \<noteq> Forking \<or> i = n - 1" "y \<noteq> Forking" "proc_ok L n i y u"
  shows "sys_ok L n (put_proc i y u s)"
  using assms in_order_put [where ps = "procs s", OF _ assms(2-4)] unfolding sys_ok_def by (auto split: if_splits)

lemma sys_ok_fork:
  assumes "sys_ok L n s" "procs s i = Some (Forking, t)" "i \<noteq> n - 1"
  shows "sys_ok L n (put_proc i (At_Place Init) t (put_proc (Suc i) Forking t s))"
    and "procs s (Suc i) = None" "Suc i < n"
proof -
  show si: "Suc i < n" using sys_ok_proc [OF assms(1,2)] assms(3) by linarith
  have ord: "in_order n (procs s)" using assms(1) by (simp add: sys_ok_def)
  show "procs s (Suc i) = None" using in_order_fork(2) [OF ord assms(2) si, of "At_Place Init"] by simp
  have "t = pipes_table L n" using sys_ok_proc [OF assms(1,2)] by simp
  then show "sys_ok L n (put_proc i (At_Place Init) t (put_proc (Suc i) Forking t s))"
    using assms(1) si in_order_fork(1) [OF ord assms(2) si, of "At_Place Init" t t]
    unfolding sys_ok_def by (simp add: table_at_def)
qed

text \<open>A process that is not there is still to be forked.\<close>

lemma forking_before:
  assumes "sys_ok L n s" "j < n" "procs s j = None"
  shows "\<exists>k t. k < n \<and> procs s k = Some (Forking, t)"
  using assms(2,3)
proof (induction j)
  case 0
  then show ?case using assms(1) by (simp add: sys_ok_def)
next
  case (Suc j)
  then consider "procs s j = None" | t where "procs s j = Some (Forking, t)" using assms(1) by (auto simp: sys_ok_def in_order_def still_forking_iff)
  then show ?case using Suc Suc_lessD by cases blast+
qed

lemma not_done_holds:
  assumes "sys_ok L n s" "j < n" "\<not> done_place (place (sys_abs s) j)"
  obtains k x t where "k < n" "procs s k = Some (x, t)" "own_fds n j t" "limit t = L"
proof (cases "procs s j")
  case None
  have n: "2 \<le> n" using assms(1) by (simp add: sys_ok_def)
  obtain k t where k: "k < n" "procs s k = Some (Forking, t)" using forking_before [OF assms(1,2) None] by blast
  then have "t = pipes_table L n" using sys_ok_proc [OF assms(1) k(2)] by simp
  then show thesis using that k own_fds_pipes_table [OF n assms(2)] by simp
next
  case (Some a)
  obtain x t where p: "procs s j = Some (x, t)" using Some by (cases a) auto
  have n: "2 \<le> n" using assms(1) by (simp add: sys_ok_def)
  have ok: "proc_ok L n j x t" "\<not> done_place (pc_place x)"
    using sys_ok_proc [OF assms(1) p] assms(3) p by (auto simp: place_sys_abs)
  have "own_fds n j t \<and> limit t = L"
  proof (cases x)
    case Forking
    then show ?thesis using ok(1) own_fds_pipes_table [OF n assms(2)] by simp
  next
    case (At_Place y)
    then show ?thesis using ok own_fds_pipes_table [OF n assms(2), of L] own_fds_ring_table [of n j L]
      by (auto simp: table_at_def done_place_def ring_table_def)
  next
    case (Closing ds y)
    then have "y = Start" using ok by (auto simp: done_place_def)
    then show ?thesis using Closing ok own_fds_closing [OF n assms(2)] by (auto simp: closes_to_def table_at_def)
  qed
  then show thesis using that [OF assms(2) p] by simp
qed

lemma fds_small: "3 + 2 * n \<le> L \<Longrightarrow> i < n \<Longrightarrow> 4 + 2 * i < L" for n L i :: nat
  by simp

lemma held_own:
  assumes "sys_ok L n s" "j < n" "\<not> done_place (place (sys_abs s) j)"
  shows "held n (Pipe_W j) s" and "held n (Pipe_R (input_pipe n j)) s"
proof -
  obtain k x t where k: "k < n" "procs s k = Some (x, t)" "own_fds n j t" "limit t = L"
    using not_done_holds [OF assms] .
  have n: "2 \<le> n" "3 + 2 * n \<le> L" using assms(1) by (auto simp: sys_ok_def)
  have "4 + 2 * j < limit t" "3 + 2 * input_pipe n j < limit t"
    using fds_small [OF n(2)] assms(2) input_pipe_less [OF n(1), of j] k(4) by fastforce+
  then have "has_fd (Pipe_W j) t" "has_fd (Pipe_R (input_pipe n j)) t"
    using k(3) has_fdI unfolding own_fds_def by blast+
  then show "held n (Pipe_W j) s" "held n (Pipe_R (input_pipe n j)) s"
    using k(1,2) by (auto simp: held_def list_ex_iff intro!: bexI [of _ k])
qed

section \<open>Every step is one of the ring, or none\<close>

lemma own_pipes:
  assumes "2 \<le> n" "i < n"
  shows "get_fd (snd (ring_pipes n ! getMyOutputPipe i)) (ring_table L n i) = Some (Pipe_W i)"
    and "get_fd (fst (ring_pipes n ! getMyInputPipe i n)) (ring_table L n i) = Some (Pipe_R (input_pipe n i))"
  unfolding getMyInputPipe_is getMyOutputPipe_def ring_pipe_fds(2) [OF assms(2)]
    ring_pipe_fds(1) [OF input_pipe_less [OF assms(1)]] get_fd_int
  by (simp_all add: ring_table_def parity)

text \<open>
  What a step of a process has to be, with the step \<open>r\<close> of the ring: blocked as that one is, or to
  the same place with the same pipes and output.
\<close>

definition same_step :: "nat \<Rightarrow> nat \<Rightarrow> nat \<Rightarrow> place \<Rightarrow> ring_sys \<Rightarrow> outcome \<Rightarrow> sys_outcome \<Rightarrow> bool" where
  "same_step L n i y s r a \<longleftrightarrow> r = Blocked \<and> a = SBlocked \<or>
     (\<exists>z q l. r = Next (goto i z ((sys_abs s)\<lparr>queue := q, printed := l\<rparr>)) \<and>
        a = SNext (put_proc i (At_Place z) (table_at L n i z) (s\<lparr>squeue := q, sprinted := l\<rparr>)) \<and>
        z \<noteq> Init \<and> pc_extra n (At_Place z) = pc_extra n (At_Place y))"

lemma same_blocked: "same_step L n i y s Blocked SBlocked"
  by (simp add: same_step_def)

lemma same_next:
  "r = Next (goto i z ((sys_abs s)\<lparr>queue := q, printed := l\<rparr>)) \<Longrightarrow>
    a = SNext (put_proc i (At_Place z) (table_at L n i z) (s\<lparr>squeue := q, sprinted := l\<rparr>)) \<Longrightarrow>
    z \<noteq> Init \<Longrightarrow> pc_extra n (At_Place z) = pc_extra n (At_Place y) \<Longrightarrow> same_step L n i y s r a"
  unfolding same_step_def by blast

lemma same_moved:
  "r = Next (goto i z (sys_abs s)) \<Longrightarrow> a = SNext (put_proc i (At_Place z) (table_at L n i z) s) \<Longrightarrow>
    z \<noteq> Init \<Longrightarrow> pc_extra n (At_Place z) = pc_extra n (At_Place y) \<Longrightarrow> same_step L n i y s r a"
  by (rule same_next [where z = z and q = "squeue s" and l = "sprinted s"]) (simp_all add: sys_abs_def)

definition running :: "place \<Rightarrow> bool" where
  "running y \<longleftrightarrow> y \<noteq> Init \<and> y \<noteq> Waiting \<and> y \<noteq> place.Exited"

lemma running_table: "running y \<Longrightarrow> table_at L n i y = ring_table L n i"
  "running y \<Longrightarrow> running z \<Longrightarrow> pc_extra n (At_Place y) = pc_extra n (At_Place z)"
  "running y \<Longrightarrow> y \<noteq> Init"
  by (auto simp: running_def table_at_def)

lemma same_write:
  assumes "sys_ok L n s" "i < n" "running y" "running x" "held n (Pipe_R i) s" "has_reader n i (sys_abs s)"
  shows "same_step L n i y s (writeIntToMyPipe n cap i v x (sys_abs s))
    (sys_writeInt (ring_pipes n) n cap i v x (ring_table L n i) s)"
proof -
  have n: "2 \<le> n" using assms(1) by (simp add: sys_ok_def)
  show ?thesis
  proof (cases "cap \<le> length (squeue s i)")
    case True
    then show ?thesis
      using assms(5,6) own_pipes [OF n assms(2), of L] same_blocked by (simp add: sys_writeInt_def writeIntToMyPipe_def)
  next
    case False
    then show ?thesis
      using assms(5,6) own_pipes [OF n assms(2), of L] running_table [OF assms(4)] running_table(2) [OF assms(3,4)]
      by (intro same_next [where z = x and q = "(squeue s)(i := squeue s i @ [v])" and l = "sprinted s"])
        (simp_all add: sys_writeInt_def writeIntToMyPipe_def sys_abs_def)
  qed
qed

lemma same_read:
  assumes "sys_ok L n s" "i < n" "running y" "\<And>v. running (f v)"
    and "squeue s (input_pipe n i) = [] \<Longrightarrow> held n (Pipe_W (input_pipe n i)) s \<and> has_writer n (input_pipe n i) (sys_abs s)"
  shows "same_step L n i y s (readIntFromMyPipe n i f (sys_abs s))
    (sys_readInt (ring_pipes n) n i f (ring_table L n i) s)"
proof -
  have n: "2 \<le> n" using assms(1) by (simp add: sys_ok_def)
  let ?p = "input_pipe n i"
  show ?thesis
  proof (cases "squeue s ?p")
    case Nil
    then show ?thesis
      using assms(5) own_pipes [OF n assms(2), of L] same_blocked by (simp add: sys_readInt_def readIntFromMyPipe_def)
  next
    case (Cons v vs)
    then show ?thesis
      using own_pipes [OF n assms(2), of L] running_table [OF assms(4) [of v]] running_table(2) [OF assms(3) assms(4) [of v], of n]
      by (intro same_next [where z = "f v" and q = "(squeue s)(?p := vs)" and l = "sprinted s"])
        (simp_all add: sys_readInt_def readIntFromMyPipe_def sys_abs_def)
  qed
qed

lemma child_is: 
  assumes "sys_ok L n s" "procs s i = Some (x, t)" "x \<noteq> Forking"
  shows "child_alive i s \<longleftrightarrow> Suc i < n \<and> place (sys_abs s) (Suc i) \<noteq> place.Exited"
proof (cases "procs s (Suc i)")
  case None
  have "in_order n (procs s)" using assms(1) by (simp add: sys_ok_def)
  then have "\<not> Suc i < n" using None assms(2,3) by (auto simp: in_order_def)
  then show ?thesis using None by (simp add: child_alive_def)
next
  case (Some a)
  then obtain x t where a: "procs s (Suc i) = Some (x, t)" by (cases a) auto
  then have "Suc i < n" "proc_ok L n (Suc i) x t" using sys_ok_proc [OF assms(1)] by blast+
  moreover from this have "pc_place x = place.Exited \<longleftrightarrow> x = At_Place place.Exited" by (cases x) auto
  ultimately show ?thesis using a by (simp add: child_alive_def place_sys_abs)
qed

lemma place_same_step:
  assumes "sys_ok L n s" "in_phase n ph (sys_abs s)" "procs s i = Some (At_Place y, t)" "y \<noteq> Init" "y \<noteq> Cleanup"
  shows "same_step L n i y s (ring_step n cap i (sys_abs s)) (place_step (ring_pipes n) n cap i y t s)"
proof -
  have n: "2 \<le> n" using assms(1) by (simp add: sys_ok_def)
  have i: "i < n" and t: "t = table_at L n i y" using sys_ok_proc [OF assms(1,3)] by simp_all
  have y: "place (sys_abs s) i = y" using assms(3) by (simp add: place_sys_abs)
  have writes: "held n (Pipe_R i) s \<and> has_reader n i (sys_abs s)" if "y = Write_Next v \<or> y = Stop v" for v
  proof -
    have d: "\<not> done_place (place (sys_abs s) (Suc i mod n))" using reader_to_come [OF assms(2) i n] y that by blast
    have "input_pipe n (Suc i mod n) = i" "Suc i mod n < n" using input_pipe_Suc [OF n, of i] i n by simp_all
    then show ?thesis using held_own(2) [OF assms(1) _ d] d
      by (auto simp: done_place_def holds_pipes_def intro!: has_readerI [of "Suc i mod n"])
  qed
  have reads: "held n (Pipe_W (input_pipe n i)) s \<and> has_writer n (input_pipe n i) (sys_abs s)"
    if "y = Read_Next \<or> y = Final_Read" "squeue s (input_pipe n i) = []"
  proof -
    have d: "\<not> done_place (place (sys_abs s) (input_pipe n i))" using writer_to_come [OF assms(2) i n] y that by simp
    then show ?thesis using held_own(1) [OF assms(1) input_pipe_less [OF n] d] input_pipe_less [OF n, of i]
      by (auto simp: done_place_def holds_pipes_def intro!: has_writerI)
  qed
  show ?thesis
  proof (cases y)
    case Start
    then show ?thesis using y t
      by (intro same_moved [where z = "if i \<noteq> 0 then Read_Next else Loop 0"])
        (simp_all add: ring_step_def place_step_def table_at_def)
  next
    case (Loop v)
    let ?z = "if v = MYSIG_WAITFORCHILD \<or> v = STOPNUMBER then Stop v else Write_Next v"
    let ?l = "if v = MYSIG_WAITFORCHILD then sprinted s else sprinted s @ [(i, v)]"
    show ?thesis using y t Loop
      by (intro same_next [where z = ?z and q = "squeue s" and l = ?l])
        (simp_all add: ring_step_def place_step_def table_at_def Let_def sys_abs_def)
  next
    case (Write_Next v)
    then show ?thesis using y t same_write [OF assms(1) i, of y Read_Next cap "v + 1"] writes [of v]
      by (simp add: ring_step_def place_step_def running_def table_at_def)
  next
    case Read_Next
    then show ?thesis using y t same_read [OF assms(1) i, of y Loop] reads
      by (simp add: ring_step_def place_step_def running_def table_at_def)
  next
    case (Stop v)
    then show ?thesis using y t writes [of v]
        same_write [OF assms(1) i, of y "if v = STOPNUMBER then Final_Read else Cleanup" cap MYSIG_WAITFORCHILD]
      by (simp add: ring_step_def place_step_def running_def table_at_def)
  next
    case Final_Read
    then show ?thesis using y t same_read [OF assms(1) i, of y "\<lambda>v. Cleanup"] reads
      by (simp add: ring_step_def place_step_def running_def table_at_def)
  next
    case Waiting
    then show ?thesis using y t child_is [OF assms(1,3)] same_blocked
      by (cases "child_alive i s")
        (auto simp: ring_step_def place_step_def table_at_def no_fds_def intro!: same_moved [where z = place.Exited])
  qed (use assms y t same_blocked in \<open>simp_all add: ring_step_def place_step_def\<close>)
qed

text \<open>A call of \<open>close\<close>: the last one is the step of the ring.\<close>

lemma length_closes_to: "2 \<le> n \<Longrightarrow> i < n \<Longrightarrow> length (closes_to n i x) = (if x = Start then 2 * n - 2 else 2)"
  by (simp add: closes_to_def length_init_closes cleanup_closes_def)

definition closes_left :: "nat \<Rightarrow> nat \<Rightarrow> nat \<Rightarrow> pc \<Rightarrow> int list \<Rightarrow> place \<Rightarrow> fdtable \<Rightarrow> bool" where
  "closes_left L n i y ds x t \<longleftrightarrow> (x = Start \<or> x = Waiting) \<and> ds \<noteq> [] \<and>
     (y = At_Place (place_before x) \<and> ds = closes_to n i x \<or> y = Closing ds x) \<and>
     (\<exists>es. es @ ds = closes_to n i x \<and> t = close_all es (table_at L n i (place_before x)))"

lemma closes_extra:
  assumes "2 \<le> n" "i < n" "closes_left L n i y ds x t"
  shows "pc_extra n y + length ds = (if x = Start then 2 * n - 1 else 2 * n)"
proof -
  have "length ds \<le> length (closes_to n i x)" using assms(3) unfolding closes_left_def by (metis length_append le_add2)
  then show ?thesis using assms unfolding closes_left_def by (auto simp: length_closes_to split: if_splits)
qed

lemma closing_extra:
  assumes "2 \<le> n" "i < n" "closes_left L n i y (d # es) x t"
  shows "pc_extra n (closing es x) = (if es = [] then pc_extra n y else Suc (pc_extra n y))"
proof -
  have "length (d # es) \<le> length (closes_to n i x)" using assms(3) unfolding closes_left_def by (metis length_append le_add2)
  moreover have "x = Start \<or> x = Waiting" using assms(3) by (simp add: closes_left_def)
  ultimately show ?thesis using closes_extra [OF assms] assms(1,2)
    by (cases es) (auto simp: closing_def length_closes_to split: if_splits)
qed

lemma close_step_ring:
  assumes "sys_ok L n s" "procs s i = Some (y, t)" "closes_left L n i y ds x t" "close_step i ds x t s = SNext s'"
  shows "sys_ok L n s'"
    and "ring_step n cap i (sys_abs s) = Next (sys_abs s') \<and> sys_extra n s' = sys_extra n s \<or>
      sys_abs s' = sys_abs s \<and> sys_extra n s' = Suc (sys_extra n s)"
proof -
  have n: "2 \<le> n" using assms(1) by (simp add: sys_ok_def)
  have i: "i < n" using sys_ok_proc [OF assms(1,2)] by simp
  obtain fs where fs: "fs @ ds = closes_to n i x" "t = close_all fs (table_at L n i (place_before x))"
    using assms(3) by (auto simp: closes_left_def)
  obtain d es where ds: "ds = d # es" using assms(3) by (cases ds) (auto simp: closes_left_def)
  have x: "x = Start \<or> x = Waiting" "y \<noteq> Forking" "pc_place y = place_before x"
    using assms(3) by (auto simp: closes_left_def)
  let ?t = "snd (sys_close d t)"
  have s': "s' = put_proc i (closing es x) ?t s" using assms(4) by (simp add: close_step_def ds)
  have t: "?t = close_all (fs @ [d]) (table_at L n i (place_before x))" by (simp add: close_all_append fs(2))
  have ok: "proc_ok L n i (closing es x) ?t"
  proof (cases "es = []")
    case True
    then show ?thesis using closes_all [OF n i x(1), of L] t fs(1) ds by (simp add: closing_def)
  next
    case False
    then show ?thesis using x(1) t fs(1) ds by (auto simp: closing_def intro!: exI [of _ "fs @ [d]"])
  qed
  then show "sys_ok L n s'" unfolding s' using assms(1,2) x(2) by (auto simp: closing_def intro!: sys_ok_put)
  have e: "sys_extra n s' + pc_extra n y = sys_extra n s + pc_extra n (closing es x)"
    using extra_put [OF i, of "closing es x" ?t s] assms(2) s' by (simp add: proc_extra_def)
  have pl: "place (sys_abs s) i = place_before x" using assms(2) x(3) by (simp add: place_sys_abs)
  show "ring_step n cap i (sys_abs s) = Next (sys_abs s') \<and> sys_extra n s' = sys_extra n s \<or>
      sys_abs s' = sys_abs s \<and> sys_extra n s' = Suc (sys_extra n s)"
  proof (cases "es = []")
    case True
    then have "sys_abs s' = goto i x (sys_abs s)" by (simp add: s' sys_abs_put closing_def)
    then show ?thesis using x(1) pl e closing_extra [OF n i assms(3) [unfolded ds]] True
      by (auto simp: ring_step_def)
  next
    case False
    then have "sys_abs s' = sys_abs s" using pl by (simp add: s' sys_abs_put closing_def goto_same)
    then show ?thesis using e closing_extra [OF n i assms(3) [unfolded ds]] False by simp
  qed
qed

text \<open>The cases of \<open>sys_step\<close>, given that the forks succeed.\<close>

lemma closes_left_place:
  assumes "2 \<le> n" "i < n" "x = Start \<or> x = Waiting" "t = table_at L n i (place_before x)"
  shows "closes_left L n i (At_Place (place_before x)) (closes_to n i x) x t"
proof -
  have "closes_to n i x \<noteq> []" by (auto simp: closes_to_def init_closes_def cleanup_closes_def Let_def)
  then show ?thesis using assms unfolding closes_left_def by (auto intro!: exI [of _ "[]"])
qed

lemma sys_simulates:
  assumes "sys_ok L n s" "ring_inv n cap k (sys_abs s)" "\<And>j. fork_ok j"
    and "sys_step fork_ok (ring_pipes n) n cap i s = SNext s'"
  shows "sys_ok L n s' \<and>
    (ring_steps n cap (sys_abs s) (sys_abs s') \<and> sys_extra n s' = sys_extra n s \<or>
     sys_abs s' = sys_abs s \<and> sys_extra n s' = Suc (sys_extra n s))"
proof -
  have n: "2 \<le> n" using assms(1) by (simp add: sys_ok_def)
  obtain x t where p: "procs s i = Some (x, t)" using assms(4) by (cases "procs s i") (auto simp: sys_step_def)
  have i: "i < n" "proc_ok L n i x t" using sys_ok_proc [OF assms(1) p] by simp_all
  have r: "ring_step n cap i (sys_abs s) = Next a \<Longrightarrow> ring_steps n cap (sys_abs s) a" for a
    using i(1) by (auto simp: ring_steps_def)
  have closes: ?thesis if "closes_left L n i x ds y t" "close_step i ds y t s = SNext s'" for ds y
    using close_step_ring(1) [OF assms(1) p that] close_step_ring(2) [OF assms(1) p that, of cap] r by blast
  show ?thesis
  proof (cases x)
    case Forking
    then have pf: "procs s i = Some (Forking, t)" using p by simp
    then have pl: "place (sys_abs s) i = Init" by (simp add: place_sys_abs)
    show ?thesis
    proof (cases "i = n - 1")
      case True
      have s': "s' = put_proc i (At_Place Init) t s" using assms(4) p Forking True by (simp add: sys_step_def)
      have "sys_ok L n s'" unfolding s' using sys_ok_put [OF assms(1) p] True i(2) Forking by (simp add: table_at_def)
      moreover have "sys_abs s' = sys_abs s" using pl by (simp add: s' sys_abs_put goto_same)
      moreover have "sys_extra n s' = Suc (sys_extra n s)"
        using extra_put [OF i(1), of "At_Place Init" t s] pf s' by (simp add: proc_extra_def)
      ultimately show ?thesis by blast
    next
      case False
      let ?u = "put_proc (Suc i) Forking t s"
      have s': "s' = put_proc i (At_Place Init) t ?u" using assms(3,4) p Forking False by (simp add: sys_step_def)
      note fk = sys_ok_fork [OF assms(1) pf False]
      have "sys_abs ?u = sys_abs s" using fk(2) by (simp add: sys_abs_put goto_same place_sys_abs)
      then have "sys_abs s' = sys_abs s" using pl by (simp add: s' sys_abs_put goto_same)
      moreover have "sys_extra n ?u = sys_extra n s"
        using extra_put [OF fk(3), of Forking t s] fk(2) by (simp add: proc_extra_def)
      moreover have "sys_extra n s' = Suc (sys_extra n ?u)"
        using extra_put [OF i(1), of "At_Place Init" t ?u] pf s' by (simp add: proc_extra_def)
      ultimately show ?thesis using fk(1) s' by simp
    qed
  next
    case (Closing ds y)
    then show ?thesis using assms(4) p i(2) closes [of ds y] by (auto simp: sys_step_def closes_left_def)
  next
    case (At_Place y)
    have step: "place_step (ring_pipes n) n cap i y t s = SNext s'" using assms(4) p At_Place by (simp add: sys_step_def)
    consider "y = Init" | "y = Cleanup" | "y \<noteq> Init" "y \<noteq> Cleanup" by blast
    then show ?thesis
    proof cases
      case 1
      then show ?thesis using closes_left_place [OF n i(1), of Start t L] closes [of "closes_to n i Start" Start] i(2) At_Place step
        by (simp add: place_step_def closes_to_def)
    next
      case 2
      then show ?thesis using closes_left_place [OF n i(1), of Waiting t L] closes [of "closes_to n i Waiting" Waiting] i(2) At_Place step
        by (simp add: place_step_def closes_to_def)
    next
      case 3
      obtain ph where ph: "in_phase n ph (sys_abs s)" using assms(2) by (auto simp: ring_inv_def)
      have "same_step L n i y s (ring_step n cap i (sys_abs s)) (SNext s')"
        using place_same_step [OF assms(1) ph p [unfolded At_Place] 3, of cap] step by simp
      then obtain z q l where z: "ring_step n cap i (sys_abs s) = Next (goto i z ((sys_abs s)\<lparr>queue := q, printed := l\<rparr>))"
        "s' = put_proc i (At_Place z) (table_at L n i z) (s\<lparr>squeue := q, sprinted := l\<rparr>)"
        "z \<noteq> Init" "pc_extra n (At_Place z) = pc_extra n (At_Place y)" by (auto simp: same_step_def)
      have "sys_ok L n s'" unfolding z(2) using assms(1) p At_Place
        by (intro sys_ok_put [where x = x and t = t]) auto
      moreover have "sys_abs s' = goto i z ((sys_abs s)\<lparr>queue := q, printed := l\<rparr>)" by (simp add: z(2) sys_abs_put)
      moreover have "sys_extra n s' = sys_extra n s"
        using extra_put [OF i(1), of "At_Place z" "table_at L n i z" "s\<lparr>squeue := q, sprinted := l\<rparr>"] z(2,4) p At_Place
        by (simp add: proc_extra_def del: pc_extra.simps)
      ultimately show ?thesis using r [OF z(1)] by simp
    qed
  qed
qed

text \<open>While the ring is not at its end some process can go on.\<close>

lemma not_blocked: "ring_inv n cap k s \<Longrightarrow> i < n \<Longrightarrow> ring_step n cap i s \<noteq> Blocked \<Longrightarrow> \<exists>s'. ring_step n cap i s = Next s'"
  using advances_step by (fastforce simp: ring_inv_def advances_def)

lemma ring_inv_goes_on: "ring_inv n cap k s \<Longrightarrow> \<not> ring_final n s \<Longrightarrow> \<exists>i s'. i < n \<and> ring_step n cap i s = Next s'"
  using ringrun.goes_on [of n cap k s] by (auto simp: ring_steps_def)

lemma sys_goes_on:
  assumes "sys_ok L n s" "ring_inv n cap k (sys_abs s)" "\<And>j. fork_ok j" "\<not> ring_final n (sys_abs s)"
  shows "\<exists>s'. sys_steps fork_ok (ring_pipes n) n cap s s'"
proof (cases "\<exists>i x t. procs s i = Some (x, t) \<and> (x = Forking \<or> x = At_Place Init \<or> x = At_Place Cleanup \<or> (\<exists>ds y. x = Closing ds y))")
  case True
  then obtain i x t where p: "procs s i = Some (x, t)"
    and x: "x = Forking \<or> x = At_Place Init \<or> x = At_Place Cleanup \<or> (\<exists>ds y. x = Closing ds y)" by blast
  have "i < n" using sys_ok_proc [OF assms(1) p] by simp
  moreover have "\<exists>s'. sys_step fork_ok (ring_pipes n) n cap i s = SNext s'"
    using x p assms(3) by (auto simp: sys_step_def place_step_def close_step_def split: list.split)
  ultimately show ?thesis unfolding sys_steps_def by blast
next
  case False
  obtain i a where i: "i < n" "ring_step n cap i (sys_abs s) = Next a"
    using ring_inv_goes_on [OF assms(2,4)] by blast
  obtain ph where ph: "in_phase n ph (sys_abs s)" using assms(2) by (auto simp: ring_inv_def)
  have "procs s i \<noteq> None" using forking_before [OF assms(1) i(1)] False by blast
  then obtain x t where p: "procs s i = Some (x, t)" by auto
  then obtain y where y: "x = At_Place y" using False by (cases x) auto
  have "y \<noteq> Init" "y \<noteq> Cleanup" using False p y by auto
  from place_same_step [OF assms(1) ph p [unfolded y] this, of cap]
  have "\<exists>s'. sys_step fork_ok (ring_pipes n) n cap i s = SNext s'"
    using i(2) p y by (auto simp: same_step_def sys_step_def)
  then show ?thesis using i(1) unfolding sys_steps_def by blast
qed

lemma proc_extra_le:
  assumes "sys_ok L n s"
  shows "proc_extra n (procs s i) \<le> 2 * n - 1"
proof (cases "procs s i")
  case (Some a)
  then obtain x t where p: "procs s i = Some (x, t)" by (cases a) auto
  have "proc_ok L n i x t" "2 \<le> n" using sys_ok_proc [OF assms p] assms by (auto simp: sys_ok_def)
  moreover have "ds \<noteq> [] \<Longrightarrow> 1 \<le> length ds" for ds :: "int list" by (cases ds) auto
  ultimately show ?thesis using p by (cases x) (auto simp: proc_extra_def intro: diff_le_mono2)
qed (simp add: proc_extra_def)

lemma sys_extra_le: "sys_ok L n s \<Longrightarrow> sys_extra n s \<le> n * (2 * n - 1)"
  using sum_bounded_above [of "{..<n}" "\<lambda>i. proc_extra n (procs s i)" "2 * n - 1"] proc_extra_le
  by (simp add: sys_extra_def)

lemma place_exited: "sys_ok L n s \<Longrightarrow> place (sys_abs s) i = place.Exited \<Longrightarrow> \<exists>t. procs s i = Some (At_Place place.Exited, t)"
proof -
  assume s: "sys_ok L n s" "place (sys_abs s) i = place.Exited"
  then obtain x t where p: "procs s i = Some (x, t)" "pc_place x = place.Exited"
    by (auto simp: place_sys_abs split: option.splits prod.splits)
  then show ?thesis using sys_ok_proc [OF s(1) p(1)] by (cases x) auto
qed

lemma final_extra: "sys_ok L n s \<Longrightarrow> ring_final n (sys_abs s) \<Longrightarrow> sys_extra n s = n * (2 * n - 1)"
proof -
  assume s: "sys_ok L n s" "ring_final n (sys_abs s)"
  have "proc_extra n (procs s i) = 2 * n - 1" if "i < n" for i
    using place_exited [OF s(1), of i] s(2) that by (auto simp: ring_final_def proc_extra_def)
  then show ?thesis by (simp add: sys_extra_def)
qed

interpretation ringsys: refining "ring_steps n cap" "ring_inv n cap" "ring_final n" "150 + 7 * n"
    "sys_steps fork_ok (ring_pipes n) n cap" sys_abs "\<lambda>s. (\<forall>j. fork_ok j) \<and> sys_ok L n s" "sys_extra n" "n * (2 * n - 1)"
  for n cap L fork_ok
proof (unfold_locales, goal_cases)
  case (1 c k c')
  then show ?case using sys_simulates [of L n c cap k fork_ok] by (auto simp: sys_steps_def)
next
  case (2 c)
  then show ?case using sys_extra_le by blast
next
  case (3 c k)
  then show ?case using sys_goes_on by blast
next
  case (4 c)
  then show ?case using final_extra by blast
qed

section \<open>The program\<close>

text \<open>
  The pipes \<open>createPipes\<close> makes, whatever the environment, when it makes them all.
\<close>

lemma createPipes_loop_Some:
  "createPipes_loop env i k (pipes_table L i) = Some (arr, t) \<Longrightarrow>
    arr = map pipe_fds [i..<i + k] \<and> t = pipes_table L (i + k) \<and> (0 < k \<longrightarrow> 3 + 2 * (i + k) \<le> L)"
proof (induction k arbitrary: i arr t)
  case (Suc k)
  obtain r p t1 where q: "sys_pipe env i (-1, -1) (pipes_table L i) = (r, p, t1)" by (metis prod_cases3)
  have r: "r = 0" using Suc.prems q by (auto split: if_splits)
  then have ok: "pipe_ok env i" using q by (auto simp: sys_pipe_def split: if_splits)
  have "5 + 2 * i \<le> L"
  proof (rule ccontr)
    assume "\<not> 5 + 2 * i \<le> L"
    then have "lowest_free (put_fd (3 + 2 * i) (Some (Pipe_R i)) (pipes_table L i)) = None"
      by (auto simp: lowest_free_def find_None_iff slots_pipes_table)
    moreover have "m = 3 + 2 * i" if "lowest_free (pipes_table L i) = Some m" for m
    proof -
      have "slots (pipes_table L i) m = None" "\<not> 3 + 2 * i < m"
        using that by (auto simp: lowest_free_Some slots_pipes_table)
      then show ?thesis by (auto simp: slots_pipes_table split: if_splits)
    qed
    ultimately show False using q r ok
      by (auto simp: sys_pipe_def new_fd_def split: option.splits if_splits prod.splits)
  qed
  then have pipe: "sys_pipe env i (-1, -1) (pipes_table L i) = (0, pipe_fds i, pipes_table L (Suc i))"
    using pipe_opens ok by simp
  then obtain arr' where a: "createPipes_loop env (Suc i) k (pipes_table L (Suc i)) = Some (arr', t)" "arr = pipe_fds i # arr'"
    using Suc.prems by auto
  from Suc.IH [OF a(1)] show ?case using a(2) \<open>5 + 2 * i \<le> L\<close>
    by (cases k) (simp_all add: upt_conv_Cons [of i] upt_conv_Cons [of "Suc i"] del: upt_Suc)
qed simp

lemma ring_boot_is:
  assumes "ring_boot env argv (pipes_table L 0) h = Inr (Inr (n, arr, s))"
  shows "arr = ring_pipes n" "sys_ok L n s" "sys_abs s = ring_init" "sys_extra n s = 0"
    "ring_arguments argv = Inr (Inr (int n))" "2 \<le> n"
proof -
  obtain r where "ring_arguments argv = Inr r" using assms by (auto simp: ring_boot_def bind_res_eq_Inr)
  then obtain a where a: "ring_arguments argv = Inr (Inr a)" using assms by (cases r) (auto simp: ring_boot_def)
  then obtain c where c: "createPipes env (nat a) (pipes_table L 0) h = Inr c"
    using assms by (auto simp: ring_boot_def bind_res_eq_Inr)
  then obtain arr' b t h1 where b: "createPipes env (nat a) (pipes_table L 0) h = Inr (Inr (arr', b, t, h1))"
    using assms a by (cases c) (auto simp: ring_boot_def)
  then have s: "nat a = n" "arr' = arr" "s = \<lparr>procs = [0 \<mapsto> (Forking, t)], squeue = (\<lambda>p. []), sprinted = []\<rparr>"
    using assms a by (auto simp: ring_boot_def split: prod.splits)
  have n: "2 \<le> a" using a by (auto simp: ring_arguments_def MINPROC_def MAXPROC_def bind_res_eq_Inr
      split: if_splits sum.splits)
  then show "2 \<le> n" "ring_arguments argv = Inr (Inr (int n))" using a s(1) by auto
  have t: "createPipes_loop env 0 n (pipes_table L 0) = Some (arr, t)"
    using b s(1,2) by (auto simp: createPipes_def split: prod.splits option.splits)
  from createPipes_loop_Some [OF t] \<open>2 \<le> n\<close> have "arr = ring_pipes n" "t = pipes_table L n" "3 + 2 * n \<le> L" by auto
  then show "arr = ring_pipes n" "sys_ok L n s" "sys_abs s = ring_init" "sys_extra n s = 0"
    using \<open>2 \<le> n\<close> s(3)
    by (auto simp: sys_ok_def in_order_def sys_abs_def ring_init_def sys_extra_def proc_extra_def
      split: if_splits intro!: sum.neutral)
qed

text \<open>Runs of the program.\<close>

lemma boot_run:
  assumes "ring_boot env argv (pipes_table L 0) h = Inr (Inr (n, arr, s0))" "\<And>j. fork_ok j" "1 \<le> cap"
    and "run (sys_steps fork_ok arr n cap) m s0 s"
  shows "\<exists>j. run (ring_steps n cap) j ring_init (sys_abs s) \<and> j + sys_extra n s = m" "sys_ok L n s"
    "\<exists>k. ring_inv n cap k (sys_abs s)"
proof -
  note b = ring_boot_is [OF assms(1)]
  have inv: "ring_inv n cap 0 (sys_abs s0)" using ring_init_inv [OF b(6) assms(3)] b(3) by simp
  have c: "(\<forall>j. fork_ok j) \<and> sys_ok L n s0" using assms(2) b(2) by blast
  from ringsys.run_refines [OF assms(4) [unfolded b(1)] c inv]
  obtain j where j: "run (ring_steps n cap) j (sys_abs s0) (sys_abs s)" "sys_ok L n s"
    "j + sys_extra n s = m + sys_extra n s0" by blast
  then show "\<exists>j. run (ring_steps n cap) j ring_init (sys_abs s) \<and> j + sys_extra n s = m" "sys_ok L n s"
    using b(3,4) by auto
  show "\<exists>k. ring_inv n cap k (sys_abs s)" using ringrun.run_inv [OF j(1) inv] by blast
qed

lemma boot_fine_inv:
  assumes "ring_boot env argv (pipes_table L 0) h = Inr (Inr (n, arr, s0))" "\<And>j. fork_ok j" "1 \<le> cap"
  shows "((\<forall>j. fork_ok j) \<and> sys_ok L n s0) \<and> (\<exists>j. ring_inv n cap j (sys_abs s0) \<and> 0 = j + sys_extra n s0)"
  using ring_boot_is [OF assms(1)] ring_init_inv [of n cap] assms(2,3) by auto

text \<open>
  C8. The ring program is a refinement of the ring: when all forks succeed, whatever the order in
  which its processes fork, close, write and read, what they print and what is in the pipes is what a
  run of theory Ring makes of it, in no more steps; a process that is gone is gone there. A fork that
  fails leaves the ring (\<open>ring_fork_failure\<close>).
\<close>

theorem ring_program_refines:
  assumes "ring_boot env argv (pipes_table L 0) h = Inr (Inr (n, arr, s0))" "\<And>j. fork_ok j" "1 \<le> cap"
    and "run (sys_steps fork_ok arr n cap) m s0 s"
  shows "\<exists>r j. j \<le> m \<and> run (ring_steps n cap) j ring_init r \<and> printed r = sprinted s \<and> queue r = squeue s \<and>
    (\<forall>i t. procs s i = Some (At_Place place.Exited, t) \<longrightarrow> place r i = place.Exited)"
proof -
  obtain j where "run (ring_steps n cap) j ring_init (sys_abs s)" "j + sys_extra n s = m"
    using boot_run(1) [OF assms] by blast
  then show ?thesis
    by (intro exI [of _ "sys_abs s"] exI [of _ j]) (auto simp: place_sys_abs)
qed

text \<open>
  C7. Whatever the order its processes run in, when all forks succeed no process of the ring program
  is ever killed by SIGPIPE, none reads at the end of a pipe or from a closed descriptor, also while
  others are still being forked or are closing their descriptors; and the program makes at most
  150 + 7 n + n (2 n - 1) steps.
\<close>

theorem ring_program_safe:
  assumes "ring_boot env argv (pipes_table L 0) h = Inr (Inr (n, arr, s0))" "\<And>j. fork_ok j" "1 \<le> cap"
    and "run (sys_steps fork_ok arr n cap) m s0 s" "i < n"
  shows "sys_step fork_ok arr n cap i s \<notin> {SKilled, SUninitialised, SElsewhere} \<and>
    m \<le> 150 + 7 * n + n * (2 * n - 1)"
proof -
  note b = ring_boot_is [OF assms(1)] and ok = boot_run(2) [OF assms(1-4)]
  obtain k where inv: "ring_inv n cap k (sys_abs s)" using boot_run(3) [OF assms(1-4)] by blast
  then obtain ph where ph: "in_phase n ph (sys_abs s)" by (auto simp: ring_inv_def)
  have "sys_step fork_ok (ring_pipes n) n cap i s \<notin> {SKilled, SUninitialised, SElsewhere}"
  proof (cases "procs s i")
    case (Some a)
    then obtain x t where p: "procs s i = Some (x, t)" by (cases a) auto
    have "a \<noteq> SKilled \<and> a \<noteq> SUninitialised \<and> a \<noteq> SElsewhere" if "same_step L n i y s r a" for y r a
      using that by (auto simp: same_step_def)
    then show ?thesis using p place_same_step [OF ok ph, of i _ t cap]
      by (cases x; cases "pc_place x = Init \<or> pc_place x = Cleanup")
        (auto simp: sys_step_def place_step_def close_step_def split: list.splits)
  qed (simp add: sys_step_def)
  then show ?thesis
    using ringsys.fine.run_bound [OF assms(4) [unfolded b(1)] boot_fine_inv [OF assms(1-3)]] b(1) by simp
qed

text \<open>
  C6. When the set-up of the ring program succeeds and all forks do, every run of it that can go on
  no further, whatever the order the processes ran in, has printed the numbers 0 to 50 in order,
  number k by process k modulo n, has left nothing in the pipes, all n processes are gone, and it
  has made exactly 150 + 7 n + n (2 n - 1) steps.
\<close>

theorem ring_program_prints:
  assumes "ring_boot env argv (pipes_table L 0) h = Inr (Inr (n, arr, s0))" "\<And>j. fork_ok j" "1 \<le> cap"
    and "run (sys_steps fork_ok arr n cap) m s0 s" "stuck (sys_steps fork_ok arr n cap) s"
  shows "sprinted s = map (\<lambda>k. (k mod n, int k)) [0..<51] \<and> squeue s = (\<lambda>p. []) \<and>
    (\<forall>i<n. \<exists>t. procs s i = Some (At_Place place.Exited, t)) \<and> m = 150 + 7 * n + n * (2 * n - 1)"
proof -
  note b = ring_boot_is [OF assms(1)] and ok = boot_run(2) [OF assms(1-4)]
  obtain k where inv: "ring_inv n cap k (sys_abs s)" using boot_run(3) [OF assms(1-4)] by blast
  from ringsys.fine.stuck_run [OF assms(4) [unfolded b(1)] boot_fine_inv [OF assms(1-3)] assms(5) [unfolded b(1)]]
  have fin: "ring_final n (sys_abs s)" and m: "m = 150 + 7 * n + n * (2 * n - 1)" by simp_all
  have "squeue s = (\<lambda>p. []) \<and> sprinted s = map (\<lambda>k. (k mod n, int k)) [0..<51]"
    using final_state [OF inv fin] by simp
  moreover have "\<exists>t. procs s i = Some (At_Place place.Exited, t)" if "i < n" for i
    using place_exited [OF ok, of i] fin that by (simp add: ring_final_def)
  ultimately show ?thesis using m by blast
qed

section \<open>When a fork fails\<close>

lemma put_twice [simp]: "put_proc i x t (put_proc i y u s) = put_proc i x t s"
  "put_proc i x t ((put_proc i y u s)\<lparr>squeue := q\<rparr>) = put_proc i x t (s\<lparr>squeue := q\<rparr>)"
  by (simp_all add: put_proc_def)

lemma sys_stepsI: "sys_step fork_ok arr n cap i s = SNext s' \<Longrightarrow> i < n \<Longrightarrow> sys_steps fork_ok arr n cap s s'"
  by (auto simp: sys_steps_def)

lemma closes_run:
  assumes "i < n"
  shows "run (sys_steps fork_ok arr n cap) (length ds) (put_proc i (closing ds x) t s)
    (put_proc i (At_Place x) (close_all ds t) s)"
proof (induction ds arbitrary: t)
  case Nil
  then show ?case by (simp add: closing_def run_refl)
next
  case (Cons d ds)
  have "sys_step fork_ok arr n cap i (put_proc i (closing (d # ds) x) t s) =
      SNext (put_proc i (closing ds x) (snd (sys_close d t)) s)"
    by (simp add: sys_step_def closing_def [of "d # ds"] close_step_def)
  from run_first [where step = "sys_steps fork_ok arr n cap", OF sys_stepsI [OF this assms] Cons.IH] show ?case by simp
qed

lemma init_run:
  assumes "2 \<le> n" "i < n"
  shows "run (sys_steps fork_ok (ring_pipes n) n cap) (2 * n - 2) (put_proc i (At_Place Init) (pipes_table L n) s)
    (put_proc i (At_Place Start) (ring_table L n i) s)"
proof -
  let ?ds = "init_closes (ring_pipes n) i n"
  obtain d ds where ds: "?ds = d # ds" by (auto simp: init_closes_def Let_def)
  have "sys_step fork_ok (ring_pipes n) n cap i (put_proc i (At_Place Init) (pipes_table L n) s) =
      SNext (put_proc i (closing ds Start) (snd (sys_close d (pipes_table L n))) s)"
    by (simp add: sys_step_def place_step_def ds close_step_def)
  from run_first [where step = "sys_steps fork_ok (ring_pipes n) n cap", OF sys_stepsI [OF this assms(2)] closes_run [OF assms(2)]]
  have "run (sys_steps fork_ok (ring_pipes n) n cap) (length ?ds) (put_proc i (At_Place Init) (pipes_table L n) s)
      (put_proc i (At_Place Start) (close_all ?ds (pipes_table L n)) s)" by (simp add: ds)
  then show ?thesis
    using length_init_closes [OF assms] initMyPipes_table [OF assms, of L] by (simp add: initMyPipes_closes)
qed

lemma no_writer:
  "2 \<le> n \<Longrightarrow> i < n \<Longrightarrow> \<not> has_fd (Pipe_W (input_pipe n i)) (ring_table L n i)" "\<not> has_fd f (no_fds t)"
  using input_not_own [of n i] by (simp_all add: has_fd_def list_ex_iff ring_table_def no_fds_def)

lemma not_held: "(\<And>j x t. procs s j = Some (x, t) \<Longrightarrow> \<not> has_fd f t) \<Longrightarrow> \<not> held n f s"
  by (auto simp: held_def list_ex_iff split: option.splits)

definition sys_start :: "nat \<Rightarrow> nat \<Rightarrow> ring_sys" where
  "sys_start L n = \<lparr>procs = [0 \<mapsto> (Forking, pipes_table L n)], squeue = (\<lambda>p. []), sprinted = []\<rparr>"

text \<open>
  The other processes are not told when a fork fails: when the child's fork fails, the first process
  finds, after it has written its number, the end of its input pipe, and goes on with an
  uninitialised number.
\<close>

theorem ring_fork_failure:
  assumes "3 \<le> n" "3 + 2 * n \<le> L" "1 \<le> cap" "fork_ok 0" "\<not> fork_ok 1"
  shows "\<exists>s. run (sys_steps fork_ok (ring_pipes n) n cap) (2 * n + 3) (sys_start L n) s \<and>
    sprinted s = [(0, 0)] \<and> sys_step fork_ok (ring_pipes n) n cap 0 s = SUninitialised"
proof -
  let ?run = "run (sys_steps fork_ok (ring_pipes n) n cap) "
  have n: "2 \<le> n" "0 < n" "1 < n" using assms(1) by simp_all
  define t r where "t = pipes_table L n" and "r = ring_table L n 0"
  define u where "u = put_proc 1 Forking t (sys_start L n)"
  define v where "v = u\<lparr>sprinted := [(0, 0)]\<rparr>"
  define w where "w = v\<lparr>squeue := (\<lambda>p. [])(0 := [1])\<rparr>"
  define s where "s = put_proc 1 (At_Place place.Exited) (no_fds t) (put_proc 0 (At_Place Read_Next) r w)"
  have step: "?run (Suc m) a c" if "?run m a b" "sys_step fork_ok (ring_pipes n) n cap i b = SNext c" "i < n" for m a b c i
    using run.run_step [OF that(1) sys_stepsI [OF that(2,3)]] .
  have 0: "sys_step fork_ok (ring_pipes n) n cap 0 (sys_start L n) = SNext (put_proc 0 (At_Place Init) t u)"
    using assms(1,4) by (simp add: sys_step_def sys_start_def t_def u_def)
  have 1: "?run (Suc (2 * n - 2)) (sys_start L n) (put_proc 0 (At_Place Start) r u)"
    using run_first [where step = "sys_steps fork_ok (ring_pipes n) n cap", OF sys_stepsI [OF 0 n(2)]] init_run [OF n(1,2)]
    unfolding t_def r_def by blast
  have "sys_step fork_ok (ring_pipes n) n cap 0 (put_proc 0 (At_Place Start) r u) =
      SNext (put_proc 0 (At_Place (Loop 0)) r u)" by (simp add: sys_step_def place_step_def)
  note 2 = step [OF 1 this n(2)]
  have "put_proc 0 (At_Place (Write_Next 0)) r ((put_proc 0 (At_Place (Loop 0)) r u)\<lparr>sprinted := [(0, 0)]\<rparr>) =
      put_proc 0 (At_Place (Write_Next 0)) r v" by (simp add: put_proc_def v_def)
  then have "sys_step fork_ok (ring_pipes n) n cap 0 (put_proc 0 (At_Place (Loop 0)) r u) =
      SNext (put_proc 0 (At_Place (Write_Next 0)) r v)"
    by (simp add: sys_step_def place_step_def MYSIG_WAITFORCHILD_def STOPNUMBER_def u_def sys_start_def)
  note 3 = step [OF 2 this n(2)]
  have "has_fd (Pipe_R 0) t" using assms(1,2) by (intro has_fdI [where m = 3]) (simp_all add: slots_pipes_table t_def)
  then have "held n (Pipe_R 0) (put_proc 0 (At_Place (Write_Next 0)) r v)"
    using n(3) by (auto simp: held_def list_ex_iff u_def v_def intro!: bexI [of _ 1])
  moreover have "squeue v = (\<lambda>p. [])" by (simp add: v_def u_def sys_start_def)
  ultimately have "sys_step fork_ok (ring_pipes n) n cap 0 (put_proc 0 (At_Place (Write_Next 0)) r v) =
      SNext (put_proc 0 (At_Place Read_Next) r w)"
    using own_pipes(1) [OF n(1,2), of L] assms(3)
    by (simp add: sys_step_def place_step_def sys_writeInt_def w_def r_def)
  note 4 = step [OF 3 this n(2)]
  have "sys_step fork_ok (ring_pipes n) n cap 1 (put_proc 0 (At_Place Read_Next) r w) = SNext s"
    using assms(1,5) by (simp add: sys_step_def u_def v_def w_def s_def)
  note 5 = step [OF 4 this n(3)]
  have ps: "procs s = [0 \<mapsto> (At_Place Read_Next, r), 1 \<mapsto> (At_Place place.Exited, no_fds t)]"
    by (rule ext) (simp add: s_def w_def v_def u_def sys_start_def)
  have "\<not> held n (Pipe_W (input_pipe n 0)) s"
    by (rule not_held) (use no_writer(1) [OF n(1,2), of L] no_writer(2) in \<open>auto simp: ps r_def split: if_splits\<close>)
  moreover have "squeue s (input_pipe n 0) = []"
    using input_not_own [OF n(1,2)] by (simp add: s_def w_def)
  ultimately have "sys_step fork_ok (ring_pipes n) n cap 0 s = SUninitialised"
    using own_pipes(2) [OF n(1,2), of L] by (simp add: sys_step_def place_step_def sys_readInt_def ps r_def)
  moreover have "Suc (Suc (Suc (Suc (Suc (2 * n - 2))))) = 2 * n + 3" using n(1) by simp
  from 5 [unfolded this] have "?run (2 * n + 3) (sys_start L n) s" .
  moreover have "sprinted s = [(0, 0)]" by (simp add: s_def w_def v_def)
  ultimately show ?thesis by blast
qed

theorem ring_fork_failure_witness:
  "\<exists>s. run (sys_steps (\<lambda>j. j = 0) (ring_pipes 3) 3 1) 9 (sys_start 256 3) s \<and>
    sys_step (\<lambda>j. j = 0) (ring_pipes 3) 3 1 0 s = SUninitialised"
  using ring_fork_failure [of 3 256 1 "\<lambda>j. j = 0"] by auto

section \<open>Witnesses\<close>

lemma boot_four: "\<exists>s0. ring_boot ring_env [''ring'', ''4''] (pipes_table 256 0) (new_heap (\<lambda>k n. True)) =
    Inr (Inr (4, ring_pipes 4, s0))"
proof -
  have "ring_arguments [''ring'', ''4''] = Inr (Inr 4)"
    by (simp add: ring_arguments_def isNatNum_first atoi_def Let_def MINPROC_def MAXPROC_def isdigit_def
      atoi_val_def digits_val_def isspace_def cstr_def NUL_def)
  moreover have "createPipes_loop ring_env 0 4 (pipes_table 256 0) = Some (ring_pipes 4, pipes_table 256 4)"
    using createPipes_loop_all [of ring_env 0 4 256] by (simp add: ring_env_def)
  ultimately show ?thesis by (simp add: ring_boot_def createPipes_def malloc_def new_heap_def granted_def)
qed

lemma four_runs:
  assumes "ring_boot ring_env [''ring'', ''4''] (pipes_table 256 0) (new_heap (\<lambda>k n. True)) = Inr (Inr (4, ring_pipes 4, s0))"
  shows "\<exists>s. run (sys_steps (\<lambda>j. True) (ring_pipes 4) 4 1) 206 s0 s \<and> stuck (sys_steps (\<lambda>j. True) (ring_pipes 4) 4 1) s"
proof -
  note inv = boot_fine_inv [OF assms, of "\<lambda>j. True" 1]
  from ringsys.fine.run_completes [OF inv] obtain s where
    s: "run (sys_steps (\<lambda>j. True) (ring_pipes 4) 4 1) 206 s0 s" "ring_final 4 (sys_abs s)" by auto
  from ringsys.fine.stuck_final [OF ringsys.fine.run_inv [OF s(1) inv]] s show ?thesis by auto
qed

theorem ring_program_prints_witness:
  "\<exists>s0 s. ring_boot ring_env [''ring'', ''4''] (pipes_table 256 0) (new_heap (\<lambda>k n. True)) =
      Inr (Inr (4, ring_pipes 4, s0)) \<and> run (sys_steps (\<lambda>j. True) (ring_pipes 4) 4 1) 206 s0 s \<and>
    sprinted s = map (\<lambda>k. (k mod 4, int k)) [0..<51]"
proof -
  obtain s0 where s0: "ring_boot ring_env [''ring'', ''4''] (pipes_table 256 0) (new_heap (\<lambda>k n. True)) =
      Inr (Inr (4, ring_pipes 4, s0))" using boot_four by blast
  obtain s where s: "run (sys_steps (\<lambda>j. True) (ring_pipes 4) 4 1) 206 s0 s" "stuck (sys_steps (\<lambda>j. True) (ring_pipes 4) 4 1) s"
    using four_runs [OF s0] by blast
  from ring_program_prints [OF s0 _ _ s] s0 s(1) show ?thesis by auto
qed

theorem ring_program_safe_witness:
  "\<exists>s0 s. ring_boot ring_env [''ring'', ''4''] (pipes_table 256 0) (new_heap (\<lambda>k n. True)) =
      Inr (Inr (4, ring_pipes 4, s0)) \<and> run (sys_steps (\<lambda>j. True) (ring_pipes 4) 4 1) 206 s0 s \<and>
    sys_step (\<lambda>j. True) (ring_pipes 4) 4 1 0 s \<noteq> SKilled"
proof -
  obtain s0 where s0: "ring_boot ring_env [''ring'', ''4''] (pipes_table 256 0) (new_heap (\<lambda>k n. True)) =
      Inr (Inr (4, ring_pipes 4, s0))" using boot_four by blast
  obtain s where s: "run (sys_steps (\<lambda>j. True) (ring_pipes 4) 4 1) 206 s0 s" using four_runs [OF s0] by blast
  from ring_program_safe [OF s0 _ _ s, of 0] s0 s show ?thesis by auto
qed

theorem ring_program_refines_witness:
  "\<exists>r j. j \<le> 206 \<and> run (ring_steps 4 1) j ring_init r"
proof -
  obtain s0 where s0: "ring_boot ring_env [''ring'', ''4''] (pipes_table 256 0) (new_heap (\<lambda>k n. True)) =
      Inr (Inr (4, ring_pipes 4, s0))" using boot_four by blast
  obtain s where s: "run (sys_steps (\<lambda>j. True) (ring_pipes 4) 4 1) 206 s0 s" using four_runs [OF s0] by blast
  from ring_program_refines [OF s0 _ _ s] show ?thesis by auto
qed

end
