(* ===== verification/CompareFiles.thy ===== *)
theory CompareFiles
  imports CPrelude Posix
begin

text \<open>
  \<open>compareFiles\<close> of the finder of duplicate files (Lab1/duplicates_backup.c; duplicates.c has the same
  text), call by call over a table of descriptors: \<open>stat\<close>, \<open>open\<close>, the reads of one byte with the
  offset of each file, and the calls of \<open>close\<close> there are. Each of the calls may fail. A program may
  end in the middle with \<open>exit\<close>, which is one of the two failures; what the exit closes does not
  matter any more. Files do not change while they are compared.
\<close>

datatype failure = Undefined ub | Exits int

definition dbind :: "failure + 'a \<Rightarrow> ('a \<Rightarrow> failure + 'b) \<Rightarrow> failure + 'b" where
  "dbind r f = (case r of Inl e \<Rightarrow> Inl e | Inr a \<Rightarrow> f a)"

lemma dbind_simps [simp]: "dbind (Inl e) f = Inl e" "dbind (Inr a) f = f a"
  by (simp_all add: dbind_def)

lemma dbind_cong [fundef_cong]:
  "r = r' \<Longrightarrow> (\<And>a. r' = Inr a \<Longrightarrow> f a = g a) \<Longrightarrow> dbind r f = dbind r' g"
  by (cases r') auto

definition defined :: "'a res \<Rightarrow> failure + 'a" where
  "defined r = map_sum Undefined id r"

lemma defined_simps [simp]: "defined (Inl u) = Inl (Undefined u)" "defined (Inr a) = Inr a"
  by (simp_all add: defined_def)

definition add_int :: "nat \<Rightarrow> nat \<Rightarrow> failure + nat" where
  "add_int a b = (if a + b < 2 ^ 31 then Inr (a + b) else Inl (Undefined Int_Overflow))"

section \<open>The calls\<close>

text \<open>
  What the calls find: the bytes of the file of a path, if \<open>stat\<close> knows it, whether it may be
  opened, and at which offsets it can be read.
\<close>

record files_env =
  on_disk :: "string \<Rightarrow> string option"
  may_open :: "string \<Rightarrow> bool"
  reads :: "string \<Rightarrow> nat \<Rightarrow> bool"

text \<open>\<open>open (path, O_RDONLY)\<close>.\<close>

definition open_rdonly :: "files_env \<Rightarrow> string \<Rightarrow> fdtable \<Rightarrow> int \<times> fdtable" where
  "open_rdonly env path t = (if may_open env path then new_fd (Opened path) t else (-1, t))"

text \<open>
  \<open>read (fd, &byte, 1)\<close> at an offset: at the end of the file the byte stays what it was. \<open>ok\<close>
  says at which offsets the file can be read.
\<close>

definition read_byte :: "(nat \<Rightarrow> bool) \<Rightarrow> string \<Rightarrow> nat \<Rightarrow> char option \<Rightarrow> int \<times> char option \<times> nat" where
  "read_byte ok bs off byte =
     (if \<not> ok off then (-1, byte, off)
      else if off < length bs then (1, Some (bs ! off), Suc off) else (0, byte, off))"

function compare_loop :: "(nat \<Rightarrow> bool) \<times> (nat \<Rightarrow> bool) \<Rightarrow> string \<Rightarrow> string \<Rightarrow> nat \<Rightarrow> nat \<Rightarrow> nat \<times> nat \<Rightarrow> char option \<times> char option
    \<Rightarrow> failure + bool" where
  "compare_loop ok a b st_size i offs bytes =
     (if i < st_size
      then (case read_byte (fst ok) a (fst offs) (fst bytes) of (ret1, byte1, off1) \<Rightarrow>
            if ret1 < 0 then Inl (Exits 1) else
            case read_byte (snd ok) b (snd offs) (snd bytes) of (ret2, byte2, off2) \<Rightarrow>
            if ret2 < 0 then Inl (Exits 1) else
            if byte1 = None \<or> byte2 = None then Inl (Undefined Uninit_Read)
            else if byte1 \<noteq> byte2 then Inr False
            else dbind (add_int i 1) (\<lambda>j. compare_loop ok a b st_size j (off1, off2) (byte1, byte2)))
      else Inr True)"
  by pat_completeness auto
termination
  by (relation "measure (\<lambda>(ok, a, b, st_size, i, offs, bytes). st_size - i)") (auto simp: add_int_def split: if_splits)

declare compare_loop.simps [simp del]

definition compareFiles :: "files_env \<Rightarrow> string option \<Rightarrow> string option \<Rightarrow> fdtable \<Rightarrow> failure + bool \<times> fdtable" where
  "compareFiles env filePath1 filePath2 t =
     (case (filePath1, filePath2) of
        (Some p1, Some p2) \<Rightarrow>
          (case on_disk env p1 of None \<Rightarrow> Inl (Exits 1) | Some a \<Rightarrow>
          (case on_disk env p2 of None \<Rightarrow> Inl (Exits 1) | Some b \<Rightarrow>
           if length a \<noteq> length b then Inr (False, t)
           else case open_rdonly env p1 t of (fd1, t1) \<Rightarrow>
           if fd1 < 0 then Inl (Exits 1)
           else case open_rdonly env p2 t1 of (fd2, t2) \<Rightarrow>
           if fd2 < 0 then Inl (Exits 1)
           else dbind (compare_loop (reads env p1, reads env p2) a b (length a) 0 (0, 0) (None, None)) (\<lambda>same.
             if \<not> same then Inr (False, t2)
             else Inr (True, snd (sys_close fd2 (snd (sys_close fd1 t2)))))))
      | _ \<Rightarrow> Inr (False, t))"

section \<open>Descriptors in use\<close>

definition used :: "fdtable \<Rightarrow> nat" where
  "used t = length (filter (\<lambda>m. slots t m \<noteq> None) [0..<limit t])"

lemma used_card: "used t = card {m. m < limit t \<and> slots t m \<noteq> None}"
proof -
  have "{m. slots t m \<noteq> None} \<inter> set [0..<limit t] = {m. m < limit t \<and> slots t m \<noteq> None}" by auto
  then show ?thesis by (simp add: used_def distinct_length_filter)
qed

lemma used_full: "lowest_free t = None \<longleftrightarrow> limit t \<le> used t"
proof
  assume "lowest_free t = None"
  then have "{m. m < limit t \<and> slots t m \<noteq> None} = {..<limit t}" by (auto simp: lowest_free_def find_None_iff)
  then show "limit t \<le> used t" by (simp add: used_card)
next
  assume l: "limit t \<le> used t"
  have sub: "{m. m < limit t \<and> slots t m \<noteq> None} \<subseteq> {..<limit t}" by auto
  moreover have "card {..<limit t} \<le> card {m. m < limit t \<and> slots t m \<noteq> None}" using l by (simp add: used_card)
  ultimately have "{m. m < limit t \<and> slots t m \<noteq> None} = {..<limit t}" by (intro card_seteq) simp_all
  then show "lowest_free t = None" by (auto simp: lowest_free_def find_None_iff set_eq_iff)
qed

lemma used_put: "slots t n = None \<Longrightarrow> n < limit t \<Longrightarrow> used (put_fd n (Some f) t) = Suc (used t)"
proof -
  assume n: "slots t n = None" "n < limit t"
  then have "{m. m < limit t \<and> slots (put_fd n (Some f) t) m \<noteq> None} = insert n {m. m < limit t \<and> slots t m \<noteq> None}"
    by auto
  then show ?thesis using n by (simp add: used_card)
qed

section \<open>What it answers\<close>

text \<open>How many bytes two files have in common at their start.\<close>

definition common_bytes :: "string \<Rightarrow> string \<Rightarrow> nat" where
  "common_bytes a b = length (takeWhile (\<lambda>(x, y). x = y) (zip a b))"

text \<open>
  One of two files of length \<open>l\<close> cannot be read at an offset from \<open>i\<close> to \<open>k\<close>, below 2^31.
\<close>

definition read_fails :: "(nat \<Rightarrow> bool) \<times> (nat \<Rightarrow> bool) \<Rightarrow> nat \<Rightarrow> nat \<Rightarrow> nat \<Rightarrow> bool" where
  "read_fails ok i k l \<longleftrightarrow> (\<exists>n < l. i \<le> n \<and> n \<le> k \<and> n < 2 ^ 31 \<and> (\<not> fst ok n \<or> \<not> snd ok n))"

text \<open>
  What the comparison of two files of one size comes to: both are read up to their first difference,
  or up to their ends, but for no more than 2^31 bytes, as the index is an int. A failing read on the
  way exits; then, the index may have overflown; then the files are equal or not.
\<close>

definition compare_bytes :: "(nat \<Rightarrow> bool) \<Rightarrow> (nat \<Rightarrow> bool) \<Rightarrow> string \<Rightarrow> string \<Rightarrow> failure + bool" where
  "compare_bytes r1 r2 a b =
     (if read_fails (r1, r2) 0 (common_bytes a b) (length a) then Inl (Exits 1)
      else if 2 ^ 31 \<le> common_bytes a b then Inl (Undefined Int_Overflow)
      else Inr (a = b))"

text \<open>The whole, with the number of descriptors in use and their limit.\<close>

definition compare_spec :: "files_env \<Rightarrow> nat \<Rightarrow> string option \<Rightarrow> string option \<Rightarrow> nat \<Rightarrow> failure + bool \<times> nat" where
  "compare_spec env max_fds filePath1 filePath2 n =
     (case (filePath1, filePath2) of
        (Some p1, Some p2) \<Rightarrow>
          (case (on_disk env p1, on_disk env p2) of
             (Some a, Some b) \<Rightarrow>
               if length a \<noteq> length b then Inr (False, n)
               else if \<not> may_open env p1 \<or> \<not> may_open env p2 \<or> max_fds < n + 2 then Inl (Exits 1)
               else dbind (compare_bytes (reads env p1) (reads env p2) a b) (\<lambda>same.
                      Inr (same, if same then n else n + 2))
           | _ \<Rightarrow> Inl (Exits 1))
      | _ \<Rightarrow> Inr (False, n))"

lemma common_bytes_drop:
  "length a = length b \<Longrightarrow> i < length a \<Longrightarrow> common_bytes (drop i a) (drop i b) =
     (if a ! i = b ! i then Suc (common_bytes (drop (Suc i) a) (drop (Suc i) b)) else 0)"
  by (simp add: common_bytes_def Cons_nth_drop_Suc [symmetric])

lemma common_bytes_le: "common_bytes a b \<le> length a"
  unfolding common_bytes_def by (rule le_trans [OF length_takeWhile_le]) simp

text \<open>The loop from index i on, by what is left of the files.\<close>

definition loop_spec :: "(nat \<Rightarrow> bool) \<times> (nat \<Rightarrow> bool) \<Rightarrow> string \<Rightarrow> string \<Rightarrow> nat \<Rightarrow> failure + bool" where
  "loop_spec ok a b i =
     (let k = i + common_bytes (drop i a) (drop i b) in
      if read_fails ok i k (length a) then Inl (Exits 1)
      else if 2 ^ 31 \<le> k then Inl (Undefined Int_Overflow)
      else Inr (drop i a = drop i b))"

lemma read_fails_next: "fst ok i \<Longrightarrow> snd ok i \<Longrightarrow> read_fails ok i k l \<longleftrightarrow> read_fails ok (Suc i) k l"
  unfolding read_fails_def by (metis Suc_leD le_antisym not_less_eq_eq)

lemma read_fails_none: "k < i \<or> l \<le> i \<or> 2 ^ 31 \<le> i \<Longrightarrow> \<not> read_fails ok i k l"
  unfolding read_fails_def by auto

lemma loop_spec_step:
  assumes "length a = length b" "i < length a" "fst ok i" "snd ok i" "a ! i = b ! i"
  shows "loop_spec ok a b i = (if Suc i < 2 ^ 31 then loop_spec ok a b (Suc i) else Inl (Undefined Int_Overflow))"
proof -
  have k: "i + common_bytes (drop i a) (drop i b) = Suc i + common_bytes (drop (Suc i) a) (drop (Suc i) b)"
    using common_bytes_drop [OF assms(1,2)] assms(5) by simp
  have d: "drop i a = drop i b \<longleftrightarrow> drop (Suc i) a = drop (Suc i) b"
    using assms(1,2,5) by (simp add: Cons_nth_drop_Suc [symmetric])
  show ?thesis
  proof (cases "Suc i < 2 ^ 31")
    case False
    then have "\<not> read_fails ok (Suc i) l m" for l m by (intro read_fails_none) simp
    then show ?thesis using False unfolding loop_spec_def Let_def k d read_fails_next [OF assms(3,4)] by simp
  qed (simp add: loop_spec_def Let_def k d read_fails_next [OF assms(3,4)])
qed

lemma compare_loop_spec:
  assumes "length a = length b"
  shows "i \<le> length a \<Longrightarrow> i < 2 ^ 31 \<Longrightarrow> compare_loop ok a b (length a) i (i, i) bytes = loop_spec ok a b i"
proof (induction "length a - i" arbitrary: i bytes)
  case 0
  then have i: "i = length a" by simp
  have "common_bytes (drop i a) (drop i b) = 0" using i by (simp add: common_bytes_def)
  moreover have "\<not> read_fails ok i i (length a)" using i by (intro read_fails_none) simp
  ultimately have "loop_spec ok a b i = Inr True"
    using 0(3) assms i by (simp add: loop_spec_def Let_def)
  then show ?case using i by (subst compare_loop.simps) simp
next
  case (Suc m)
  then have i: "i < length a" "i < length b" using assms by simp_all
  consider "\<not> fst ok i \<or> \<not> snd ok i" | "fst ok i" "snd ok i" "a ! i \<noteq> b ! i" | "fst ok i" "snd ok i" "a ! i = b ! i" by blast
  then show ?case
  proof cases
    case 1
    then have "read_fails ok i (i + n) (length a)" for n
      using i Suc.prems unfolding read_fails_def by (intro exI [of _ i]) simp
    then have "loop_spec ok a b i = Inl (Exits 1)" unfolding loop_spec_def Let_def by (simp only: if_True)
    then show ?thesis using 1 i by (subst compare_loop.simps) (auto simp: read_byte_def)
  next
    case 2
    have "drop i a \<noteq> drop i b" using 2(3) i by (metis Cons_nth_drop_Suc list.inject)
    moreover have "common_bytes (drop i a) (drop i b) = 0" using common_bytes_drop [OF assms i(1)] 2(3) by simp
    moreover have "\<not> read_fails ok i i (length a)"
      using read_fails_next [OF 2(1,2)] read_fails_none by simp
    ultimately have "loop_spec ok a b i = Inr False" using Suc.prems by (simp add: loop_spec_def)
    then show ?thesis using 2 i by (subst compare_loop.simps) (simp add: read_byte_def)
  next
    case 3
    note step = loop_spec_step [OF assms i(1) 3]
    show ?thesis
    proof (cases "Suc i < 2 ^ 31")
      case True
      have "compare_loop ok a b (length a) (Suc i) (Suc i, Suc i) bs = loop_spec ok a b (Suc i)" for bs
        by (rule Suc.hyps(1)) (use Suc.hyps(2) i True in simp_all)
      then show ?thesis using 3 i True step by (subst compare_loop.simps) (simp add: read_byte_def add_int_def)
    next
      case False
      then show ?thesis using 3 i step by (subst compare_loop.simps) (simp add: read_byte_def add_int_def)
    qed
  qed
qed

lemma compare_loop_bytes:
  assumes "length a = length b"
  shows "compare_loop (r1, r2) a b (length a) 0 (0, 0) bytes = compare_bytes r1 r2 a b"
proof -
  have "compare_loop (r1, r2) a b (length a) 0 (0, 0) bytes = loop_spec (r1, r2) a b 0"
    by (rule compare_loop_spec [OF assms]) simp_all
  then show ?thesis by (simp add: loop_spec_def compare_bytes_def Let_def)
qed

section \<open>The refinement\<close>

lemma closes_opened:
  assumes "lowest_free t = Some m" "lowest_free (put_fd m (Some f) t) = Some n"
  shows "snd (sys_close (int n) (snd (sys_close (int m) (put_fd n (Some g) (put_fd m (Some f) t))))) = t"
proof -
  have m: "slots t m = None" and n: "slots (put_fd m (Some f) t) n = None"
    using assms by (simp_all add: lowest_free_Some)
  from n have "n \<noteq> m" "slots t n = None" by (auto split: if_splits)
  note mn = m this
  show ?thesis by (rule fdtable_eqI) (use mn in \<open>auto simp: sys_close_def\<close>)
qed

text \<open>What a comparison leaves of the table: with equal files all of it, else it has at most grown.\<close>

definition keeps_table :: "fdtable \<Rightarrow> failure + bool \<times> fdtable \<Rightarrow> bool" where
  "keeps_table t r \<longleftrightarrow> (\<forall>same t'. r = Inr (same, t') \<longrightarrow>
     (same \<longrightarrow> t' = t) \<and> limit t' = limit t \<and> (\<forall>n. slots t n \<noteq> None \<longrightarrow> slots t' n = slots t n))"

lemma keeps_table_simps [simp]:
  "keeps_table t (Inl e)" "keeps_table t (Inr (same, t))"
  by (simp_all add: keeps_table_def)

lemma compareFiles_counted:
  "map_sum id (map_prod id used) (compareFiles env filePath1 filePath2 t) =
     compare_spec env (limit t) filePath1 filePath2 (used t) \<and> keeps_table t (compareFiles env filePath1 filePath2 t)"
proof -
  consider "filePath1 = None \<or> filePath2 = None"
    | p1 p2 where "filePath1 = Some p1" "filePath2 = Some p2" "on_disk env p1 = None \<or> on_disk env p2 = None"
    | p1 p2 a b where "filePath1 = Some p1" "filePath2 = Some p2" "on_disk env p1 = Some a" "on_disk env p2 = Some b"
    by fastforce
  then show ?thesis
  proof cases
    case 1
    then show ?thesis by (cases filePath1; cases filePath2) (simp_all add: compareFiles_def compare_spec_def)
  next
    case 2
    then show ?thesis by (cases "on_disk env p1") (simp_all add: compareFiles_def compare_spec_def)
  next
    case (3 p1 p2 a b)
    note defs = 3 compareFiles_def compare_spec_def open_rdonly_def new_fd_def
    show ?thesis
    proof (cases "length a = length b \<and> may_open env p1 \<and> may_open env p2")
      case False
      then show ?thesis by (auto simp: defs split: option.splits)
    next
      case True
      note loop = compare_loop_bytes [of a b "reads env p1" "reads env p2" "(None, None)"]
      show ?thesis
      proof (cases "lowest_free t")
        case None
        then show ?thesis using True used_full [of t] by (simp add: defs)
      next
        case (Some m)
        let ?t = "put_fd m (Some (Opened p1)) t"
        have m: "slots t m = None" "m < limit t" using Some by (simp_all add: lowest_free_Some)
        have u: "used ?t = Suc (used t)" using used_put [OF m(1,2)] .
        show ?thesis
        proof (cases "lowest_free ?t")
          case None
          then show ?thesis using True Some u used_full [of ?t] by (simp add: defs)
        next
          case (Some n)
          note free = \<open>lowest_free t = Some m\<close> Some
          have n: "slots ?t n = None" "n < limit t" using Some by (simp_all add: lowest_free_Some del: slots_put_fd)
          have l: "\<not> limit t < used t + 2" using Some used_full [of ?t] u by simp
          have u2: "used (put_fd n (Some (Opened p2)) ?t) = used t + 2" using used_put [of ?t n] n u by simp
          have kept: "keeps_table t (Inr (False, put_fd n (Some (Opened p2)) ?t))"
            using m(1) n(1) by (auto simp: keeps_table_def split: if_splits)
          show ?thesis
            using True free l u2 kept closes_opened [OF free, of "Opened p2"] loop
            by (cases "compare_bytes (reads env p1) (reads env p2) a b") (simp_all add: defs)
        qed
      qed
    qed
  qed
qed

text \<open>
  C36. \<open>compareFiles\<close>, call by call over a table of descriptors, whatever \<open>stat\<close>, \<open>open\<close> and \<open>read\<close>
  answer and however full the table is, answers what the bytes of the two files say: it exits when a
  file has no status, cannot be opened or finds no free descriptor, or when a read fails before the
  first difference; its index overflows when the files agree in 2^31 bytes; otherwise it tells whether
  they are equal. Files of different sizes are not opened; equal files leave the table as it was; for
  different files of one size two more descriptors stay open, and none is lost.
\<close>

theorem compareFiles_refines:
  "map_sum id (map_prod id used) (compareFiles env filePath1 filePath2 t) =
     compare_spec env (limit t) filePath1 filePath2 (used t) \<and>
   (\<forall>same t'. compareFiles env filePath1 filePath2 t = Inr (same, t') \<longrightarrow>
     (same \<longrightarrow> t' = t) \<and> limit t' = limit t \<and> (\<forall>n. slots t n \<noteq> None \<longrightarrow> slots t' n = slots t n))"
  using compareFiles_counted [of env filePath1 filePath2 t] by (simp add: keeps_table_def)

text \<open>Two files of two bytes, the second of which differs; the first cannot be read to its end.\<close>

definition sample_disk :: "string \<Rightarrow> string option" where
  "sample_disk = [''p'' \<mapsto> ''ab'', ''q'' \<mapsto> ''ac'']"

lemma common_bytes_sample: "common_bytes ''ab'' ''ac'' = 1"
  by (simp add: common_bytes_def)

theorem compareFiles_refines_witness:
  "(\<exists>t'. compareFiles \<lparr>on_disk = sample_disk, may_open = \<lambda>p. True, reads = \<lambda>p i. True\<rparr> (Some ''p'') (Some ''q'')
      \<lparr>slots = \<lambda>n. None, limit = 4\<rparr> = Inr (False, t') \<and> used t' = 2) \<and>
   compareFiles \<lparr>on_disk = sample_disk, may_open = \<lambda>p. True, reads = \<lambda>p i. i = 0\<rparr> (Some ''p'') (Some ''q'')
      \<lparr>slots = \<lambda>n. None, limit = 4\<rparr> = Inl (Exits 1)"
proof
  let ?t = "\<lparr>slots = \<lambda>n. None, limit = 4\<rparr> :: fdtable"
  let ?good = "\<lparr>on_disk = sample_disk, may_open = \<lambda>p. True, reads = \<lambda>p i. True\<rparr>"
  let ?bad = "\<lparr>on_disk = sample_disk, may_open = \<lambda>p. True, reads = \<lambda>p i. i = 0\<rparr>"
  have u: "used ?t = 0" by (simp add: used_def)
  have fails: "read_fails (\<lambda>i. i = 0, \<lambda>i. i = 0) 0 (Suc 0) (Suc (Suc 0))" unfolding read_fails_def by (intro exI [of _ 1]) simp
  have "map_sum id (map_prod id used) (compareFiles ?good (Some ''p'') (Some ''q'') ?t) = Inr (False, 2)"
    using compareFiles_refines [of ?good "Some ''p''" "Some ''q''" ?t] u
    by (simp add: compare_spec_def compare_bytes_def sample_disk_def common_bytes_sample read_fails_def)
  then show "\<exists>t'. compareFiles ?good (Some ''p'') (Some ''q'') ?t = Inr (False, t') \<and> used t' = 2"
    by (cases "compareFiles ?good (Some ''p'') (Some ''q'') ?t") auto
  have "map_sum id (map_prod id used) (compareFiles ?bad (Some ''p'') (Some ''q'') ?t) = Inl (Exits 1)"
    using compareFiles_refines [of ?bad "Some ''p''" "Some ''q''" ?t] u
    by (simp add: compare_spec_def compare_bytes_def sample_disk_def common_bytes_sample fails)
  then show "compareFiles ?bad (Some ''p'') (Some ''q'') ?t = Inl (Exits 1)"
    by (cases "compareFiles ?bad (Some ''p'') (Some ''q'') ?t") auto
qed

text \<open>The comparison of two files that can be read, with descriptors for both or without.\<close>

definition readable :: "files_env \<Rightarrow> string \<times> string \<Rightarrow> bool" where
  "readable env f \<longleftrightarrow> on_disk env (fst f) = Some (snd f) \<and> may_open env (fst f) \<and> length (snd f) < 2 ^ 31 \<and>
     (\<forall>i < length (snd f). reads env (fst f) i)"

definition contents_ok :: "files_env \<Rightarrow> (string \<times> string) list \<Rightarrow> bool" where
  "contents_ok env files \<longleftrightarrow> (\<forall>f \<in> set files. readable env f)"

text \<open>The comparisons that keep two descriptors: of different files of one size.\<close>

definition clashes :: "string \<Rightarrow> (string \<times> string) list \<Rightarrow> nat" where
  "clashes a files = length (filter (\<lambda>(p, bytes). length bytes = length a \<and> bytes \<noteq> a) files)"

lemma clashes_Cons: "clashes a (f # fs) = clashes a [f] + clashes a fs"
  by (simp add: clashes_def)

lemma compare_bytes_readable:
  assumes "readable env f" "readable env g" "length (snd f) = length (snd g)"
  shows "compare_bytes (reads env (fst f)) (reads env (fst g)) (snd f) (snd g) = Inr (snd f = snd g)"
proof -
  have "\<not> 2 ^ 31 \<le> common_bytes (snd f) (snd g)" using common_bytes_le [of "snd f" "snd g"] assms(1) by (simp add: readable_def)
  moreover have "\<not> read_fails (reads env (fst f), reads env (fst g)) 0 (common_bytes (snd f) (snd g)) (length (snd f))"
    using assms unfolding read_fails_def readable_def by auto
  ultimately show ?thesis by (simp add: compare_bytes_def)
qed

lemma compareFiles_ok:
  assumes "readable env f" "readable env g" "used t + 2 \<le> limit t \<or> length (snd f) \<noteq> length (snd g)"
  shows "\<exists>t'. compareFiles env (Some (fst f)) (Some (fst g)) t = Inr (snd f = snd g, t') \<and>
    used t' = used t + 2 * clashes (snd f) [g] \<and> limit t' = limit t"
proof -
  have "compare_spec env (limit t) (Some (fst f)) (Some (fst g)) (used t) =
      Inr (snd f = snd g, used t + 2 * clashes (snd f) [g])"
    using assms compare_bytes_readable [OF assms(1,2)]
    by (auto simp: compare_spec_def readable_def clashes_def split_beta)
  then have c: "map_sum id (map_prod id used) (compareFiles env (Some (fst f)) (Some (fst g)) t) =
      Inr (snd f = snd g, used t + 2 * clashes (snd f) [g])" "keeps_table t (compareFiles env (Some (fst f)) (Some (fst g)) t)"
    using compareFiles_counted [of env "Some (fst f)" "Some (fst g)" t] by simp_all
  then obtain t' where "compareFiles env (Some (fst f)) (Some (fst g)) t = Inr (snd f = snd g, t')"
    "used t' = used t + 2 * clashes (snd f) [g]"
    by (cases "compareFiles env (Some (fst f)) (Some (fst g)) t") auto
  then show ?thesis using c(2) by (simp add: keeps_table_def)
qed

lemma compareFiles_full:
  assumes "readable env f" "readable env g" "length (snd f) = length (snd g)" "limit t < used t + 2"
  shows "compareFiles env (Some (fst f)) (Some (fst g)) t = Inl (Exits 1)"
proof -
  have "map_sum id (map_prod id used) (compareFiles env (Some (fst f)) (Some (fst g)) t) = Inl (Exits 1)"
    using compareFiles_counted [of env "Some (fst f)" "Some (fst g)" t] assms
    by (simp add: compare_spec_def readable_def)
  then show ?thesis by (cases "compareFiles env (Some (fst f)) (Some (fst g)) t") auto
qed

text \<open>Files all of which can be read.\<close>

definition all_readable :: "(string \<Rightarrow> string option) \<Rightarrow> files_env" where
  "all_readable content = \<lparr>on_disk = content, may_open = \<lambda>p. True, reads = \<lambda>p off. True\<rparr>"

lemma readable_all [simp]:
  "readable (all_readable content) f \<longleftrightarrow> content (fst f) = Some (snd f) \<and> length (snd f) < 2 ^ 31"
  by (simp add: readable_def all_readable_def)

end
