(* ===== verification/Duplicates.thy ===== *)
theory Duplicates
  imports CompareFiles
begin

text \<open>
  The finder of duplicate files (Lab1/duplicates_backup.c). A directory is the stream of entries
  \<open>readdir\<close> yields; an entry is a name and what \<open>stat\<close> says of it. Paths live in buffers of 256
  characters; a longer one is written past the end of its buffer. Files are compared by
  \<open>compareFiles\<close> of theory CompareFiles, over the table of descriptors of the process: what a
  comparison leaves open stays there.
\<close>

section \<open>The tree of files\<close>

datatype node = Reg string | Dir entries | Other | Broken
  and entries = End | Entry string node entries

definition DUP_MAXDIRBUFFERSIZE :: nat where
  "DUP_MAXDIRBUFFERSIZE = 256"

text \<open>\<open>strcpy(buffer, a); strcat(buffer, b)\<close> into a buffer for a path.\<close>

definition path_in_buffer :: "string \<Rightarrow> string \<Rightarrow> failure + string" where
  "path_in_buffer a b =
     (if length (a @ b) < DUP_MAXDIRBUFFERSIZE then Inr (a @ b) else Inl (Undefined Out_Of_Bounds))"

text \<open>The start of both traversals: \<open>opendir\<close>, and the path of the directory with its slash.\<close>

definition open_directory :: "(string \<Rightarrow> bool) \<Rightarrow> string \<Rightarrow> failure + string" where
  "open_directory opens dirPath =
     (if \<not> opens dirPath then Inl (Exits 1) else path_in_buffer dirPath ''/'')"

definition is_dots :: "string \<Rightarrow> bool" where
  "is_dots name \<longleftrightarrow> name = ''.'' \<or> name = ''..''"

fun count_entries :: "(string \<Rightarrow> bool) \<Rightarrow> string \<Rightarrow> entries \<Rightarrow> nat \<Rightarrow> failure + nat" where
  "count_entries opens dirPathTotal End fileCnt = Inr fileCnt"
| "count_entries opens dirPathTotal (Entry name f es) fileCnt =
     dbind (path_in_buffer dirPathTotal name) (\<lambda>fileName.
       case f of
         Broken \<Rightarrow> Inl (Exits 1)
       | Reg bytes \<Rightarrow> dbind (add_int fileCnt 1) (\<lambda>c. count_entries opens dirPathTotal es c)
       | Dir ds \<Rightarrow>
           if \<not> is_dots name
           then dbind (open_directory opens fileName) (\<lambda>dirPathTotal1.
                dbind (count_entries opens dirPathTotal1 ds 0) (\<lambda>n.
                dbind (add_int fileCnt n) (\<lambda>c. count_entries opens dirPathTotal es c)))
           else count_entries opens dirPathTotal es fileCnt
       | Other \<Rightarrow> count_entries opens dirPathTotal es fileCnt)"

definition countNrOfFilesInDir :: "(string \<Rightarrow> bool) \<Rightarrow> string \<Rightarrow> entries \<Rightarrow> failure + nat" where
  "countNrOfFilesInDir opens dirPath es = dbind (open_directory opens dirPath) (\<lambda>dirPathTotal. count_entries opens dirPathTotal es 0)"

text \<open>
  The array of names: \<open>fileCount\<close> slots of 256 characters and a NULL. Copying a name to the slot
  of the NULL dereferences it.
\<close>

definition put_name :: "string option list \<Rightarrow> nat \<Rightarrow> string \<Rightarrow> failure + string option list" where
  "put_name fileNames k s =
     (if k < length fileNames then Inr (fileNames[k := Some s])
      else Inl (Undefined (if k = length fileNames then Null_Deref else Out_Of_Bounds)))"

fun collect_entries :: "(string \<Rightarrow> bool) \<Rightarrow> string \<Rightarrow> entries \<Rightarrow> string option list \<Rightarrow> nat
    \<Rightarrow> failure + string option list \<times> nat" where
  "collect_entries opens dirPathTotal End fileNames indexOffset = Inr (fileNames, indexOffset)"
| "collect_entries opens dirPathTotal (Entry name f es) fileNames indexOffset =
     dbind (path_in_buffer dirPathTotal name) (\<lambda>fileName.
       case f of
         Broken \<Rightarrow> Inl (Exits 1)
       | Reg bytes \<Rightarrow>
           dbind (put_name fileNames indexOffset fileName) (\<lambda>a. collect_entries opens dirPathTotal es a (Suc indexOffset))
       | Dir ds \<Rightarrow>
           if \<not> is_dots name
           then dbind (open_directory opens fileName) (\<lambda>dirPathTotal1.
                dbind (collect_entries opens dirPathTotal1 ds fileNames indexOffset) (\<lambda>(a, k).
                collect_entries opens dirPathTotal es a k))
           else collect_entries opens dirPathTotal es fileNames indexOffset
       | Other \<Rightarrow> collect_entries opens dirPathTotal es fileNames indexOffset)"

definition getFileNamesInDirRec :: "(string \<Rightarrow> bool) \<Rightarrow> string option list \<Rightarrow> string \<Rightarrow> entries \<Rightarrow> nat
    \<Rightarrow> failure + string option list \<times> nat" where
  "getFileNamesInDirRec opens fileNames dirPath es indexOffset =
     dbind (open_directory opens dirPath) (\<lambda>dirPathTotal. collect_entries opens dirPathTotal es fileNames indexOffset)"

definition getFileNamesInDir :: "(string \<Rightarrow> bool) \<Rightarrow> string option list \<Rightarrow> string \<Rightarrow> entries
    \<Rightarrow> failure + string option list" where
  "getFileNamesInDir opens fileNames dirName es =
     dbind (getFileNamesInDirRec opens fileNames dirName es 0) (\<lambda>(a, k). Inr a)"

text \<open>
  \<open>allocFileNames\<close> answers its two blocks and the array. The product \<open>fileCount * 256\<close> is one of
  ints.
\<close>

definition allocFileNames :: "nat \<Rightarrow> heap \<Rightarrow> failure + (nat \<times> nat) \<times> string option list \<times> heap" where
  "allocFileNames fileCount h =
     (case malloc ((fileCount + 1) * 8) h of
        (None, h1) \<Rightarrow> Inl (Exits 1)
      | (Some p, h1) \<Rightarrow>
          if 2 ^ 31 \<le> fileCount * DUP_MAXDIRBUFFERSIZE then Inl (Undefined Int_Overflow)
          else case malloc (fileCount * DUP_MAXDIRBUFFERSIZE) h1 of
            (None, h2) \<Rightarrow> dbind (defined (mfree (Some p) h2)) (\<lambda>h3. Inl (Exits 1))
          | (Some q, h2) \<Rightarrow> Inr ((p, q), replicate fileCount None, h2))"

definition freeFileNames :: "nat \<times> nat \<Rightarrow> heap \<Rightarrow> heap res" where
  "freeFileNames blocks h = bind_res (mfree (Some (snd blocks)) h) (mfree (Some (fst blocks)))"

section \<open>Comparing\<close>

text \<open>A slot of the array of names: its name, or the NULL after the last one.\<close>

definition name_at :: "string option list \<Rightarrow> nat \<Rightarrow> failure + string option" where
  "name_at fileNames i =
     (if i < length fileNames
      then (case fileNames ! i of None \<Rightarrow> Inl (Undefined Uninit_Read) | Some s \<Rightarrow> Inr (Some s))
      else if i = length fileNames then Inr None else Inl (Undefined Out_Of_Bounds))"

function print_inner :: "files_env \<Rightarrow> string option list \<Rightarrow> nat \<Rightarrow> nat
    \<Rightarrow> (string \<times> string) list \<Rightarrow> fdtable \<Rightarrow> failure + nat \<times> (string \<times> string) list \<times> fdtable" where
  "print_inner env fileNames i j out t =
     dbind (name_at fileNames j) (\<lambda>nj. case nj of
       None \<Rightarrow> Inr (j, out, t)
     | Some b \<Rightarrow>
         dbind (name_at fileNames i) (\<lambda>ni.
         dbind (compareFiles env ni nj t) (\<lambda>(same, t1).
         print_inner env fileNames i (Suc j)
           (if same then out @ [(case ni of None \<Rightarrow> [] | Some a \<Rightarrow> a, b)] else out) t1)))"
  by pat_completeness auto
termination
  by (relation "measure (\<lambda>(env, names, i, j, out, t). length names - j)")
    (auto simp: name_at_def split: if_splits option.splits)

function print_outer :: "files_env \<Rightarrow> string option list \<Rightarrow> nat \<Rightarrow> nat
    \<Rightarrow> (string \<times> string) list \<Rightarrow> fdtable \<Rightarrow> failure + (string \<times> string) list \<times> fdtable" where
  "print_outer env fileNames i j out t =
     dbind (name_at fileNames i) (\<lambda>ni. case ni of
       None \<Rightarrow> Inr (out, t)
     | Some a \<Rightarrow>
         dbind (print_inner env fileNames i j out t) (\<lambda>(j1, out1, t1).
         print_outer env fileNames (Suc i) j1 out1 t1))"
  by pat_completeness auto
termination
  by (relation "measure (\<lambda>(env, names, i, j, out, t). length names - i)")
    (auto simp: name_at_def split: if_splits option.splits)

declare print_inner.simps [simp del] print_outer.simps [simp del]

definition printDuplicateFilePairs :: "files_env \<Rightarrow> string option list \<Rightarrow> fdtable
    \<Rightarrow> failure + (string \<times> string) list \<times> fdtable" where
  "printDuplicateFilePairs env fileNames t = print_outer env fileNames 0 1 [] t"

text \<open>
  \<open>main\<close>: the working directory (NULL when \<open>getcwd\<close> fails, which is not looked at), its entries,
  and what is printed, with the exit status and the heap.
\<close>

definition dup_main :: "(string \<Rightarrow> bool) \<Rightarrow> files_env \<Rightarrow> fdtable \<Rightarrow> string option \<Rightarrow> entries \<Rightarrow> heap
    \<Rightarrow> failure + (string \<times> string) list \<times> int \<times> heap" where
  "dup_main opens env t cwd es h =
     (case cwd of None \<Rightarrow> Inl (Undefined Uninit_Read) | Some dirName \<Rightarrow>
      dbind (countNrOfFilesInDir opens dirName es) (\<lambda>fileCount.
        if fileCount < 2 then Inr ([], 0, h)
        else dbind (allocFileNames fileCount h) (\<lambda>(blocks, fileNames, h1).
             dbind (getFileNamesInDir opens fileNames dirName es) (\<lambda>fileNames1.
             dbind (printDuplicateFilePairs env fileNames1 t) (\<lambda>(out, t1).
             dbind (defined (freeFileNames blocks h1)) (\<lambda>h2. Inr (out, 0, h2)))))))"

section \<open>What the traversals find\<close>

text \<open>The regular files below a directory, with their bytes, in the order they are met.\<close>

fun regular_files :: "string \<Rightarrow> entries \<Rightarrow> (string \<times> string) list" where
  "regular_files dirPathTotal End = []"
| "regular_files dirPathTotal (Entry name f es) =
     (case f of
        Reg bytes \<Rightarrow> [(dirPathTotal @ name, bytes)]
      | Dir ds \<Rightarrow> if is_dots name then [] else regular_files ((dirPathTotal @ name) @ ''/'') ds
      | _ \<Rightarrow> [])
     @ regular_files dirPathTotal es"

text \<open>Every path fits its buffer, every directory can be opened, every entry has a status.\<close>

definition directory_ok :: "(string \<Rightarrow> bool) \<Rightarrow> string \<Rightarrow> bool" where
  "directory_ok opens dirPath \<longleftrightarrow> opens dirPath \<and> length dirPath + 1 < DUP_MAXDIRBUFFERSIZE"

fun tree_ok :: "(string \<Rightarrow> bool) \<Rightarrow> string \<Rightarrow> entries \<Rightarrow> bool" where
  "tree_ok opens dirPathTotal End = True"
| "tree_ok opens dirPathTotal (Entry name f es) =
     (length (dirPathTotal @ name) < DUP_MAXDIRBUFFERSIZE \<and>
      (case f of
         Broken \<Rightarrow> False
       | Dir ds \<Rightarrow> is_dots name \<or>
           directory_ok opens (dirPathTotal @ name) \<and> tree_ok opens ((dirPathTotal @ name) @ ''/'') ds
       | _ \<Rightarrow> True) \<and>
      tree_ok opens dirPathTotal es)"

lemma path_fits [simp]:
  "length (a @ b) < DUP_MAXDIRBUFFERSIZE \<Longrightarrow> path_in_buffer a b = Inr (a @ b)"
  by (simp add: path_in_buffer_def)

lemma open_directory_ok [simp]: "directory_ok opens d \<Longrightarrow> open_directory opens d = Inr (d @ ''/'')"
  by (simp add: directory_ok_def open_directory_def)

lemma count_entries_files:
  "tree_ok opens d es \<Longrightarrow> c + length (regular_files d es) < 2 ^ 31 \<Longrightarrow>
    count_entries opens d es c = Inr (c + length (regular_files d es))"
proof (induction d es arbitrary: c rule: regular_files.induct)
  case (2 d name f es)
  then show ?case by (cases f) (auto simp: add_int_def)
qed simp

lemma collect_entries_files:
  "tree_ok opens d es \<Longrightarrow> length (regular_files d es) \<le> length rest \<Longrightarrow>
    collect_entries opens d es (map Some pre @ rest) (length pre) =
      Inr (map Some (pre @ map fst (regular_files d es)) @ drop (length (regular_files d es)) rest,
           length pre + length (regular_files d es))"
proof (induction d es arbitrary: pre rest rule: regular_files.induct)
  case (2 d name f es)
  show ?case
  proof (cases f)
    case (Reg bytes)
    then obtain r rs where r: "rest = r # rs" using 2(4) by (cases rest) auto
    have "put_name (map Some pre @ rest) (length pre) (d @ name) = Inr (map Some (pre @ [d @ name]) @ rs)"
      by (simp add: put_name_def r list_update_append)
    moreover have "collect_entries opens d es (map Some (pre @ [d @ name]) @ rs) (length (pre @ [d @ name])) =
        Inr (map Some ((pre @ [d @ name]) @ map fst (regular_files d es)) @ drop (length (regular_files d es)) rs,
             length (pre @ [d @ name]) + length (regular_files d es))"
      using 2(2) [of rs "pre @ [d @ name]"] 2(3,4) Reg r by simp
    ultimately show ?thesis using 2(3) Reg r by simp
  next
    case (Dir ds)
    show ?thesis
    proof (cases "is_dots name")
      case True
      then show ?thesis using 2 Dir by simp
    next
      case False
      let ?fs = "regular_files ((d @ name) @ ''/'') ds"
      have "collect_entries opens ((d @ name) @ ''/'') ds (map Some pre @ rest) (length pre) =
          Inr (map Some (pre @ map fst ?fs) @ drop (length ?fs) rest, length pre + length ?fs)"
        using 2(1) [OF Dir False, of rest pre] 2(3,4) Dir False by simp
      moreover have "collect_entries opens d es (map Some (pre @ map fst ?fs) @ drop (length ?fs) rest)
            (length (pre @ map fst ?fs)) =
          Inr (map Some ((pre @ map fst ?fs) @ map fst (regular_files d es)) @
               drop (length (regular_files d es)) (drop (length ?fs) rest),
               length (pre @ map fst ?fs) + length (regular_files d es))"
        using 2(2) [of "drop (length ?fs) rest" "pre @ map fst ?fs"] 2(3,4) Dir False by simp
      ultimately show ?thesis using 2(3) Dir False by (simp add: add.commute)
    qed
  next
    case Other
    then show ?thesis using 2 by simp
  next
    case Broken
    then show ?thesis using 2 by simp
  qed
qed simp

section \<open>What is printed\<close>

text \<open>
  The comparison of the first file with the others, while there are descriptors for it: \<open>print_inner\<close>
  prints the pairs and keeps two descriptors for each clash.
\<close>

lemma inner_names:
  assumes "files = pre @ f # fs"
  shows "name_at (map (Some \<circ> fst) files) (length pre) = Inr (Some (fst f))"
    "name_at (map (Some \<circ> fst) files) 0 = Inr (Some (fst (hd files)))"
  using assms by (auto simp: name_at_def hd_conv_nth nth_append)

lemma inner_readable:
  "contents_ok env files \<Longrightarrow> files = pre @ f # fs \<Longrightarrow> readable env (hd files) \<and> readable env f"
  by (cases pre) (auto simp: contents_ok_def)

lemma print_inner_files:
  assumes "contents_ok env files" "files = pre @ fs" "files \<noteq> []"
    and "used t + 2 * clashes (snd (hd files)) fs + 2 \<le> limit t"
  shows "\<exists>t'. print_inner env (map (Some \<circ> fst) files) 0 (length pre) out t =
    Inr (length files, out @ map (\<lambda>f. (fst (hd files), fst f)) (filter (\<lambda>f. snd f = snd (hd files)) fs), t') \<and>
    used t' = used t + 2 * clashes (snd (hd files)) fs \<and> limit t' = limit t"
  using assms(2,4)
proof (induction fs arbitrary: pre out t)
  case Nil
  then show ?case by (subst print_inner.simps) (simp add: name_at_def clashes_def)
next
  case (Cons f fs)
  let ?a = "snd (hd files)"
  note n = inner_names [OF Cons.prems(1)]
  note r = inner_readable [OF assms(1) Cons.prems(1)]
  obtain t1 where cmp: "compareFiles env (Some (fst (hd files))) (Some (fst f)) t = Inr (?a = snd f, t1)"
    "used t1 = used t + 2 * clashes ?a [f]" "limit t1 = limit t"
    using compareFiles_ok [OF conjunct1 [OF r] conjunct2 [OF r], of t] Cons.prems(2) by auto
  have "used t1 + 2 * clashes ?a fs + 2 \<le> limit t1"
    using Cons.prems(2) clashes_Cons [of ?a f fs] cmp(2,3) by simp
  then have "\<exists>t'. print_inner env (map (Some \<circ> fst) files) 0 (Suc (length pre)) out1 t1 =
      Inr (length files, out1 @ map (\<lambda>f. (fst (hd files), fst f)) (filter (\<lambda>f. snd f = ?a) fs), t') \<and>
      used t' = used t1 + 2 * clashes ?a fs \<and> limit t' = limit t1" for out1
    using Cons.IH [of "pre @ [f]" t1] Cons.prems(1) by (simp add: comp_def)
  from this [of "if ?a = snd f then out @ [(fst (hd files), fst f)] else out"] show ?case
    using cmp(2,3) by (subst print_inner.simps) (auto simp: n cmp(1) clashes_Cons [of ?a f fs])
qed

lemma print_inner_runs_out:
  assumes "contents_ok env files" "files = pre @ fs" "files \<noteq> []"
    and "limit t < used t + 2 * clashes (snd (hd files)) fs" "used t \<le> limit t"
  shows "print_inner env (map (Some \<circ> fst) files) 0 (length pre) out t = Inl (Exits 1)"
  using assms(2,4,5)
proof (induction fs arbitrary: pre out t)
  case Nil
  then show ?case by (simp add: clashes_def)
next
  case (Cons f fs)
  let ?a = "snd (hd files)"
  note n = inner_names [OF Cons.prems(1)]
  note r = inner_readable [OF assms(1) Cons.prems(1)]
  show ?case
  proof (cases "length ?a = length (snd f) \<and> limit t < used t + 2")
    case True
    then have "compareFiles env (Some (fst (hd files))) (Some (fst f)) t = Inl (Exits 1)"
      using compareFiles_full r by simp
    then show ?thesis by (subst print_inner.simps) (simp add: n)
  next
    case False
    then obtain t1 where cmp: "compareFiles env (Some (fst (hd files))) (Some (fst f)) t = Inr (?a = snd f, t1)"
      "used t1 = used t + 2 * clashes ?a [f]" "limit t1 = limit t"
      using compareFiles_ok [OF conjunct1 [OF r] conjunct2 [OF r], of t] by (auto simp: not_less)
    have "used t1 \<le> limit t1" using False Cons.prems(3) cmp(2,3) by (auto simp: clashes_def split: if_splits)
    moreover have "limit t1 < used t1 + 2 * clashes ?a fs"
      using Cons.prems(2) clashes_Cons [of ?a f fs] cmp(2,3) by simp
    ultimately have "print_inner env (map (Some \<circ> fst) files) 0 (Suc (length pre)) out1 t1 = Inl (Exits 1)" for out1
      using Cons.IH [of "pre @ [f]" t1] Cons.prems(1) by (simp add: comp_def)
    then show ?thesis by (subst print_inner.simps) (simp add: n cmp(1))
  qed
qed

text \<open>Once the inner loop has come to the end, the outer one only counts on.\<close>

lemma print_outer_rest:
  "i \<le> length ns \<Longrightarrow> print_outer env (map Some ns) i (length ns) out t = Inr (out, t)"
proof (induction "length ns - i" arbitrary: i)
  case 0
  then show ?case by (subst print_outer.simps) (simp add: name_at_def)
next
  case (Suc m)
  have "print_inner env (map Some ns) i (length ns) out t = Inr (length ns, out, t)"
    by (subst print_inner.simps) (simp add: name_at_def)
  moreover have "i < length ns" using Suc(2) by simp
  ultimately show ?case using Suc(1) [of "Suc i"] Suc(2) by (subst print_outer.simps) (simp add: name_at_def)
qed

lemma two_files: "2 \<le> length fs \<Longrightarrow> \<exists>f g rest. fs = f # g # rest"
  by (cases fs; cases "tl fs") auto

lemma printDuplicateFilePairs_files:
  assumes "contents_ok env files" "2 \<le> length files"
    and "used t + 2 * clashes (snd (hd files)) (tl files) + 2 \<le> limit t"
  shows "\<exists>t'. printDuplicateFilePairs env (map (Some \<circ> fst) files) t =
    Inr (map (\<lambda>f. (fst (hd files), fst f)) (filter (\<lambda>f. snd f = snd (hd files)) (tl files)), t')"
proof -
  have f: "files = [hd files] @ tl files" "files \<noteq> []" using two_files [OF assms(2)] by auto
  have n: "name_at (map (Some \<circ> fst) files) 0 = Inr (Some (fst (hd files)))"
    using f(2) by (simp add: name_at_def hd_conv_nth)
  then have n': "name_at (map (\<lambda>x. Some (fst x)) files) 0 = Inr (Some (fst (hd files)))" by (simp add: comp_def)
  obtain t' where "print_inner env (map (Some \<circ> fst) files) 0 (length [hd files]) [] t =
      Inr (length files, [] @ map (\<lambda>f. (fst (hd files), fst f)) (filter (\<lambda>f. snd f = snd (hd files)) (tl files)), t')"
    using print_inner_files [OF assms(1) f assms(3)] by blast
  then show ?thesis
    using print_outer_rest [of "Suc 0" "map fst files" env] assms(2)
    unfolding printDuplicateFilePairs_def by (subst print_outer.simps) (simp add: n' comp_def)
qed

lemma dup_main_files:
  assumes "directory_ok opens d" "tree_ok opens (d @ ''/'') es" "files = regular_files (d @ ''/'') es"
    and "2 \<le> length files" "length files < 2 ^ 23" "generous h" "heap_ok h"
  shows "\<exists>h1. dup_main opens env t (Some d) es h =
      dbind (printDuplicateFilePairs env (map (Some \<circ> fst) files) t) (\<lambda>(out, t1).
        Inr (out, 0, h1)) \<and> live h1 = live h"
proof -
  have c: "countNrOfFilesInDir opens d es = Inr (length files)"
    using count_entries_files [OF assms(2), of 0] assms(1,3,5) by (simp add: countNrOfFilesInDir_def)
  let ?g = "h\<lparr>live := insert (fresh h) (live h), fresh := Suc (fresh h)\<rparr>"
  let ?g2 = "?g\<lparr>live := insert (fresh ?g) (live ?g), fresh := Suc (fresh ?g)\<rparr>"
  have s: "(length files + 1) * 8 < 2 ^ 63" "length files * DUP_MAXDIRBUFFERSIZE < 2 ^ 31"
    "length files * DUP_MAXDIRBUFFERSIZE < 2 ^ 63"
    using assms(5) by (auto simp: DUP_MAXDIRBUFFERSIZE_def)
  have "generous ?g" using assms(6) by (simp add: generous_def)
  then have a: "allocFileNames (length files) h = Inr ((fresh h, Suc (fresh h)), replicate (length files) None, ?g2)"
    using malloc_generous [OF assms(6) s(1)] malloc_generous [of ?g, OF _ s(3)] s(2) by (simp add: allocFileNames_def)
  have f: "\<exists>h1. defined (freeFileNames (fresh h, Suc (fresh h)) ?g2) = Inr h1 \<and> live h1 = live h"
    using assms(7) by (auto simp: freeFileNames_def mfree_def heap_ok_def)
  have n: "getFileNamesInDir opens (replicate (length files) None) d es = Inr (map (Some \<circ> fst) files)"
    using collect_entries_files [OF assms(2), of "replicate (length files) None" "[]"] assms(1,3)
    by (simp add: getFileNamesInDir_def getFileNamesInDirRec_def)
  from f obtain h1 where h1: "defined (freeFileNames (fresh h, Suc (fresh h)) ?g2) = Inr h1" "live h1 = live h"
    by blast
  have "\<not> length files < 2" using assms(4) by simp
  then show ?thesis using h1 by (auto simp: dup_main_def c a n)
qed

text \<open>
  C21. On a tree all of whose paths fit their buffers, when every file can be opened and read and has
  fewer than 2^31 bytes, with descriptors to spare, the program is defined, prints exactly the pairs of
  the first file with each later one of the same bytes, answers 0 and frees what it allocated. Equal
  files neither of which is the first are not found: the inner index is not set back.
\<close>

theorem duplicates_of_first:
  assumes "directory_ok opens d" "tree_ok opens (d @ ''/'') es" "files = regular_files (d @ ''/'') es"
    and "2 \<le> length files" "length files < 2 ^ 23" "generous h" "heap_ok h" "contents_ok env files"
    and "used t + 2 * clashes (snd (hd files)) (tl files) + 2 \<le> limit t"
  shows "\<exists>h1. dup_main opens env t (Some d) es h =
      Inr (map (\<lambda>f. (fst (hd files), fst f)) (filter (\<lambda>f. snd f = snd (hd files)) (tl files)), 0, h1) \<and>
    live h1 = live h"
  using dup_main_files [OF assms(1-7), of env t] printDuplicateFilePairs_files [OF assms(8,4,9)]
  by auto

text \<open>
  Every comparison with a file of the same size and different bytes keeps two descriptors; when
  these would be more than the limit, the program exits with a failure in the middle.
\<close>

theorem duplicates_runs_out:
  assumes "directory_ok opens d" "tree_ok opens (d @ ''/'') es" "files = regular_files (d @ ''/'') es"
    and "2 \<le> length files" "length files < 2 ^ 23" "generous h" "heap_ok h" "contents_ok env files"
    and "limit t < used t + 2 * clashes (snd (hd files)) (tl files)" "used t \<le> limit t"
  shows "dup_main opens env t (Some d) es h = Inl (Exits 1)"
proof -
  have f: "files = [hd files] @ tl files" "files \<noteq> []" using two_files [OF assms(4)] by auto
  have "print_inner env (map (Some \<circ> fst) files) 0 1 [] t = Inl (Exits 1)"
    using print_inner_runs_out [OF assms(8) f(1,2) assms(9,10), of "[]"] by simp
  moreover have "name_at (map (Some \<circ> fst) files) 0 = Inr (Some (fst (hd files)))"
    using f(2) by (simp add: name_at_def hd_conv_nth)
  ultimately have "printDuplicateFilePairs env (map (Some \<circ> fst) files) t = Inl (Exits 1)"
    unfolding printDuplicateFilePairs_def by (subst print_outer.simps) simp
  then show ?thesis using dup_main_files [OF assms(1-7), of env t] by auto
qed

text \<open>
  The two traversals agree: on such a tree the first counts the regular files and the second
  fills exactly the slots that number asks for, with their paths in the same order.
\<close>

theorem traversals_agree:
  assumes "directory_ok opens d" "tree_ok opens (d @ ''/'') es" "length (regular_files (d @ ''/'') es) < 2 ^ 31"
  shows "\<exists>n. countNrOfFilesInDir opens d es = Inr n \<and>
    getFileNamesInDir opens (replicate n None) d es = Inr (map (Some \<circ> fst) (regular_files (d @ ''/'') es))"
  using count_entries_files [OF assms(2), of 0] assms(1,3)
    collect_entries_files [OF assms(2), of "replicate (length (regular_files (d @ ''/'') es)) None" "[]"]
  by (simp add: countNrOfFilesInDir_def getFileNamesInDir_def getFileNamesInDirRec_def)

section \<open>Witnesses\<close>

text \<open>A directory with a subdirectory; two of its files are the same, and the first is another.\<close>

definition sample_tree :: entries where
  "sample_tree = Entry ''.'' (Dir End) (Entry ''a'' (Reg ''x'') (Entry ''s'' (Dir (Entry ''b'' (Reg ''y'') End))
     (Entry ''c'' (Reg ''y'') (Entry ''d'' (Reg ''x'') End))))"

definition sample_files :: "(string \<times> string) list" where
  "sample_files = [(''/a'', ''x''), (''/s/b'', ''y''), (''/c'', ''y''), (''/d'', ''x'')]"

text \<open>Three descriptors in use.\<close>

definition three_used :: "nat \<Rightarrow> fdtable" where
  "three_used l = \<lparr>slots = \<lambda>n. if n < 3 then Some (Inherited n) else None, limit = l\<rparr>"

lemma used_three [simp]: "3 \<le> l \<Longrightarrow> used (three_used l) = 3" "limit (three_used l) = l"
proof -
  assume "3 \<le> l"
  then have "{m. m < limit (three_used l) \<and> slots (three_used l) m \<noteq> None} = {..<3}"
    by (auto simp: three_used_def split: if_splits)
  then show "used (three_used l) = 3" by (simp add: used_card)
qed (simp add: three_used_def)

lemma sample: "regular_files ([] @ ''/'') sample_tree = sample_files" "directory_ok (\<lambda>s. True) []"
  "tree_ok (\<lambda>s. True) ([] @ ''/'') sample_tree" "contents_ok (all_readable (map_of sample_files)) sample_files"
  "clashes (snd (hd sample_files)) (tl sample_files) = 2" "length sample_files = 4"
  by (simp_all add: sample_tree_def sample_files_def directory_ok_def DUP_MAXDIRBUFFERSIZE_def is_dots_def
    contents_ok_def clashes_def)

theorem duplicates_of_first_witness:
  "\<exists>h1. dup_main (\<lambda>s. True) (all_readable (map_of sample_files)) (three_used 9) (Some []) sample_tree (new_heap (\<lambda>k n. True)) =
    Inr ([(''/a'', ''/d'')], 0, h1) \<and> live h1 = {}"
proof -
  have "\<exists>h1. dup_main (\<lambda>s. True) (all_readable (map_of sample_files)) (three_used 9) (Some []) sample_tree (new_heap (\<lambda>k n. True)) =
      Inr (map (\<lambda>f. (fst (hd sample_files), fst f))
        (filter (\<lambda>f. snd f = snd (hd sample_files)) (tl sample_files)), 0, h1) \<and>
    live h1 = live (new_heap (\<lambda>k n. True))"
    by (rule duplicates_of_first [OF sample(2,3) sample(1) [symmetric]]) (simp_all add: sample)
  then show ?thesis by (simp add: sample_files_def)
qed

theorem duplicates_runs_out_witness:
  "dup_main (\<lambda>s. True) (all_readable (map_of sample_files)) (three_used 6) (Some []) sample_tree (new_heap (\<lambda>k n. True)) = Inl (Exits 1)"
  by (rule duplicates_runs_out [OF sample(2,3) sample(1) [symmetric]]) (simp_all add: sample)

theorem traversals_agree_witness:
  "\<exists>n. countNrOfFilesInDir (\<lambda>s. True) [] sample_tree = Inr n \<and>
    getFileNamesInDir (\<lambda>s. True) (replicate n None) [] sample_tree = Inr (map (Some \<circ> fst) sample_files)"
  using traversals_agree [OF sample(2,3)] by (simp add: sample(1,6) del: append.simps)

end
