(* ===== verification/DuplicatesRewrite.thy ===== *)
theory DuplicatesRewrite
  imports Duplicates PointerArray
begin

text \<open>
  The rewrite of the finder of duplicate files (Lab1/duplicates.c) over the dynamic array of Lab1.
  As committed it does not compile: \<open>getFileNamesInDirRec\<close> uses an undeclared \<open>fileNameSpace\<close>. It
  is read as the variable \<open>allocedFileName\<close> declared for this, which nothing else uses; all other
  functions are as they are. Its \<open>compareFiles\<close> has the same text as the one of the first version, but
  for a comment, and is the function of theory CompareFiles; the descriptors a comparison leaves open
  stay in the table of the process. The definitions have the prefix \<open>RW\<close>.
\<close>

section \<open>Collecting the names\<close>

text \<open>A string of the array: its block with its characters.\<close>

type_synonym alloced_string = "nat \<times> string"

definition destroyString :: "alloced_string \<Rightarrow> heap \<Rightarrow> heap res" where
  "destroyString s h = mfree (Some (fst s)) h"

text \<open>The error handling of the traversal: destroy the array and exit.\<close>

definition give_up :: "alloced_string pointer_array \<Rightarrow> heap \<Rightarrow> failure + 'a" where
  "give_up arr h = dbind (defined (LAB1_destroyArray arr h)) (\<lambda>h1. Inl (Exits 1))"

definition RW_open_directory :: "(string \<Rightarrow> bool) \<Rightarrow> alloced_string pointer_array \<Rightarrow> string \<Rightarrow> heap
    \<Rightarrow> failure + string" where
  "RW_open_directory opens arr dirPath h =
     (if \<not> opens dirPath then give_up arr h else path_in_buffer dirPath ''/'')"

definition store_name :: "alloced_string pointer_array \<Rightarrow> string \<Rightarrow> heap
    \<Rightarrow> failure + alloced_string pointer_array \<times> heap" where
  "store_name arr fileName h =
     (case malloc DUP_MAXDIRBUFFERSIZE h of
        (None, h1) \<Rightarrow> Inl (Undefined Null_Deref)
      | (Some b, h1) \<Rightarrow> defined (LAB1_addElem arr (b, fileName) h1))"

fun RW_entries :: "(string \<Rightarrow> bool) \<Rightarrow> string \<Rightarrow> entries \<Rightarrow> alloced_string pointer_array \<Rightarrow> heap
    \<Rightarrow> failure + alloced_string pointer_array \<times> heap" where
  "RW_entries opens fileNameBackup End arr h = Inr (arr, h)"
| "RW_entries opens fileNameBackup (Entry name f es) arr h =
     dbind (path_in_buffer fileNameBackup name) (\<lambda>fileName.
       case f of
         Broken \<Rightarrow> give_up arr h
       | Reg bytes \<Rightarrow>
           dbind (store_name arr fileName h) (\<lambda>(arr1, h1). RW_entries opens fileNameBackup es arr1 h1)
       | Dir ds \<Rightarrow>
           if \<not> is_dots name
           then dbind (RW_open_directory opens arr fileName h) (\<lambda>fileNameBackup1.
                dbind (RW_entries opens fileNameBackup1 ds arr h) (\<lambda>(arr1, h1).
                RW_entries opens fileNameBackup es arr1 h1))
           else RW_entries opens fileNameBackup es arr h
       | Other \<Rightarrow> RW_entries opens fileNameBackup es arr h)"

definition RW_getFileNamesInDirRec :: "(string \<Rightarrow> bool) \<Rightarrow> alloced_string pointer_array \<Rightarrow> string \<Rightarrow> entries
    \<Rightarrow> heap \<Rightarrow> failure + alloced_string pointer_array \<times> heap" where
  "RW_getFileNamesInDirRec opens arr dirPath es h =
     dbind (RW_open_directory opens arr dirPath h) (\<lambda>fileNameBackup. RW_entries opens fileNameBackup es arr h)"

definition RW_getFileNamesInDir :: "(string \<Rightarrow> bool) \<Rightarrow> string \<Rightarrow> entries \<Rightarrow> heap
    \<Rightarrow> failure + alloced_string pointer_array \<times> heap" where
  "RW_getFileNamesInDir opens dirName es h =
     dbind (defined (LAB1_makeNewArray 8 (Some destroyString) h)) (\<lambda>(arr, h1).
     RW_getFileNamesInDirRec opens arr dirName es h1)"

section \<open>Printing the pairs\<close>

definition RW_compareFiles :: "files_env \<Rightarrow> string option \<Rightarrow> string option \<Rightarrow> fdtable \<Rightarrow> failure + bool \<times> fdtable" where
  "RW_compareFiles env filePath1 filePath2 t = compareFiles env filePath1 filePath2 t"

text \<open>\<open>arr->elems[i]\<close>.\<close>

definition elem_at :: "'e pointer_array \<Rightarrow> nat \<Rightarrow> failure + 'e" where
  "elem_at arr i =
     (if elems_block arr = None then Inl (Undefined Null_Deref)
      else if length (elems arr) \<le> i then Inl (Undefined Out_Of_Bounds)
      else case elems arr ! i of None \<Rightarrow> Inl (Undefined Uninit_Read) | Some e \<Rightarrow> Inr e)"

function RW_print_inner :: "files_env \<Rightarrow> alloced_string pointer_array \<Rightarrow> nat \<Rightarrow> nat
    \<Rightarrow> (string \<times> string) list \<Rightarrow> fdtable \<Rightarrow> failure + (string \<times> string) list \<times> fdtable" where
  "RW_print_inner env arr i j out t =
     (if j < unat (arr_size arr)
      then dbind (elem_at arr i) (\<lambda>a. dbind (elem_at arr j) (\<lambda>b.
           dbind (RW_compareFiles env (Some (snd a)) (Some (snd b)) t) (\<lambda>(same, t1).
           dbind (add_int j 1) (\<lambda>j1.
           RW_print_inner env arr i j1 (if same then out @ [(snd a, snd b)] else out) t1))))
      else Inr (out, t))"
  by pat_completeness auto
termination
  by (relation "measure (\<lambda>(env, arr, i, j, out, t). unat (arr_size arr) - j)")
    (auto simp: add_int_def split: if_splits)

function RW_print_outer :: "files_env \<Rightarrow> alloced_string pointer_array \<Rightarrow> nat
    \<Rightarrow> (string \<times> string) list \<Rightarrow> fdtable \<Rightarrow> failure + (string \<times> string) list \<times> fdtable" where
  "RW_print_outer env arr i out t =
     (if i < unat (arr_size arr)
      then dbind (add_int i 1) (\<lambda>j.
           dbind (RW_print_inner env arr i j out t) (\<lambda>(out1, t1).
           dbind (add_int i 1) (\<lambda>i1. RW_print_outer env arr i1 out1 t1)))
      else Inr (out, t))"
  by pat_completeness auto
termination
  by (relation "measure (\<lambda>(env, arr, i, out, t). unat (arr_size arr) - i)")
    (auto simp: add_int_def split: if_splits)

declare RW_print_inner.simps [simp del] RW_print_outer.simps [simp del]

definition RW_printDuplicateFilePairs :: "files_env \<Rightarrow> alloced_string pointer_array \<Rightarrow> fdtable
    \<Rightarrow> failure + (string \<times> string) list \<times> fdtable" where
  "RW_printDuplicateFilePairs env arr t = RW_print_outer env arr 0 [] t"

definition RW_main :: "(string \<Rightarrow> bool) \<Rightarrow> files_env \<Rightarrow> fdtable \<Rightarrow> string option \<Rightarrow> entries \<Rightarrow> heap
    \<Rightarrow> failure + (string \<times> string) list \<times> int \<times> heap" where
  "RW_main opens env t cwd es h =
     (case cwd of None \<Rightarrow> Inl (Undefined Uninit_Read) | Some dirName \<Rightarrow>
      dbind (RW_getFileNamesInDir opens dirName es h) (\<lambda>(fileNames, h1).
      dbind (RW_printDuplicateFilePairs env fileNames t) (\<lambda>(out, t1).
      dbind (defined (LAB1_destroyArray fileNames h1)) (\<lambda>h2. Inr (out, 0, h2)))))"

section \<open>The array while it is filled\<close>

text \<open>
  The array \<open>arr\<close> holds the strings \<open>ns\<close>, and the heap has, beside the blocks of \<open>h0\<close>, exactly those
  of the array and of the strings.
\<close>

definition names_held :: "heap \<Rightarrow> alloced_string pointer_array \<Rightarrow> alloced_string list \<Rightarrow> heap \<Rightarrow> bool" where
  "names_held h0 arr ns h \<longleftrightarrow>
     lab1_young arr h \<and> array_contents arr = map Some ns \<and> elemDestructorFunc arr = Some destroyString \<and>
     (\<exists>b. elems_block arr = Some b \<and> live h = live h0 \<union> set (arr_block arr # b # map fst ns) \<and>
        distinct (arr_block arr # b # map fst ns) \<and> live h0 \<inter> set (arr_block arr # b # map fst ns) = {}) \<and>
     generous h \<and> heap_ok h"

lemma names_held_size: "names_held h0 arr ns h \<Longrightarrow> unat (arr_size arr) = length ns \<and> length ns \<le> 16"
proof -
  assume h: "names_held h0 arr ns h"
  then have s: "unat (arr_size arr) \<le> 16" using lab1_young_size by (auto simp: names_held_def)
  have "length (array_contents arr) = length ns" "length (elems arr) = 16"
    using h by (simp_all add: names_held_def lab1_young_def)
  then show ?thesis using s by (simp add: array_contents_def)
qed

lemma names_held_elem: "names_held h0 arr ns h \<Longrightarrow> i < length ns \<Longrightarrow> elem_at arr i = Inr (ns ! i)"
proof -
  assume h: "names_held h0 arr ns h" and i: "i < length ns"
  have "array_contents arr ! i = Some (ns ! i)" "elems_block arr \<noteq> None" "length (elems arr) = 16"
    using h i by (auto simp: names_held_def lab1_young_def)
  then show ?thesis using names_held_size [OF h] i by (auto simp: elem_at_def array_contents_def)
qed

lemma destroy_strings:
  "distinct (map fst ns) \<Longrightarrow> set (map fst ns) \<subseteq> live h \<Longrightarrow>
    destroy_elems destroyString (map Some ns) h = Inr (h\<lparr>live := live h - set (map fst ns)\<rparr>)"
proof (induction ns arbitrary: h)
  case (Cons s ns)
  let ?h = "h\<lparr>live := live h - {fst s}\<rparr>"
  have s: "fst s \<notin> set (map fst ns)" "distinct (map fst ns)" "fst s \<in> live h" "set (map fst ns) \<subseteq> live h"
    using Cons.prems by simp_all
  then have "destroy_elems destroyString (map Some ns) ?h = Inr (?h\<lparr>live := live ?h - set (map fst ns)\<rparr>)"
    by (intro Cons.IH) (simp_all add: subset_Diff_insert)
  moreover have "live h - {fst s} - set (map fst ns) = live h - set (map fst (s # ns))" by auto
  moreover have "destroyString s h = Inr ?h" using s(3) by (simp add: destroyString_def)
  ultimately show ?case by simp
qed simp

lemma names_held_destroy:
  assumes "names_held h0 arr ns h"
  shows "\<exists>h1. LAB1_destroyArray arr h = Inr h1 \<and> live h1 = live h0"
proof -
  obtain b where b: "elems_block arr = Some b" "live h = live h0 \<union> set (arr_block arr # b # map fst ns)"
    "distinct (arr_block arr # b # map fst ns)" "live h0 \<inter> set (arr_block arr # b # map fst ns) = {}"
    using assms by (auto simp: names_held_def)
  let ?h1 = "h\<lparr>live := live h - set (map fst ns)\<rparr>"
  have d: "destroy_elems destroyString (map Some ns) h = Inr ?h1" by (rule destroy_strings) (use b in auto)
  have c: "take (unat (arr_size arr)) (elems arr) = map Some ns" "elemDestructorFunc arr = Some destroyString"
    using assms by (auto simp: names_held_def array_contents_def)
  have f: "b \<in> live ?h1" "arr_block arr \<in> live (?h1\<lparr>live := live ?h1 - {b}\<rparr>)" using b by auto
  have l: "live h - set (map fst ns) - {b} - {arr_block arr} = live h0" using b by auto
  show ?thesis using d f l by (simp add: LAB1_destroyArray_def c b(1) mfree_def)
qed

lemma names_held_make:
  assumes "generous h" "heap_ok h"
  shows "\<exists>arr h1. LAB1_makeNewArray 8 (Some destroyString) h = Inr (arr, h1) \<and> names_held h arr [] h1"
proof -
  let ?g = "h\<lparr>live := insert (fresh h) (live h), fresh := Suc (fresh h)\<rparr>"
  have m: "malloc sizeof_DynamicArray h = (Some (fresh h), ?g)"
    using assms by (simp add: malloc_generous sizeof_DynamicArray_def)
  have "malloc 128 ?g = (Some (fresh ?g), ?g\<lparr>live := insert (fresh ?g) (live ?g), fresh := Suc (fresh ?g)\<rparr>)"
    by (rule malloc_generous) (use assms in \<open>simp_all add: generous_def\<close>)
  then show ?thesis
    using m assms
    by (auto simp: LAB1_makeNewArray_def DYNARR_INITSIZE_def names_held_def lab1_young_def array_contents_def
        generous_def heap_ok_def)
qed

lemma store_name_held:
  assumes "names_held h0 arr ns h" "length ns < 16"
  shows "\<exists>b arr' h'. store_name arr s h = Inr (arr', h') \<and> names_held h0 arr' (ns @ [(b, s)]) h'"
proof -
  let ?g = "h\<lparr>live := insert (fresh h) (live h), fresh := Suc (fresh h)\<rparr>"
  have h: "generous h" "heap_ok h" using assms(1) by (simp_all add: names_held_def)
  have m: "malloc DUP_MAXDIRBUFFERSIZE h = (Some (fresh h), ?g)"
    by (rule malloc_generous [OF h(1)]) (simp add: DUP_MAXDIRBUFFERSIZE_def)
  have y: "lab1_young arr ?g" using assms(1) by (auto simp: names_held_def lab1_young_def)
  have n: "arr_size arr \<noteq> 16" using names_held_size [OF assms(1)] assms(2) by auto
  obtain arr' where a: "LAB1_addElem arr (fresh h, s) ?g = Inr (arr', ?g)" "lab1_young arr' ?g"
    "array_contents arr' = array_contents arr @ [Some (fresh h, s)]" "arr_block arr' = arr_block arr"
    "elems_block arr' = elems_block arr" "elemDestructorFunc arr' = elemDestructorFunc arr"
    using lab1_add_young [OF y n, of "(fresh h, s)"] by blast
  have f: "fresh h \<notin> live h" using h(2) by simp
  have "names_held h0 arr' (ns @ [(fresh h, s)]) ?g"
    unfolding names_held_def
  proof (intro conjI)
    obtain b where b: "elems_block arr = Some b" "live h = live h0 \<union> set (arr_block arr # b # map fst ns)"
      "distinct (arr_block arr # b # map fst ns)" "live h0 \<inter> set (arr_block arr # b # map fst ns) = {}"
      using assms(1) unfolding names_held_def by blast
    show "\<exists>b. elems_block arr' = Some b \<and>
        live ?g = live h0 \<union> set (arr_block arr' # b # map fst (ns @ [(fresh h, s)])) \<and>
        distinct (arr_block arr' # b # map fst (ns @ [(fresh h, s)])) \<and>
        live h0 \<inter> set (arr_block arr' # b # map fst (ns @ [(fresh h, s)])) = {}"
      unfolding a(4,5) using b f by (intro exI [of _ b] conjI) (simp_all, blast)
    show "heap_ok ?g" using h(2) by (simp add: heap_ok_def less_SucI)
  qed (use assms(1) a in \<open>simp_all add: names_held_def generous_def\<close>)
  then show ?thesis using m a(1) by (auto simp: store_name_def)
qed

lemma store_name_full:
  assumes "names_held h0 arr ns h" "length ns = 16"
  shows "store_name arr s h = Inl (Undefined Out_Of_Bounds)"
proof -
  let ?g = "h\<lparr>live := insert (fresh h) (live h), fresh := Suc (fresh h)\<rparr>"
  have h: "generous h" using assms(1) by (simp add: names_held_def)
  have m: "malloc DUP_MAXDIRBUFFERSIZE h = (Some (fresh h), ?g)"
    by (rule malloc_generous [OF h]) (simp add: DUP_MAXDIRBUFFERSIZE_def)
  have "lab1_young arr ?g" using assms(1) by (auto simp: names_held_def lab1_young_def)
  moreover have "arr_size arr = 16" using names_held_size [OF assms(1)] assms(2) by (simp add: word_unat_eq_iff)
  ultimately show ?thesis using lab1_add_full [of arr ?g "(fresh h, s)"] m by (simp add: store_name_def)
qed

definition filled :: "heap \<Rightarrow> alloced_string list \<Rightarrow> string list
    \<Rightarrow> failure + alloced_string pointer_array \<times> heap \<Rightarrow> bool" where
  "filled h0 ns ss r \<longleftrightarrow>
     (if length ns + length ss \<le> 16
      then \<exists>arr ns1 h. r = Inr (arr, h) \<and> names_held h0 arr (ns @ ns1) h \<and> map snd ns1 = ss
      else r = Inl (Undefined Out_Of_Bounds))"

lemma filled_step:
  assumes "filled h0 ns ss r" "\<And>arr h ns1. names_held h0 arr (ns @ ns1) h \<Longrightarrow> map snd ns1 = ss \<Longrightarrow> filled h0 (ns @ ns1) ts (f arr h)"
  shows "filled h0 ns (ss @ ts) (dbind r (\<lambda>(arr, h). f arr h))"
proof (cases "length ns + length ss \<le> 16")
  case True
  then obtain arr ns1 h where a: "r = Inr (arr, h)" "names_held h0 arr (ns @ ns1) h" "map snd ns1 = ss"
    using assms(1) by (auto simp: filled_def)
  have "length ns1 = length ss" using arg_cong [OF a(3), of length] by simp
  then show ?thesis using assms(2) [OF a(2,3)] a
    by (auto simp: filled_def split: if_splits) (metis append_assoc map_append)
next
  case False
  then show ?thesis using assms(1) by (simp add: filled_def)
qed

lemma RW_entries_filled:
  "tree_ok opens d es \<Longrightarrow> names_held h0 arr ns h \<Longrightarrow>
    filled h0 ns (map fst (regular_files d es)) (RW_entries opens d es arr h)"
proof (induction d es arbitrary: arr ns h rule: regular_files.induct)
  case (1 d)
  then show ?case using names_held_size [OF 1(2)] by (auto simp: filled_def)
next
  case (2 d name f es)
  have rest: "filled h0 (ns @ ns1) (map fst (regular_files d es)) (RW_entries opens d es arr1 h1)"
    if "names_held h0 arr1 (ns @ ns1) h1" for arr1 ns1 h1
    using 2(2) [OF _ that] 2(3) by simp
  have same: "filled h0 ns (map fst (regular_files d es)) (RW_entries opens d es arr h)"
    using rest [of arr "[]" h] 2(4) by simp
  show ?case
  proof (cases f)
    case (Reg bytes)
    have "filled h0 ns [d @ name] (store_name arr (d @ name) h)"
      using store_name_held [OF 2(4), of "d @ name"] store_name_full [OF 2(4), of "d @ name"] names_held_size [OF 2(4)]
      by (cases "length ns = 16") (force simp: filled_def)+
    then have "filled h0 ns ([d @ name] @ map fst (regular_files d es))
        (dbind (store_name arr (d @ name) h) (\<lambda>(arr1, h1). RW_entries opens d es arr1 h1))"
      by (rule filled_step) (rule rest)
    then show ?thesis using 2(3) Reg by simp
  next
    case (Dir ds)
    show ?thesis
    proof (cases "is_dots name")
      case True
      then show ?thesis using same 2(3) Dir by simp
    next
      case False
      have ok: "directory_ok opens (d @ name)" "tree_ok opens ((d @ name) @ ''/'') ds" using 2(3) Dir False by auto
      have "RW_open_directory opens arr (d @ name) h = Inr ((d @ name) @ ''/'')"
        using ok(1) by (simp add: RW_open_directory_def directory_ok_def)
      moreover have "filled h0 ns (map fst (regular_files ((d @ name) @ ''/'') ds) @ map fst (regular_files d es))
          (dbind (RW_entries opens ((d @ name) @ ''/'') ds arr h) (\<lambda>(arr1, h1). RW_entries opens d es arr1 h1))"
        by (rule filled_step [OF 2(1) [OF Dir False ok(2) 2(4)]]) (rule rest)
      ultimately show ?thesis using 2(3) Dir False by simp
    qed
  qed (use same 2(3) in simp_all)
qed

section \<open>What is printed\<close>

text \<open>Each file with the later ones of the same bytes, and the comparisons that keep descriptors.\<close>

fun later_pairs :: "(string \<times> string) list \<Rightarrow> (string \<times> string) list" where
  "later_pairs [] = []"
| "later_pairs (f # fs) = map (\<lambda>g. (fst f, fst g)) (filter (\<lambda>g. snd g = snd f) fs) @ later_pairs fs"

fun all_clashes :: "(string \<times> string) list \<Rightarrow> nat" where
  "all_clashes [] = 0"
| "all_clashes (f # fs) = clashes (snd f) fs + all_clashes fs"

text \<open>What printing does: \<open>ps\<close> is printed, and \<open>n\<close> comparisons keep their descriptors.\<close>

definition prints :: "(string \<times> string) list \<Rightarrow> nat \<Rightarrow> (string \<times> string) list \<Rightarrow> fdtable
    \<Rightarrow> failure + (string \<times> string) list \<times> fdtable \<Rightarrow> bool" where
  "prints ps n out t r \<longleftrightarrow> (\<exists>t'. r = Inr (out @ ps, t') \<and> used t' = used t + 2 * n \<and> limit t' = limit t)"

lemma prints_nothing: "prints [] 0 out t (Inr (out, t))"
  by (simp add: prints_def)

lemma prints_then:
  assumes "prints ps m out t r"
    "\<And>t'. used t' = used t + 2 * m \<Longrightarrow> limit t' = limit t \<Longrightarrow> prints qs n (out @ ps) t' (f (out @ ps) t')"
  shows "prints (ps @ qs) (m + n) out t (dbind r (\<lambda>(out, t). f out t))"
  using assms unfolding prints_def by fastforce

lemma RW_print_inner_files:
  assumes h: "names_held h0 arr ns h" "map snd ns = map fst files" "contents_ok env files"
    and i: "i < length files"
  shows "j \<le> length files \<Longrightarrow> used t + 2 * clashes (snd (files ! i)) (drop j files) + 2 \<le> limit t \<Longrightarrow>
    prints (map (\<lambda>f. (fst (files ! i), fst f)) (filter (\<lambda>f. snd f = snd (files ! i)) (drop j files)))
      (clashes (snd (files ! i)) (drop j files)) out t (RW_print_inner env arr i j out t)"
proof (induction "length files - j" arbitrary: j out t)
  case 0
  then show ?case using names_held_size [OF h(1)] arg_cong [OF h(2), of length]
    by (subst RW_print_inner.simps) (simp add: clashes_def prints_def)
next
  case (Suc m)
  let ?a = "snd (files ! i)"
  have l: "length ns = length files" using arg_cong [OF h(2), of length] by simp
  have j: "j < length files" "j < 16" using Suc(2) names_held_size [OF h(1)] l by auto
  have n: "snd (ns ! k) = fst (files ! k)" if "k < length files" for k
    using that l h(2) by (metis nth_map)
  have c: "readable env (files ! k)" if "k < length files" for k
    using h(3) nth_mem [OF that] by (simp add: contents_ok_def)
  have d: "drop j files = files ! j # drop (Suc j) files" using j by (simp add: Cons_nth_drop_Suc)
  have cl: "clashes ?a (drop j files) = clashes ?a [files ! j] + clashes ?a (drop (Suc j) files)"
    unfolding d by (rule clashes_Cons)
  obtain t1 where cmp: "RW_compareFiles env (Some (fst (files ! i))) (Some (fst (files ! j))) t =
      Inr (?a = snd (files ! j), t1)" "used t1 = used t + 2 * clashes ?a [files ! j]" "limit t1 = limit t"
    using compareFiles_ok [OF c [OF i] c [OF j(1)], of t] Suc(4) by (auto simp: RW_compareFiles_def)
  have "prints (map (\<lambda>f. (fst (files ! i), fst f)) (filter (\<lambda>f. snd f = ?a) (drop (Suc j) files)))
      (clashes ?a (drop (Suc j) files)) out1 t1 (RW_print_inner env arr i (Suc j) out1 t1)" for out1
    by (rule Suc(1)) (use Suc(2,4) j cl cmp in simp_all)
  from this [of "if ?a = snd (files ! j) then out @ [(fst (files ! i), fst (files ! j))] else out"] show ?case
    using names_held_elem [OF h(1), of i] names_held_elem [OF h(1), of j] names_held_size [OF h(1)] i j l cmp(2,3) cl
    by (subst RW_print_inner.simps) (auto simp: n cmp(1) add_int_def d prints_def)
qed

lemma RW_print_outer_files:
  assumes h: "names_held h0 arr ns h" "map snd ns = map fst files" "contents_ok env files"
  shows "i \<le> length files \<Longrightarrow> used t + 2 * all_clashes (drop i files) + 2 \<le> limit t \<Longrightarrow>
    prints (later_pairs (drop i files)) (all_clashes (drop i files)) out t
      (RW_print_outer env arr i out t)"
proof (induction "length files - i" arbitrary: i out t)
  case 0
  then show ?case using names_held_size [OF h(1)] arg_cong [OF h(2), of length]
    by (subst RW_print_outer.simps) (simp add: prints_def)
next
  case (Suc m)
  have l: "length ns = length files" using arg_cong [OF h(2), of length] by simp
  have i: "i < length files" "i < 16" using Suc(2) names_held_size [OF h(1)] l by auto
  have d: "drop i files = files ! i # drop (Suc i) files" using i by (simp add: Cons_nth_drop_Suc)
  let ?c = "clashes (snd (files ! i)) (drop (Suc i) files)"
  have c: "all_clashes (drop i files) = ?c + all_clashes (drop (Suc i) files)" unfolding d by simp
  have "prints (map (\<lambda>f. (fst (files ! i), fst f)) (filter (\<lambda>f. snd f = snd (files ! i)) (drop (Suc i) files)) @
        later_pairs (drop (Suc i) files)) (?c + all_clashes (drop (Suc i) files)) out t
      (dbind (RW_print_inner env arr i (Suc i) out t)
        (\<lambda>(out1, t1). RW_print_outer env arr (Suc i) out1 t1))"
  proof (rule prints_then [OF RW_print_inner_files [OF h i(1)]])
    fix t1
    assume "used t1 = used t + 2 * ?c" "limit t1 = limit t"
    then show "prints (later_pairs (drop (Suc i) files)) (all_clashes (drop (Suc i) files)) (out @ ps) t1
        (RW_print_outer env arr (Suc i) (out @ ps) t1)" for ps
      by (intro Suc(1)) (use Suc(2,4) i c in simp_all)
  qed (use i Suc(4) c in simp_all)
  then show ?case
    using names_held_size [OF h(1)] i l by (subst RW_print_outer.simps) (simp add: add_int_def d)
qed

section \<open>The whole program\<close>

text \<open>
  C23. The rewrite of the duplicate finder, when memory is granted, every path fits its buffer, and
  every file can be opened and read and has fewer than 2^31 bytes. With at most sixteen regular
  files and descriptors to spare it prints exactly the pairs of files with the same bytes, each pair
  once and in order, answers 0 and frees everything, so it mends the flaw of the first version. With
  more than sixteen it writes out of bounds before it compares anything: the array of Lab1 cannot
  grow.
\<close>

theorem duplicates_rewrite:
  assumes "directory_ok opens d" "tree_ok opens (d @ ''/'') es" "files = regular_files (d @ ''/'') es"
    and "generous h" "heap_ok h" "contents_ok env files" "used t + 2 * all_clashes files + 2 \<le> limit t"
  shows "if length files \<le> 16
    then \<exists>h1. RW_main opens env t (Some d) es h = Inr (later_pairs files, 0, h1) \<and> live h1 = live h
    else RW_main opens env t (Some d) es h = Inl (Undefined Out_Of_Bounds)"
proof -
  obtain arr h1 where a: "LAB1_makeNewArray 8 (Some destroyString) h = Inr (arr, h1)" "names_held h arr [] h1"
    using names_held_make [OF assms(4,5)] by blast
  have "RW_open_directory opens arr d h1 = Inr (d @ ''/'')"
    using assms(1) by (simp add: RW_open_directory_def directory_ok_def)
  then have g: "RW_getFileNamesInDir opens d es h = RW_entries opens (d @ ''/'') es arr h1"
    using a(1) by (simp add: RW_getFileNamesInDir_def RW_getFileNamesInDirRec_def)
  note f = RW_entries_filled [OF assms(2) a(2), folded assms(3)]
  show ?thesis
  proof (cases "length files \<le> 16")
    case True
    then obtain arr1 ns h2 where e: "RW_entries opens (d @ ''/'') es arr h1 = Inr (arr1, h2)"
      "names_held h arr1 ns h2" "map snd ns = map fst files"
      using f by (auto simp: filled_def)
    obtain t1 where "RW_printDuplicateFilePairs env arr1 t = Inr (later_pairs files, t1)"
      using RW_print_outer_files [OF e(2,3) assms(6), of 0 t "[]"] assms(7)
      by (auto simp: RW_printDuplicateFilePairs_def prints_def)
    moreover obtain h3 where "LAB1_destroyArray arr1 h2 = Inr h3" "live h3 = live h"
      using names_held_destroy [OF e(2)] by blast
    ultimately show ?thesis using True g e(1) by (simp add: RW_main_def)
  next
    case False
    then show ?thesis using f g by (simp add: filled_def RW_main_def)
  qed
qed

theorem duplicates_rewrite_witness:
  "\<exists>h1. RW_main (\<lambda>s. True) (all_readable (map_of sample_files)) (three_used 20) (Some []) sample_tree (new_heap (\<lambda>k n. True)) =
    Inr ([(''/a'', ''/d''), (''/s/b'', ''/c'')], 0, h1) \<and> live h1 = {}"
proof -
  have c: "all_clashes sample_files = 4" "later_pairs sample_files = [(''/a'', ''/d''), (''/s/b'', ''/c'')]"
    by (simp_all add: sample_files_def clashes_def)
  have "if length sample_files \<le> 16
    then \<exists>h1. RW_main (\<lambda>s. True) (all_readable (map_of sample_files)) (three_used 20) (Some []) sample_tree (new_heap (\<lambda>k n. True)) =
        Inr (later_pairs sample_files, 0, h1) \<and> live h1 = live (new_heap (\<lambda>k n. True))
    else RW_main (\<lambda>s. True) (all_readable (map_of sample_files)) (three_used 20) (Some []) sample_tree (new_heap (\<lambda>k n. True)) =
        Inl (Undefined Out_Of_Bounds)"
    by (rule duplicates_rewrite [OF sample(2,3) sample(1) [symmetric]]) (simp_all add: sample c(1) used_three)
  then show ?thesis by (simp add: sample(6) c(2))
qed

end
