(* ===== verification/PingPong.thy ===== *)
theory PingPong
  imports Runs
begin

text \<open>
  The two processes that play ping-pong over two pipes (Lab2/pingpong.c), with the parent that
  forks and awaits them, as a step relation. Nobody closes an end of a pipe, so every process
  holds all of them: a write never meets a pipe without a reader, and a read of an empty pipe
  blocks, for the reader itself holds the other end.
\<close>

datatype shout = Ping | Pong

text \<open>
  Where the processes are. A child that has not been forked is \<open>Absent\<close>, one that has exited is
  \<open>Gone\<close> until the parent has awaited it.
\<close>

datatype ping_place = Ping_Absent | Ping_Head int | Ping_Write int | Ping_Read | Ping_Gone | Ping_Reaped
datatype pong_place = Pong_Absent | Pong_Read | Pong_Write int | Pong_Gone | Pong_Reaped
datatype parent_place = Fork_Ping | Fork_Pong | Wait_First | Wait_Second | Parent_Done

record pingpong =
  parent :: parent_place
  ping :: ping_place
  pong :: pong_place
  chanPing :: "int list"
  chanPong :: "int list"
  shown :: "shout list"

definition pp_init :: pingpong where
  "pp_init = \<lparr>parent = Fork_Ping, ping = Ping_Absent, pong = Pong_Absent, chanPing = [], chanPong = [], shown = []\<rparr>"

text \<open>The head of the loop of \<open>procPing\<close>, its write and its read.\<close>

definition procPing :: "pingpong \<Rightarrow> pingpong option" where
  "procPing s =
     (case ping s of
        Ping_Head msg \<Rightarrow>
          if msg < 5 then Some (s\<lparr>ping := Ping_Write msg, shown := shown s @ [Ping]\<rparr>)
          else Some (s\<lparr>ping := Ping_Gone\<rparr>)
      | Ping_Write msg \<Rightarrow> Some (s\<lparr>ping := Ping_Read, chanPing := chanPing s @ [msg]\<rparr>)
      | Ping_Read \<Rightarrow>
          (case chanPong s of [] \<Rightarrow> None | msg # rest \<Rightarrow> Some (s\<lparr>ping := Ping_Head msg, chanPong := rest\<rparr>))
      | _ \<Rightarrow> None)"

text \<open>The read of \<open>procPong\<close> with what it prints, and the write with the test of the loop.\<close>

definition procPong :: "pingpong \<Rightarrow> pingpong option" where
  "procPong s =
     (case pong s of
        Pong_Read \<Rightarrow>
          (case chanPing s of
             [] \<Rightarrow> None
           | msg # rest \<Rightarrow> Some (s\<lparr>pong := Pong_Write (msg + 1), chanPing := rest, shown := shown s @ [Pong]\<rparr>))
      | Pong_Write msg \<Rightarrow>
          Some (s\<lparr>pong := (if msg < 5 then Pong_Read else Pong_Gone), chanPong := chanPong s @ [msg]\<rparr>)
      | _ \<Rightarrow> None)"

text \<open>
  The parent: two forks, whose failure it does not notice, and two times \<open>waitpid\<close>, which takes
  any child that is gone, blocks while there are only running ones and returns when there is none.
\<close>

definition next_wait :: "parent_place \<Rightarrow> parent_place" where
  "next_wait p = (if p = Wait_First then Wait_Second else Parent_Done)"

definition waits :: "parent_place \<Rightarrow> bool" where
  "waits p \<longleftrightarrow> p = Wait_First \<or> p = Wait_Second"

definition pp_parent :: "bool \<Rightarrow> bool \<Rightarrow> pingpong \<Rightarrow> pingpong option" where
  "pp_parent fork1 fork2 s =
     (case parent s of
        Fork_Ping \<Rightarrow> Some (s\<lparr>parent := Fork_Pong, ping := (if fork1 then Ping_Head 0 else Ping_Absent)\<rparr>)
      | Fork_Pong \<Rightarrow> Some (s\<lparr>parent := Wait_First, pong := (if fork2 then Pong_Read else Pong_Absent)\<rparr>)
      | Parent_Done \<Rightarrow> None
      | _ \<Rightarrow>
          if (ping s = Ping_Absent \<or> ping s = Ping_Reaped) \<and> (pong s = Pong_Absent \<or> pong s = Pong_Reaped)
          then Some (s\<lparr>parent := next_wait (parent s)\<rparr>) else None)"

definition reap_ping :: "pingpong \<Rightarrow> pingpong option" where
  "reap_ping s = (if waits (parent s) \<and> ping s = Ping_Gone
     then Some (s\<lparr>parent := next_wait (parent s), ping := Ping_Reaped\<rparr>) else None)"

definition reap_pong :: "pingpong \<Rightarrow> pingpong option" where
  "reap_pong s = (if waits (parent s) \<and> pong s = Pong_Gone
     then Some (s\<lparr>parent := next_wait (parent s), pong := Pong_Reaped\<rparr>) else None)"

inductive pp_step :: "bool \<Rightarrow> bool \<Rightarrow> pingpong \<Rightarrow> pingpong \<Rightarrow> bool" for fork1 fork2 where
  step_parent: "pp_parent fork1 fork2 s = Some s' \<Longrightarrow> pp_step fork1 fork2 s s'"
| step_reap_ping: "reap_ping s = Some s' \<Longrightarrow> pp_step fork1 fork2 s s'"
| step_reap_pong: "reap_pong s = Some s' \<Longrightarrow> pp_step fork1 fork2 s s'"
| step_ping: "procPing s = Some s' \<Longrightarrow> pp_step fork1 fork2 s s'"
| step_pong: "procPong s = Some s' \<Longrightarrow> pp_step fork1 fork2 s s'"

section \<open>The invariant\<close>

text \<open>
  The turns of the game: Ping is at the head of its loop, about to write, the number is on its way
  to Pong, Pong is about to write, the number is on its way back; at last Ping is gone.
\<close>

datatype turn = Head nat | Serve nat | Over_Net nat | Return_Ball nat | Back nat | Finished

definition rounds :: "nat \<Rightarrow> shout list" where
  "rounds r = concat (replicate r [Ping, Pong])"

definition pong_idle :: "nat \<Rightarrow> pingpong \<Rightarrow> bool" where
  "pong_idle r s \<longleftrightarrow>
     (if r < 5 then pong s = Pong_Read \<or> r = 0 \<and> pong s = Pong_Absent else pong s = Pong_Gone \<or> pong s = Pong_Reaped)"

fun in_turn :: "turn \<Rightarrow> pingpong \<Rightarrow> bool" where
  "in_turn (Head r) s \<longleftrightarrow> r \<le> 5 \<and> (ping s = Ping_Head (int r) \<or> r = 0 \<and> ping s = Ping_Absent) \<and> pong_idle r s \<and>
     chanPing s = [] \<and> chanPong s = [] \<and> shown s = rounds r"
| "in_turn (Serve r) s \<longleftrightarrow> r < 5 \<and> ping s = Ping_Write (int r) \<and> pong_idle r s \<and>
     chanPing s = [] \<and> chanPong s = [] \<and> shown s = rounds r @ [Ping]"
| "in_turn (Over_Net r) s \<longleftrightarrow> r < 5 \<and> ping s = Ping_Read \<and> pong_idle r s \<and>
     chanPing s = [int r] \<and> chanPong s = [] \<and> shown s = rounds r @ [Ping]"
| "in_turn (Return_Ball r) s \<longleftrightarrow> r < 5 \<and> ping s = Ping_Read \<and> pong s = Pong_Write (int r + 1) \<and>
     chanPing s = [] \<and> chanPong s = [] \<and> shown s = rounds (Suc r)"
| "in_turn (Back r) s \<longleftrightarrow> r < 5 \<and> ping s = Ping_Read \<and> pong_idle (Suc r) s \<and>
     chanPing s = [] \<and> chanPong s = [int r + 1] \<and> shown s = rounds (Suc r)"
| "in_turn Finished s \<longleftrightarrow> (ping s = Ping_Gone \<or> ping s = Ping_Reaped) \<and> pong_idle 5 s \<and>
     chanPing s = [] \<and> chanPong s = [] \<and> shown s = rounds 5"

fun turn_num :: "turn \<Rightarrow> nat" where
  "turn_num (Head r) = 5 * r"
| "turn_num (Serve r) = 5 * r + 1"
| "turn_num (Over_Net r) = 5 * r + 2"
| "turn_num (Return_Ball r) = 5 * r + 3"
| "turn_num (Back r) = 5 * r + 4"
| "turn_num Finished = 26"

fun parent_rank :: "parent_place \<Rightarrow> nat" where
  "parent_rank Fork_Ping = 0"
| "parent_rank Fork_Pong = 1"
| "parent_rank Wait_First = 2"
| "parent_rank Wait_Second = 3"
| "parent_rank Parent_Done = 4"

text \<open>What the place of the parent says of its children.\<close>

definition parent_ok :: "pingpong \<Rightarrow> bool" where
  "parent_ok s \<longleftrightarrow>
     (ping s = Ping_Absent \<longleftrightarrow> parent s = Fork_Ping) \<and>
     (pong s = Pong_Absent \<longleftrightarrow> parent s = Fork_Ping \<or> parent s = Fork_Pong) \<and>
     (case parent s of
        Wait_Second \<Rightarrow> (ping s = Ping_Reaped) \<noteq> (pong s = Pong_Reaped)
      | Parent_Done \<Rightarrow> ping s = Ping_Reaped \<and> pong s = Pong_Reaped
      | _ \<Rightarrow> ping s \<noteq> Ping_Reaped \<and> pong s \<noteq> Pong_Reaped)"

definition pp_inv :: "nat \<Rightarrow> pingpong \<Rightarrow> bool" where
  "pp_inv k s \<longleftrightarrow> (\<exists>t. in_turn t s \<and> parent_ok s \<and> k = turn_num t + parent_rank (parent s))"

definition pp_final :: "pingpong \<Rightarrow> bool" where
  "pp_final s \<longleftrightarrow> parent s = Parent_Done"

lemma pp_invI: "in_turn t s \<Longrightarrow> parent_ok s \<Longrightarrow> k = turn_num t + parent_rank (parent s) \<Longrightarrow> pp_inv k s"
  by (auto simp: pp_inv_def)

lemma rounds_Suc: "rounds (Suc r) = rounds r @ [Ping, Pong]"
  by (induction r) (simp_all add: rounds_def)

lemma ping_step_inv:
  assumes "in_turn t s" "parent_ok s" "procPing s = Some s'"
  shows "\<exists>t'. in_turn t' s' \<and> parent_ok s' \<and> parent s' = parent s \<and> turn_num t' = Suc (turn_num t)"
proof -
  consider r where "t = Head r" "r < 5" | "t = Head 5" | r where "t = Serve r" | r where "t = Back r"
    | "ping s = Ping_Read" "chanPong s = []" | "t = Finished"
    using assms(1) by (cases t) (auto simp: le_less)
  then show ?thesis
  proof cases
    case 1
    then show ?thesis using assms
      by (intro exI [of _ "Serve r"]) (auto simp: procPing_def parent_ok_def pong_idle_def split: parent_place.splits)
  next
    case 2
    then show ?thesis using assms
      by (intro exI [of _ Finished]) (auto simp: procPing_def parent_ok_def pong_idle_def split: parent_place.splits)
  next
    case 3
    then show ?thesis using assms
      by (intro exI [of _ "Over_Net r"]) (auto simp: procPing_def parent_ok_def pong_idle_def split: parent_place.splits)
  next
    case 4
    then show ?thesis using assms
      by (intro exI [of _ "Head (Suc r)"])
        (auto simp: procPing_def parent_ok_def pong_idle_def add.commute split: parent_place.splits)
  next
    case 5
    then show ?thesis using assms(3) by (simp add: procPing_def)
  next
    case 6
    then show ?thesis using assms by (auto simp: procPing_def)
  qed
qed

lemma pong_step_inv:
  assumes "in_turn t s" "parent_ok s" "procPong s = Some s'"
  shows "\<exists>t'. in_turn t' s' \<and> parent_ok s' \<and> parent s' = parent s \<and> turn_num t' = Suc (turn_num t)"
proof -
  consider r where "t = Over_Net r" | r where "t = Return_Ball r"
    | "pong s = Pong_Read \<or> pong s = Pong_Absent \<or> pong s = Pong_Gone \<or> pong s = Pong_Reaped" "chanPing s = []"
    using assms(1) by (cases t) (auto simp: pong_idle_def split: if_splits)
  then show ?thesis
  proof cases
    case 1
    then show ?thesis using assms
      by (intro exI [of _ "Return_Ball r"])
        (auto simp: procPong_def parent_ok_def pong_idle_def rounds_Suc split: parent_place.splits)
  next
    case 2
    then show ?thesis using assms
      by (intro exI [of _ "Back r"])
        (auto simp: procPong_def parent_ok_def pong_idle_def split: parent_place.splits if_splits)
  next
    case 3
    then show ?thesis using assms(3) by (auto simp: procPong_def)
  qed
qed

lemma parent_step_inv:
  assumes "in_turn t s" "parent_ok s" "pp_parent True True s = Some s'"
  shows "in_turn t s' \<and> parent_ok s' \<and> parent_rank (parent s') = Suc (parent_rank (parent s))"
proof (cases "parent s")
  case Fork_Ping
  then have "t = Head 0" "ping s = Ping_Absent" "pong s = Pong_Absent"
    using assms(1,2) by (auto simp: parent_ok_def pong_idle_def split: if_splits elim: in_turn.elims)
  then show ?thesis using assms Fork_Ping by (auto simp: pp_parent_def parent_ok_def pong_idle_def)
next
  case Fork_Pong
  then have "pong s = Pong_Absent" using assms(2) by (simp add: parent_ok_def)
  then show ?thesis using assms Fork_Pong
    by (cases t) (auto simp: pp_parent_def parent_ok_def pong_idle_def split: if_splits)
qed (use assms in \<open>auto simp: pp_parent_def parent_ok_def\<close>)

lemma reap_ping_inv:
  assumes "in_turn t s" "parent_ok s" "reap_ping s = Some s'"
  shows "in_turn t s' \<and> parent_ok s' \<and> parent_rank (parent s') = Suc (parent_rank (parent s))"
proof -
  have "t = Finished" using assms by (cases t) (auto simp: reap_ping_def split: if_splits)
  then show ?thesis using assms
    by (auto simp: reap_ping_def waits_def next_wait_def parent_ok_def pong_idle_def split: if_splits)
qed

lemma reap_pong_inv:
  assumes "in_turn t s" "parent_ok s" "reap_pong s = Some s'"
  shows "in_turn t s' \<and> parent_ok s' \<and> parent_rank (parent s') = Suc (parent_rank (parent s))"
  using assms
  by (cases t)
    (auto simp: reap_pong_def waits_def next_wait_def parent_ok_def pong_idle_def split: if_splits)

lemma pp_step_inv:
  assumes "pp_inv k s" "pp_step True True s s'"
  shows "pp_inv (Suc k) s'"
proof -
  obtain t where t: "in_turn t s" "parent_ok s" "k = turn_num t + parent_rank (parent s)"
    using assms(1) by (auto simp: pp_inv_def)
  from assms(2) show ?thesis
  proof cases
    case step_parent
    then show ?thesis using parent_step_inv [OF t(1,2)] t(3) by (auto simp: pp_inv_def)
  next
    case step_reap_ping
    then show ?thesis using reap_ping_inv [OF t(1,2)] t(3) by (auto simp: pp_inv_def)
  next
    case step_reap_pong
    then show ?thesis using reap_pong_inv [OF t(1,2)] t(3) by (auto simp: pp_inv_def)
  next
    case step_ping
    then show ?thesis using ping_step_inv [OF t(1,2)] t(3) unfolding pp_inv_def by fastforce
  next
    case step_pong
    then show ?thesis using pong_step_inv [OF t(1,2)] t(3) unfolding pp_inv_def by fastforce
  qed
qed

lemma pp_goes_on:
  assumes "in_turn t s" "parent_ok s" "parent s \<noteq> Parent_Done"
  shows "\<exists>s'. pp_step True True s s'"
proof -
  consider "parent s = Fork_Ping \<or> parent s = Fork_Pong" | "waits (parent s)"
    using assms(3) by (cases "parent s") (auto simp: waits_def)
  then show ?thesis
  proof cases
    case 1
    then have "\<exists>s'. pp_parent True True s = Some s'" by (auto simp: pp_parent_def)
    then show ?thesis by (auto intro: step_parent)
  next
    case 2
    then have absent: "ping s \<noteq> Ping_Absent" "pong s \<noteq> Pong_Absent"
      using assms(2) by (auto simp: waits_def parent_ok_def)
    consider "procPing s \<noteq> None" | "procPong s \<noteq> None" | "t = Finished"
      using assms(1) absent by (cases t) (auto simp: procPing_def procPong_def pong_idle_def split: if_splits)
    then show ?thesis
    proof cases
      case 3
      then have "ping s = Ping_Gone \<or> pong s = Pong_Gone"
        using assms(1,2) 2 by (auto simp: waits_def parent_ok_def pong_idle_def)
      then have "reap_ping s \<noteq> None \<or> reap_pong s \<noteq> None" using 2 by (auto simp: reap_ping_def reap_pong_def)
      then show ?thesis by (auto intro: step_reap_ping step_reap_pong)
    qed (auto intro: step_ping step_pong)
  qed
qed

lemma turn_num_le: "in_turn t s \<Longrightarrow> turn_num t \<le> 26"
  by (cases t) auto

lemma parent_rank_le: "parent_rank p \<le> 4"
  by (cases p) auto

lemma done_finished:
  assumes "in_turn t s" "parent_ok s" "parent s = Parent_Done"
  shows "t = Finished"
  using assms by (cases t) (auto simp: parent_ok_def)

interpretation game: progressing "pp_step True True" pp_inv pp_final 30
proof (unfold_locales, goal_cases)
  case (1 k s s')
  then show ?case by (rule pp_step_inv)
next
  case (2 k s)
  then obtain t where "in_turn t s" "k = turn_num t + parent_rank (parent s)" by (auto simp: pp_inv_def)
  then show ?case using turn_num_le [of t s] parent_rank_le [of "parent s"] by simp
next
  case (3 k s)
  then show ?case using pp_goes_on by (auto simp: pp_inv_def pp_final_def)
next
  case (4 k s)
  then obtain t where t: "in_turn t s" "parent_ok s" "k = turn_num t + parent_rank (parent s)"
    by (auto simp: pp_inv_def)
  then have "t = Finished" using done_finished 4(2) by (simp add: pp_final_def)
  then show ?case using t(3) 4(2) by (simp add: pp_final_def)
qed

lemma pp_init_inv: "pp_inv 0 pp_init"
  by (rule pp_invI [of "Head 0"]) (auto simp: pp_init_def parent_ok_def pong_idle_def rounds_def)

text \<open>
  C26. When both forks succeed, every run of the game that can make no more steps, whatever order
  the three processes ran in, has made exactly 30 steps, has printed Ping and Pong in turn five
  times each, and the parent has awaited both children.
\<close>

theorem pingpong_alternates:
  assumes "run (pp_step True True) m pp_init s" "stuck (pp_step True True) s"
  shows "m = 30 \<and> shown s = rounds 5 \<and> parent s = Parent_Done \<and> ping s = Ping_Reaped \<and> pong s = Pong_Reaped"
proof -
  have "pp_inv m s" "pp_final s" "m = 30"
    using game.run_inv [OF assms(1) pp_init_inv] game.stuck_run [OF assms(1) pp_init_inv assms(2)] by simp_all
  moreover from this obtain t where "in_turn t s" "parent_ok s" "parent s = Parent_Done"
    by (auto simp: pp_inv_def pp_final_def)
  ultimately show ?thesis using done_finished [of t s] by (auto simp: parent_ok_def)
qed

theorem pingpong_alternates_witness:
  "\<exists>s. run (pp_step True True) 30 pp_init s \<and> shown s = [Ping, Pong, Ping, Pong, Ping, Pong, Ping, Pong, Ping, Pong]"
proof -
  obtain s where s: "run (pp_step True True) 30 pp_init s" "pp_final s"
    using game.run_completes [OF pp_init_inv] by auto
  have "stuck (pp_step True True) s"
    using game.final_stuck game.run_inv [OF s(1) pp_init_inv] s(2) by auto
  then show ?thesis using pingpong_alternates [OF s(1)] s(1)
    by (intro exI [of _ s]) (auto simp: rounds_def numeral_eq_Suc)
qed

text \<open>
  When the second fork fails, which the code does not look at, the program hangs: it gets to a
  state in which Ping waits for an answer, the parent waits for Ping, and no process can go on.
\<close>

theorem pingpong_hangs:
  "\<exists>m s. run (pp_step True False) m pp_init s \<and> stuck (pp_step True False) s \<and>
     parent s = Wait_First \<and> ping s = Ping_Read \<and> shown s = [Ping]"
proof -
  let ?s1 = "pp_init\<lparr>parent := Fork_Pong, ping := Ping_Head 0\<rparr>"
  let ?s2 = "?s1\<lparr>parent := Wait_First\<rparr>"
  let ?s3 = "?s2\<lparr>ping := Ping_Write 0, shown := [Ping]\<rparr>"
  let ?s4 = "?s3\<lparr>ping := Ping_Read, chanPing := [0]\<rparr>"
  have "pp_step True False pp_init ?s1" by (rule step_parent) (simp add: pp_parent_def pp_init_def)
  moreover have "pp_step True False ?s1 ?s2" by (rule step_parent) (simp add: pp_parent_def pp_init_def)
  moreover have "pp_step True False ?s2 ?s3" by (rule step_ping) (simp add: procPing_def pp_init_def)
  moreover have "pp_step True False ?s3 ?s4" by (rule step_ping) (simp add: procPing_def pp_init_def)
  ultimately have "run (pp_step True False) (Suc (Suc (Suc (Suc 0)))) pp_init ?s4"
    by (blast intro: run.intros)
  moreover have "stuck (pp_step True False) ?s4"
    by (auto simp: stuck_def pp_init_def pp_parent_def reap_ping_def reap_pong_def procPing_def procPong_def
      elim!: pp_step.cases)
  ultimately show ?thesis by (intro exI conjI) (auto simp: pp_init_def)
qed

end
