(* ===== verification/Execute.thy ===== *)
theory Execute
  imports Input
begin

text \<open>
  The program that runs the command in its argument (Lab1/execute.c): it counts the words of the
  command with \<open>strtok\<close>, goes over a fresh copy of it once more to copy each word to a block of its
  own, and calls \<open>execvp\<close>. \<open>strtok\<close> is the function of theory Input.
\<close>

text \<open>
  A cell of \<open>newargv\<close>: indeterminate, NULL, or a block with the string in it.
\<close>

type_synonym cells = "(nat \<times> string) option option list"

text \<open>How the program ends: \<open>execvp\<close> runs a program, or it returns with a status.\<close>

datatype execute_end = Executes "string list" | Terminates int heap

text \<open>The loop that counts.\<close>

function count_tokens :: "string \<Rightarrow> nat \<Rightarrow> nat \<Rightarrow> nat res" where
  "count_tokens buf p tokenamount =
     bind_res (strtok buf p) (\<lambda>(token, buf1, p1).
       case token of None \<Rightarrow> Inr tokenamount | Some b \<Rightarrow> count_tokens buf1 p1 (Suc tokenamount))"
  by pat_completeness auto
termination
  by (relation "measure (\<lambda>(buf, p, n). length buf - p)") (auto intro: strtok_measure)

text \<open>The loop that copies: \<open>newargv[i] = malloc(...); strcpy(newargv[i], token)\<close>.\<close>

function copy_tokens :: "string \<Rightarrow> nat \<Rightarrow> cells \<Rightarrow> nat \<Rightarrow> heap \<Rightarrow> (cells \<times> nat \<times> heap) res" where
  "copy_tokens buf p newargv i h =
     bind_res (strtok buf p) (\<lambda>(token, buf1, p1).
       case token of
         None \<Rightarrow> Inr (newargv, i, h)
       | Some b \<Rightarrow>
           (case malloc (length (string_at buf1 b) + 1) h of (a, h1) \<Rightarrow>
              if length newargv \<le> i then Inl Out_Of_Bounds
              else case a of
                None \<Rightarrow> Inl Null_Deref
              | Some x \<Rightarrow> copy_tokens buf1 p1 (newargv[i := Some (Some (x, string_at buf1 b))]) (Suc i) h1))"
  by pat_completeness auto
termination
  by (relation "measure (\<lambda>(buf, p, c, i, h). length buf - p)") (auto intro: strtok_measure)

declare count_tokens.simps [simp del] copy_tokens.simps [simp del]

text \<open>What \<open>execvp\<close> reads: the strings up to the NULL.\<close>

fun read_cells :: "cells \<Rightarrow> string list res" where
  "read_cells [] = Inl Out_Of_Bounds"
| "read_cells (None # cs) = Inl Uninit_Read"
| "read_cells (Some None # cs) = Inr []"
| "read_cells (Some (Some (x, s)) # cs) = bind_res (read_cells cs) (\<lambda>ss. Inr (s # ss))"

text \<open>The loop that frees the first \<open>tokenamount\<close> cells.\<close>

fun free_cells :: "nat \<Rightarrow> cells \<Rightarrow> heap \<Rightarrow> heap res" where
  "free_cells 0 cs h = Inr h"
| "free_cells (Suc n) [] h = Inl Out_Of_Bounds"
| "free_cells (Suc n) (None # cs) h = Inl Uninit_Read"
| "free_cells (Suc n) (Some c # cs) h = bind_res (mfree (map_option fst c) h) (free_cells n cs)"

text \<open>
  \<open>main\<close>. Both copies of the argument hold it with its NUL; the rest of the block, which is eight
  times as long, is never read. \<open>execvp\<close> of NULL crashes.
\<close>

definition execute_main :: "(string \<Rightarrow> bool) \<Rightarrow> string list \<Rightarrow> heap \<Rightarrow> execute_end res" where
  "execute_main exec_ok argv h =
     (if length argv \<noteq> 2 then Inr (Terminates 1 h)
      else case malloc ((length (argv ! 1) + 1) * 8) h of (command, h1) \<Rightarrow>
        (case command of None \<Rightarrow> Inl Null_Deref | Some c \<Rightarrow>
         bind_res (count_tokens (argv ! 1 @ [NUL]) 0 0) (\<lambda>tokenamount.
         case malloc ((tokenamount + 1) * 8) h1 of (p, h2) \<Rightarrow>
           (case p of None \<Rightarrow> Inl Null_Deref | Some d \<Rightarrow>
            bind_res (copy_tokens (argv ! 1 @ [NUL]) 0 (replicate (tokenamount + 1) None) 0 h2) (\<lambda>(cells, i, h3).
            if length cells \<le> i then Inl Out_Of_Bounds
            else let newargv = cells[i := Some None] in
              bind_res (read_cells newargv) (\<lambda>args.
              if args = [] then Inl Null_Deref
              else if exec_ok (hd args) then Inr (Executes args)
              else bind_res (free_cells tokenamount newargv h3) (\<lambda>h4.
                   bind_res (mfree (Some d) h4) (\<lambda>h5.
                   bind_res (mfree (Some c) h5) (\<lambda>h6. Inr (Terminates 0 h6))))))))))"

section \<open>The words of the command\<close>

text \<open>One call of \<open>strtok\<close>, as both loops see it.\<close>

lemma strtok_cases:
  assumes "drop p buf = s @ NUL # junk" "c_string s"
  obtains (none) q where "strtok buf p = Inr (None, buf, q)" "split_words s = []"
  | (token) b buf1 q s1 where "strtok buf p = Inr (Some b, buf1, q)" "drop q buf1 = s1 @ NUL # junk"
      "c_string s1" "length s1 < length s" "split_words s = string_at buf1 b # split_words s1"
      "length (string_at buf1 b) \<le> length s"
proof (cases s rule: words_cases)
  case spaces
  then show thesis using none strtok_none [OF assms(1)] by blast
next
  case (word sp w r s1)
  have w: "c_string w" "c_string s1"
    using assms(2) word(1,6) by (auto simp: c_string_def dest: list.set_sel(2) split: if_splits)
  have d: "drop p buf = sp @ w @ r @ NUL # junk" using assms(1) word(1) by simp
  from strtok_some [OF d word(2-4) w(1) word(5)] word(6) obtain buf1 q where
    t: "strtok buf p = Inr (Some (p + length sp), buf1, q)" "length buf1 = length buf"
      "drop q buf1 = s1 @ NUL # junk" "p + length sp + length w \<le> q" "buf1 ! (p + length sp + length w) = NUL"
      "\<forall>i < length buf. i \<noteq> p + length sp + length w \<longrightarrow> buf1 ! i = buf ! i" by blast
  have "string_at buf1 (p + length sp) = w"
    by (rule string_at_word [OF d w(1) t(2,4-6)]) simp_all
  then show thesis using token [OF t(1,3) w(2) word(8)] word(1,7) by simp
qed

lemma count_tokens_words:
  "drop p buf = s @ NUL # junk \<Longrightarrow> c_string s \<Longrightarrow> count_tokens buf p n = Inr (n + length (split_words s))"
proof (induction "length s" arbitrary: s p buf n rule: less_induct)
  case less
  show ?case
    using less.prems
  proof (cases rule: strtok_cases)
    case (none q)
    then show ?thesis by (subst count_tokens.simps) simp
  next
    case (token b buf1 q s1)
    then show ?thesis using less.hyps [OF token(4,2,3), of "Suc n"] by (subst count_tokens.simps) simp
  qed
qed

text \<open>Cells that hold strings, each in its own block.\<close>

definition block_cells :: "(nat \<times> string) list \<Rightarrow> cells" where
  "block_cells xs = map (\<lambda>x. Some (Some x)) xs"

lemma copy_tokens_words:
  assumes "drop p buf = s @ NUL # junk" "c_string s" "generous h" "heap_ok h" "length s < 2 ^ 60"
    and "length (split_words s) \<le> length rest"
  shows "\<exists>ys h'. copy_tokens buf p (block_cells xs @ rest) (length xs) h =
      Inr (block_cells (xs @ ys) @ drop (length ys) rest, length (xs @ ys), h') \<and>
    map snd ys = split_words s \<and> distinct (map fst ys) \<and> set (map fst ys) \<inter> live h = {} \<and>
    live h' = live h \<union> set (map fst ys) \<and> heap_ok h' \<and> generous h'"
  using assms
proof (induction "length s" arbitrary: s p buf xs rest h rule: less_induct)
  case less
  from less.prems(1,2) show ?case
  proof (cases rule: strtok_cases)
    case (none q)
    then show ?thesis using less.prems(3,4)
      by (intro exI [of _ "[]"] exI [of _ h]) (subst copy_tokens.simps, simp add: block_cells_def)
  next
    case (token b buf1 q s1)
    let ?w = "string_at buf1 b"
    let ?h = "h\<lparr>live := insert (fresh h) (live h), fresh := Suc (fresh h)\<rparr>"
    have m: "malloc (length ?w + 1) h = (Some (fresh h), ?h)"
      using malloc_generous [OF less.prems(3)] token(6) less.prems(5) by simp
    obtain r rs where r: "rest = r # rs" using less.prems(6) token(5) by (cases rest) auto
    have g: "generous ?h" "heap_ok ?h" using less.prems(3,4) by (auto simp: generous_def heap_ok_def)
    have sm: "length s1 < 2 ^ 60" "length (split_words s1) \<le> length rs"
      using less.prems(5,6) token(4,5) r by auto
    obtain ys h' where rec: "copy_tokens buf1 q (block_cells (xs @ [(fresh h, ?w)]) @ rs) (length (xs @ [(fresh h, ?w)])) ?h =
        Inr (block_cells ((xs @ [(fresh h, ?w)]) @ ys) @ drop (length ys) rs, length ((xs @ [(fresh h, ?w)]) @ ys), h')"
      "map snd ys = split_words s1" "distinct (map fst ys)" "set (map fst ys) \<inter> live ?h = {}"
      "live h' = live ?h \<union> set (map fst ys)" "heap_ok h'" "generous h'"
      using less.hyps [OF token(4,2,3) g sm] by blast
    have "(block_cells xs @ rest)[length xs := Some (Some (fresh h, ?w))] = block_cells (xs @ [(fresh h, ?w)]) @ rs"
      by (simp add: block_cells_def r list_update_append)
    then have "copy_tokens buf p (block_cells xs @ rest) (length xs) h =
        Inr (block_cells (xs @ (fresh h, ?w) # ys) @ drop (length ((fresh h, ?w) # ys)) rest,
             length (xs @ (fresh h, ?w) # ys), h')"
      using rec(1) m by (subst copy_tokens.simps) (simp add: token(1) r block_cells_def)
    moreover have "fresh h \<notin> live h" using less.prems(4) by simp
    ultimately show ?thesis using rec(2-7) token(5)
      by (intro exI [of _ "(fresh h, ?w) # ys"] exI [of _ h']) auto
  qed
qed

lemma read_block_cells: "read_cells (block_cells ys @ Some None # cs) = Inr (map snd ys)"
  by (induction ys) (auto simp: block_cells_def)

lemma free_block_cells:
  "distinct (map fst ys) \<Longrightarrow> set (map fst ys) \<subseteq> live h \<Longrightarrow>
    free_cells (length ys) (block_cells ys @ cs) h = Inr (h\<lparr>live := live h - set (map fst ys)\<rparr>)"
proof (induction ys arbitrary: h)
  case (Cons y ys)
  have "fst y \<notin> set (map fst ys)" using Cons.prems(1) by simp
  then have "set (map fst ys) \<subseteq> live (h\<lparr>live := live h - {fst y}\<rparr>)" using Cons.prems(2) by (simp add: subset_Diff_insert)
  moreover have "live h - {fst y} - set (map fst ys) = live h - insert (fst y) (set (map fst ys))" by auto
  ultimately show ?case using Cons.IH [of "h\<lparr>live := live h - {fst y}\<rparr>"] Cons.prems
    by (simp add: block_cells_def)
qed (simp add: block_cells_def)



end
