(* ===== verification/ParserTest.thy ===== *)
theory ParserTest
  imports Iwish CStrings
begin

text \<open>
  The test program of the parser (Lab2/depricated/parser_test.c): it reads one line, splits and
  parses it, prints the line, the verdict, the tokens and the syntax tree, runs a valid line, and
  frees everything. Its \<open>readInput\<close> and \<open>tokenise\<close> are, character by character, the ones of
  iwish.c (theory Input). What it prints is a string; \<open>%s\<close> of a NULL pointer is a dereference.
\<close>

section \<open>Printing the tree\<close>

definition printed_word :: "string option \<Rightarrow> string res" where
  "printed_word w = (case w of None \<Rightarrow> Inl Null_Deref | Some s \<Rightarrow> Inr (cstr s))"

definition printRedirection :: "(nat \<times> Redirection) option \<Rightarrow> string res" where
  "printRedirection redirection =
     (case redirection of
        None \<Rightarrow> Inr []
      | Some (a, r) \<Rightarrow>
          (case isInputRedirection r of
             None \<Rightarrow> Inl Uninit_Read
           | Some k \<Rightarrow> bind_res (printed_word (redirection_word r)) (\<lambda>w.
               Inr (''redirection: '' @ (if k \<noteq> 0 then ''<'' else ''>'') @ '' '' @ w @ '' ''))))"

definition printSimpleCommandElement :: "Simple_Command_Element \<Rightarrow> string res" where
  "printSimpleCommandElement element =
     (if isRedirection element = -1 then Inr []
      else if isRedirection element \<noteq> 0 then printRedirection (redirection_pointer element)
      else bind_res (printed_word (element_word element)) (\<lambda>w. Inr (''command element: '' @ w @ '' '')))"

fun printSimpleCommandElementList :: "Simple_Command_Element_List \<Rightarrow> string res" where
  "printSimpleCommandElementList [] = Inr []"
| "printSimpleCommandElementList ((a, e) # next) =
     bind_res (printSimpleCommandElement e) (\<lambda>o1.
     bind_res (printSimpleCommandElementList next) (\<lambda>o2. Inr (o1 @ o2)))"

definition printSimpleCommand :: "Simple_Command \<Rightarrow> string res" where
  "printSimpleCommand command = printSimpleCommandElementList (element_list command)"

fun printSimpleCommandList :: "Simple_Command_List \<Rightarrow> string res" where
  "printSimpleCommandList [] = Inr []"
| "printSimpleCommandList ((a, c) # next) =
     bind_res (printSimpleCommand c) (\<lambda>o1.
       if next \<noteq> [] then bind_res (printSimpleCommandList next) (\<lambda>o2. Inr (o1 @ ''pipeline: | '' @ o2))
       else Inr o1)"

definition printPipeline :: "Pipeline \<Rightarrow> string res" where
  "printPipeline p = printSimpleCommandList (simple_command_list p)"

definition printSimpleList :: "(nat \<times> Simple_List) option \<Rightarrow> string res" where
  "printSimpleList l =
     (case l of
        None \<Rightarrow> Inr []
      | Some (a, sl) \<Rightarrow> bind_res (printPipeline (pipeline sl)) (\<lambda>o1.
          Inr (o1 @ (if hasDaemonAmpersand sl \<noteq> 0 then ''&'' else []) @ [CHR 0x0A])))"

section \<open>The program\<close>

definition string_line :: "nat \<Rightarrow> string \<Rightarrow> string" where
  "string_line i s = ''strings['' @ decimal i @ ''] = '' @ cstr s @ [CHR 0x0A]"

text \<open>The loop over the tokens; its counter is an int.\<close>

fun print_strings :: "nat \<Rightarrow> string list \<Rightarrow> string res" where
  "print_strings i [] = Inr []"
| "print_strings i (s # ss) =
     (if 2 ^ 31 \<le> Suc i then Inl Int_Overflow
      else bind_res (print_strings (Suc i) ss) (\<lambda>o1. Inr (string_line i s @ o1)))"

definition verdict :: "bool \<Rightarrow> string" where
  "verdict ok = ''aforementioned input is valid: '' @ (if ok then ''true'' else ''false'') @ [CHR 0x0A]"

text \<open>The exit status, what is printed, the processes started, and the heap.\<close>

definition parser_test :: "env \<Rightarrow> string \<Rightarrow> fdtable \<Rightarrow> heap \<Rightarrow> (int \<times> string \<times> child list \<times> heap) res option" where
  "parser_test w stream t h =
     (case readInput stream h of
        None \<Rightarrow> None
      | Some r \<Rightarrow> Some (bind_res r (\<lambda>(inp, s1, h1).
          case inp of
            None \<Rightarrow> Inr (EXIT_FAILURE, [], [], h1)
          | Some (input, bytes) \<Rightarrow>
              bind_res (text_of (chars_of bytes)) (\<lambda>line.
              bind_res (tokenise (chars_of bytes) h1) (\<lambda>(toks, buf, h2).
                let o1 = ''input = '' @ line @ [CHR 0x0A] in
                case toks of
                  None \<Rightarrow> bind_res (mfree (Some input) h2) (\<lambda>h3. Inr (EXIT_FAILURE, o1, [], h3))
                | Some (strings, tbytes) \<Rightarrow>
                    bind_res (strings_of buf tbytes) (\<lambda>sentence.
                    case makeNewSimpleList h2 of (simple_list, h3) \<Rightarrow>
                    bind_res (parseInput sentence simple_list h3) (\<lambda>(parseInputExitcode, l, h4).
                    bind_res (print_strings 0 sentence) (\<lambda>o2.
                    bind_res (printSimpleList l) (\<lambda>o3.
                      let (exitStatus, t1, children) =
                            (if parseInputExitcode then interpretSimpleList w h4 l t else (0, t, []))
                      in bind_res (freeSimpleList l h4) (\<lambda>h5.
                         bind_res (mfree (Some input) h5) (\<lambda>h6.
                         bind_res (mfree (Some strings) h6) (\<lambda>h7.
                           Inr (exitStatus, o1 @ verdict parseInputExitcode @ o2 @ o3, children, h7)))))))))))))"

section \<open>What is printed of a tree\<close>

text \<open>How a pipeline is shown.\<close>

fun show_elem :: "Elem \<Rightarrow> string" where
  "show_elem (Word s) = ''command element: '' @ cstr s @ '' ''"
| "show_elem (Redirect_In s) = ''redirection: < '' @ cstr s @ '' ''"
| "show_elem (Redirect_Out s) = ''redirection: > '' @ cstr s @ '' ''"

fun show_pipeline :: "Command list \<Rightarrow> string" where
  "show_pipeline [] = []"
| "show_pipeline [c] = concat (map show_elem c)"
| "show_pipeline (c # cs) = concat (map show_elem c) @ ''pipeline: | '' @ show_pipeline cs"

definition show_list :: "Command list \<Rightarrow> bool \<Rightarrow> string" where
  "show_list cs background = show_pipeline cs @ (if background then ''&'' else []) @ [CHR 0x0A]"

text \<open>
  A tree can be printed when its elements are complete or marked as uninitialised. Every tree the
  parser leaves behind is, also when it rejects the sentence.
\<close>

definition printable :: "Simple_Command_Element \<Rightarrow> bool" where
  "printable e \<longleftrightarrow>
     isRedirection e = -1 \<and> redirection_pointer e = None \<or>
     isRedirection e = 0 \<and> element_word e \<noteq> None \<or>
     isRedirection e = 1 \<and> (case redirection_pointer e of None \<Rightarrow> True
       | Some (a, r) \<Rightarrow> isInputRedirection r \<noteq> None \<and> redirection_word r \<noteq> None)"

definition printable_command :: "Simple_Command_Element_List \<Rightarrow> bool" where
  "printable_command l \<longleftrightarrow> list_all (printable \<circ> snd) l"

definition printable_pipeline :: "Simple_Command_List \<Rightarrow> bool" where
  "printable_pipeline l \<longleftrightarrow> list_all (printable_command \<circ> element_list \<circ> snd) l"

lemma shown_element:
  "printable e \<Longrightarrow> \<exists>s. printSimpleCommandElement e = Inr s \<and> (\<forall>x. abs_elem e = Some x \<longrightarrow> s = show_elem x)"
  by (auto simp: printable_def printSimpleCommandElement_def printRedirection_def printed_word_def abs_elem_def
      abs_redirection_def split: option.splits)

lemma shown_command:
  "printable_command l \<Longrightarrow> \<exists>s. printSimpleCommandElementList l = Inr s \<and>
     (\<forall>c. abs_command l = Some c \<longrightarrow> s = concat (map show_elem c))"
proof (induction l rule: printSimpleCommandElementList.induct)
  case (2 a e l)
  then have p: "printable e" "printable_command l" by (simp_all add: printable_command_def)
  obtain s1 where s1: "printSimpleCommandElement e = Inr s1" "\<forall>x. abs_elem e = Some x \<longrightarrow> s1 = show_elem x"
    using shown_element [OF p(1)] by blast
  obtain s2 where "printSimpleCommandElementList l = Inr s2" "\<forall>c. abs_command l = Some c \<longrightarrow> s2 = concat (map show_elem c)"
    using 2(1) [OF s1(1)] p(2) by blast
  then show ?case using s1 by (auto split: option.splits)
qed simp

lemma shown_pipeline:
  "printable_pipeline l \<Longrightarrow> \<exists>s. printSimpleCommandList l = Inr s \<and> (\<forall>cs. abs_pipeline l = Some cs \<longrightarrow> s = show_pipeline cs)"
proof (induction l)
  case (Cons n l)
  obtain a c where n: "n = (a, c)" by fastforce
  have p: "printable_command (element_list c)" "printable_pipeline l"
    using Cons.prems n by (simp_all add: printable_pipeline_def)
  obtain s1 where s1: "printSimpleCommandElementList (element_list c) = Inr s1"
    "\<forall>x. abs_command (element_list c) = Some x \<longrightarrow> s1 = concat (map show_elem x)"
    using shown_command [OF p(1)] by blast
  obtain s2 where s2: "printSimpleCommandList l = Inr s2" "\<forall>cs. abs_pipeline l = Some cs \<longrightarrow> s2 = show_pipeline cs"
    using Cons.IH p(2) by blast
  have "l \<noteq> [] \<Longrightarrow> abs_pipeline l = Some cs \<Longrightarrow> \<exists>d ds. cs = d # ds" for cs
    by (cases l) (auto split: option.splits)
  then show ?case using s1 s2 n by (fastforce simp: printSimpleCommand_def split: option.splits)
qed simp

section \<open>The parser leaves trees that can be printed\<close>

lemma after_operator_complete:
  "bind_res (parseWord ts (Suc i)) (\<lambda>(ok, k).
      if \<not> ok then Inr (False, i, Some (a, r))
      else bind_res (sent_at ts (k - 1)) (\<lambda>w. Inr (True, k, Some (a, r\<lparr>redirection_word := w\<rparr>)))) = Inr (True, j, r') \<Longrightarrow>
    r' = Some (a, r\<lparr>redirection_word := Some (ts ! Suc i)\<rparr>)"
  by (auto simp: bind_res_eq_Inr sent_at_def dest!: parseWord_progress split: if_splits)

lemma parseRedirection_complete:
  assumes run: "parseRedirection ts i r = Inr (True, j, r')"
  shows "\<exists>a r2. r' = Some (a, r2) \<and> isInputRedirection r2 \<noteq> None \<and> redirection_word r2 \<noteq> None"
proof -
  obtain t where t: "sent_at ts i = Inr t"
    using run by (cases "sent_at ts i") (simp_all add: parseRedirection_def)
  obtain s where s: "t = Some s" using run t by (cases t) (simp_all add: parseRedirection_def)
  obtain a r0 where r: "r = Some (a, r0)"
    using run t s by (cases r) (auto simp: parseRedirection_def split: if_splits)
  consider "strcmp_eq s ''<''" | "strcmp_eq s ''>''" "\<not> strcmp_eq s ''<''"
    using run t s r by (auto simp: parseRedirection_def split: if_splits)
  then show ?thesis
    by cases (use run t s r in \<open>auto simp: parseRedirection_def Let_def dest!: after_operator_complete\<close>)
qed

lemma element_printable:
  "parseSimpleCommandElement ts i e h = Inr (b, j, e', h') \<Longrightarrow> printable e \<Longrightarrow> printable e'"
  by (auto simp: parseSimpleCommandElement_def bind_res_eq_Inr printable_def dest!: parseRedirection_complete
      split: option.splits if_splits prod.splits)

lemma uninitialised_printable [simp]: "printable uninitialised_element"
  by (simp add: printable_def uninitialised_element_def)

lemma fresh_elements_printable:
  "makeNewSimpleCommandElementList h = (n, h') \<Longrightarrow> printable_command n"
  by (auto simp: makeNewSimpleCommandElementList_def printable_command_def split: prod.splits option.splits)

lemma fresh_commands_printable:
  "makeNewSimpleCommandList h = (n, h') \<Longrightarrow> printable_pipeline n"
  by (auto simp: makeNewSimpleCommandList_def printable_pipeline_def dest: fresh_elements_printable
      split: prod.splits option.splits list.splits)

lemma printable_simps [simp]:
  "printable_command []" "printable_command ((a, e) # l) \<longleftrightarrow> printable e \<and> printable_command l"
  "printable_pipeline []"
  "printable_pipeline ((a, c) # k) \<longleftrightarrow> printable_command (element_list c) \<and> printable_pipeline k"
  by (simp_all add: printable_command_def printable_pipeline_def)

lemma command_printable:
  "parseSimpleCommand ts i l h = Inr (b, j, l', h') \<Longrightarrow> printable_command l \<Longrightarrow> printable_command l'"
  by (induction rule: parseSimpleCommand_run_induct)
    (auto dest: element_printable fresh_elements_printable)

lemma pipeline_printable:
  "parsePipeLine ts i l h = Inr (b, j, l', h') \<Longrightarrow> printable_pipeline l \<Longrightarrow> printable_pipeline l'"
  by (induction rule: parsePipeLine_run_induct)
    (auto dest: command_printable fresh_commands_printable)

definition printable_list :: "(nat \<times> Simple_List) option \<Rightarrow> bool" where
  "printable_list l \<longleftrightarrow> (case l of None \<Rightarrow> True | Some (a, sl) \<Rightarrow> printable_pipeline (simple_command_list (pipeline sl)))"

lemma fresh_list_printable: "makeNewSimpleList h = (l, h') \<Longrightarrow> printable_list l"
  by (auto simp: makeNewSimpleList_def printable_list_def dest: fresh_commands_printable
      split: prod.splits option.splits list.splits)

lemma parseInput_printable:
  "parseInput ts l h = Inr (b, l', h') \<Longrightarrow> printable_list l \<Longrightarrow> printable_list l'"
  by (auto simp: parseInput_def printable_list_def Let_def bind_res_eq_Inr dest!: pipeline_printable
      split: option.splits if_splits prod.splits)

lemma shown_list:
  assumes "printable_list l"
  shows "\<exists>s. printSimpleList l = Inr s \<and> (\<forall>cs background. abs_list l = Some (cs, background) \<longrightarrow> s = show_list cs background)"
proof (cases l)
  case None
  then show ?thesis by (simp add: printSimpleList_def abs_list_def)
next
  case (Some p)
  obtain a sl where p: "p = (a, sl)" by fastforce
  obtain s where "printSimpleCommandList (simple_command_list (pipeline sl)) = Inr s"
    "\<forall>cs. abs_pipeline (simple_command_list (pipeline sl)) = Some cs \<longrightarrow> s = show_pipeline cs"
    using shown_pipeline assms Some p by (fastforce simp: printable_list_def)
  then show ?thesis by (auto simp: printSimpleList_def printPipeline_def abs_list_def show_list_def Some p)
qed

section \<open>The whole program\<close>

definition numbered :: "nat \<Rightarrow> string list \<Rightarrow> string" where
  "numbered k ss = concat (map (\<lambda>i. string_line (k + i) (ss ! i)) [0..<length ss])"

lemma print_strings_numbered:
  "k + length ss < 2 ^ 31 \<Longrightarrow> print_strings k ss = Inr (numbered k ss)"
proof (induction ss arbitrary: k)
  case (Cons s ss)
  have "map (\<lambda>i. string_line (k + i) ((s # ss) ! i)) [0..<length (s # ss)] =
      string_line k s # map (\<lambda>i. string_line (Suc k + i) (ss ! i)) [0..<length ss]"
    by (simp add: upt_conv_Cons map_Suc_upt [symmetric] comp_def del: upt_Suc)
  then show ?case using Cons by (simp add: numbered_def)
qed (simp add: numbered_def)

lemma parser_test_run:
  assumes "generous h" "heap_ok h" "read_line s = Some (l, rest)" "c_string l" "length l < 2 ^ 31"
  obtains status t' shown children h' b tree h4 where
    "parser_test w s t h = Some (Inr (status, ''input = '' @ l @ [CHR 0x0A] @ verdict b @
       numbered 0 (split_words l) @ shown, children, h'))" "live h' = live h"
    "(if b then interpretSimpleList w h4 tree t else (0, t, [])) = (status, t', children)"
    "\<And>cs background. b \<and> abs_list tree = Some (cs, background) \<longleftrightarrow>
       wf_pipeline cs \<and> split_words l = write_list cs background"
    "b \<Longrightarrow> abs_list tree \<noteq> None"
    "\<And>cs background. abs_list tree = Some (cs, background) \<Longrightarrow> shown = show_list cs background"
proof -
  have len: "length l < 2 ^ 57" using assms(5) by simp
  obtain input bytes h1 strings tbytes buf h2 where r:
    "readInput s h = Some (Inr (Some (input, bytes), rest, h1))"
    "tokenise (chars_of bytes) h1 = Inr (Some (strings, tbytes), buf, h2)"
    "strings_of buf tbytes = Inr (split_words l)"
    "live h2 = {strings, input} \<union> live h" "input \<notin> live h" "strings \<notin> live h" "strings \<noteq> input"
    "heap_ok h2" "generous h2" "\<exists>junk. chars_of bytes = l @ NUL # junk"
    by (rule turn_reads [OF assms(1-4) len])
  have line: "text_of (chars_of bytes) = Inr l"
    using r(10) assms(4) by (auto simp: text_of_def cstr_def c_string_def takeWhile_append)
  have c: "list_all c_string (split_words l)" using split_words_c_string assms(4) by blast
  obtain p t0 h3 b tree h4 where mk: "makeNewSimpleList h2 = (Some (p, t0), h3)"
    "parseInput (split_words l) (Some (p, t0)) h3 = Inr (b, tree, h4)"
    "\<And>cs background. b \<and> abs_list tree = Some (cs, background) \<longleftrightarrow>
       wf_pipeline cs \<and> split_words l = write_list cs background"
    "b \<Longrightarrow> abs_list tree \<noteq> None"
    "own_rel {} h2 (set (list_blocks tree)) h4" "sound (list_blocks tree) h4"
    by (rule turn_parses [OF r(9,8) c]) blast
  obtain shown where shown: "printSimpleList tree = Inr shown"
    "\<And>cs background. abs_list tree = Some (cs, background) \<Longrightarrow> shown = show_list cs background"
    using shown_list parseInput_printable [OF mk(2) fresh_list_printable [OF mk(1)]] by blast
  have nums: "print_strings 0 (split_words l) = Inr (numbered 0 (split_words l))"
    by (rule print_strings_numbered) (use split_words_length [of l] assms(5) in simp)
  have live4: "live h4 = set (list_blocks tree) \<union> live h2" "set (list_blocks tree) \<inter> live h2 = {}"
    using own_rel_exact [OF mk(5) r(9)] own_rel_live [OF mk(5)] by auto
  let ?g = "release (list_blocks tree) h4"
  have live5: "live ?g = {strings, input} \<union> live h" using live4 r(4) by auto
  obtain h7 where free: "bind_res (mfree (Some input) ?g) (mfree (Some strings)) = Inr h7" "live h7 = live h"
  proof -
    have "\<exists>h7. bind_res (mfree (Some input) g) (mfree (Some strings)) = Inr h7 \<and> live h7 = live h"
      if "live g = {strings, input} \<union> live h" for g
      using that r(5-7) by (auto simp: mfree_def)
    then show thesis using live5 that by blast
  qed
  obtain status t' children where run:
    "(if b then interpretSimpleList w h4 tree t else (0, t, [])) = (status, t', children)"
    by (metis prod_cases3)
  have "parser_test w s t h = Some (Inr (status, ''input = '' @ l @ [CHR 0x0A] @ verdict b @
      numbered 0 (split_words l) @ shown, children, h7))"
    using r(1-3) line mk(1,2) nums shown(1) run freeSimpleList_sound [OF mk(6)] free(1)
    by (auto simp: parser_test_def Let_def bind_res_eq_Inr)
  then show thesis using that free(2) run mk(3,4) shown(2) by blast
qed

text \<open>
  C22. The test program works as the test it is meant to be: on a line of fewer than 2^31
  characters, with memory granted, it prints the line, the right verdict, the numbered words, and,
  when they write a pipeline, that pipeline as it was written; then it runs the tree it has shown.
  It frees everything in every case, and what the parser leaves behind of an invalid line is
  printed without undefined behaviour too.
\<close>

theorem parser_test_shows:
  assumes "generous h" "heap_ok h" "read_line s = Some (l, rest)" "c_string l" "length l < 2 ^ 31"
  shows "\<exists>status shown children h'.
    parser_test w s t h = Some (Inr (status,
      ''input = '' @ l @ [CHR 0x0A] @
      verdict (\<exists>cs background. wf_pipeline cs \<and> split_words l = write_list cs background) @
      numbered 0 (split_words l) @ shown, children, h')) \<and> live h' = live h \<and>
    (if \<exists>cs background. wf_pipeline cs \<and> split_words l = write_list cs background
     then \<exists>cs background tree hj t'. wf_pipeline cs \<and> split_words l = write_list cs background \<and>
       shown = show_list cs background \<and> abs_list tree = Some (cs, background) \<and>
       interpretSimpleList w hj tree t = (status, t', children)
     else status = 0 \<and> children = [])"
proof -
  let ?valid = "\<exists>cs background. wf_pipeline cs \<and> split_words l = write_list cs background"
  obtain status t' shown children h' b tree h4 where r:
    "parser_test w s t h = Some (Inr (status, ''input = '' @ l @ [CHR 0x0A] @ verdict b @
       numbered 0 (split_words l) @ shown, children, h'))" "live h' = live h"
    "(if b then interpretSimpleList w h4 tree t else (0, t, [])) = (status, t', children)"
    "\<And>cs background. b \<and> abs_list tree = Some (cs, background) \<longleftrightarrow>
       wf_pipeline cs \<and> split_words l = write_list cs background"
    "b \<Longrightarrow> abs_list tree \<noteq> None"
    "\<And>cs background. abs_list tree = Some (cs, background) \<Longrightarrow> shown = show_list cs background"
    by (rule parser_test_run [OF assms, of w t]) (rule that)
  have valid: "b \<longleftrightarrow> ?valid" using r(4,5) by auto
  have good: "\<exists>cs background tree hj t'. wf_pipeline cs \<and> split_words l = write_list cs background \<and>
      shown = show_list cs background \<and> abs_list tree = Some (cs, background) \<and>
      interpretSimpleList w hj tree t = (status, t', children)" if v: ?valid
  proof -
    have b: b using v valid by blast
    then obtain cs background where a: "abs_list tree = Some (cs, background)" using r(5) by fastforce
    moreover have "interpretSimpleList w h4 tree t = (status, t', children)" using r(3) b by simp
    ultimately show ?thesis using r(4,6) b by blast
  qed
  have bad: "status = 0 \<and> children = []" if "\<not> ?valid"
  proof -
    have "\<not> b" using valid that by blast
    then show ?thesis using r(3) by simp
  qed
  show ?thesis
  proof (intro exI conjI)
    show "if ?valid
     then \<exists>cs background tree hj t'. wf_pipeline cs \<and> split_words l = write_list cs background \<and>
       shown = show_list cs background \<and> abs_list tree = Some (cs, background) \<and>
       interpretSimpleList w hj tree t = (status, t', children)
     else status = 0 \<and> children = []"
      using good bad by (cases ?valid) (simp_all only: if_True if_False simp_thms)
  qed (rule r(1) [unfolded valid], rule r(2))
qed

theorem parser_test_shows_witness:
  "\<forall>w t. \<exists>status children h'. parser_test w (''ls'' @ [CHR 0x0A]) t (new_heap (\<lambda>k n. True)) = Some (Inr (status,
      ''input = ls'' @ [CHR 0x0A] @ ''aforementioned input is valid: true'' @ [CHR 0x0A] @
      ''strings[0] = ls'' @ [CHR 0x0A] @ ''command element: ls '' @ [CHR 0x0A], children, h')) \<and> live h' = {}"
proof (intro allI)
  fix w t
  have line: "read_line (''ls'' @ [CHR 0x0A]) = Some (''ls'', [])" "c_string ''ls''"
    "split_words ''ls'' = [''ls'']" by (simp_all add: NUL_def split_words.simps)
  have c: "list_all c_string [''ls'']" by (simp add: NUL_def)
  have wf: "wf_pipeline cs \<and> [''ls''] = write_list cs background \<longleftrightarrow> cs = [[Word ''ls'']] \<and> \<not> background" for cs background
  proof -
    have "wf_pipeline [[Word ''ls'']]" by (simp add: wf_pipeline_def word_chars_eval cstr_def NUL_def)
    then have "read_list [''ls''] = Some ([[Word ''ls'']], False)"
      by (subst read_list_iff [OF c]) (simp add: write_list_def)
    then show ?thesis using read_list_iff [OF c, of cs background] by auto
  qed
  have ex: "\<exists>cs background. wf_pipeline cs \<and> [''ls''] = write_list cs background" using wf by blast
  have zero: "char_of (48 :: nat) = CHR ''0''" by code_simp
  have nums: "numbered 0 [''ls''] = ''strings[0] = ls'' @ [CHR 0x0A]"
    using zero by (simp add: numbered_def string_line_def decimal.simps [of 0] cstr_def NUL_def)
  have tree: "show_list [[Word ''ls'']] False = ''command element: ls '' @ [CHR 0x0A]"
    by (simp add: show_list_def cstr_def NUL_def)
  obtain status shown children h' where run: "parser_test w (''ls'' @ [CHR 0x0A]) t (new_heap (\<lambda>k n. True)) =
      Some (Inr (status, ''input = '' @ ''ls'' @ [CHR 0x0A] @
        verdict (\<exists>cs background. wf_pipeline cs \<and> [''ls''] = write_list cs background) @
        numbered 0 [''ls''] @ shown, children, h'))" "live h' = live (new_heap (\<lambda>k n. True))"
    and cond: "if \<exists>cs background. wf_pipeline cs \<and> [''ls''] = write_list cs background
      then \<exists>cs background tree hj t'. wf_pipeline cs \<and> [''ls''] = write_list cs background \<and>
        shown = show_list cs background \<and> abs_list tree = Some (cs, background) \<and>
        interpretSimpleList w hj tree t = (status, t', children)
      else status = 0 \<and> children = []"
  proof -
    have "length ''ls'' < 2 ^ 31" by simp
    from parser_test_shows [OF generous_new heap_ok_new line(1,2) this, of w t, unfolded line(3)]
    show thesis by (elim exE conjE) (rule that)
  qed
  then obtain cs background where "wf_pipeline cs \<and> [''ls''] = write_list cs background" "shown = show_list cs background"
    unfolding if_P [OF ex] by (elim exE conjE) (rule that, rule conjI)
  then have "shown = show_list [[Word ''ls'']] False" unfolding wf by simp
  then have "parser_test w (''ls'' @ [CHR 0x0A]) t (new_heap (\<lambda>k n. True)) = Some (Inr (status,
      ''input = ls'' @ [CHR 0x0A] @ ''aforementioned input is valid: true'' @ [CHR 0x0A] @
      ''strings[0] = ls'' @ [CHR 0x0A] @ ''command element: ls '' @ [CHR 0x0A], children, h'))"
    using run(1) ex nums tree by (simp add: verdict_def)
  then show "\<exists>status children h'. parser_test w (''ls'' @ [CHR 0x0A]) t (new_heap (\<lambda>k n. True)) = Some (Inr (status,
      ''input = ls'' @ [CHR 0x0A] @ ''aforementioned input is valid: true'' @ [CHR 0x0A] @
      ''strings[0] = ls'' @ [CHR 0x0A] @ ''command element: ls '' @ [CHR 0x0A], children, h')) \<and> live h' = {}"
    using run(2) by (intro exI conjI) simp_all
qed

end
