(* ===== verification/Demo.thy ===== *)
theory Demo
  imports CPrelude
begin

text \<open>
  The page fault demonstration (Lab2/demo.c). A loop writes through four read-only pages; a write
  to a page that is not writable raises SIGSEGV, whose handler makes the page writable and exits
  at its third call. Addresses are offsets into the region, which starts at \<open>buffer\<close>; a byte of
  the region is \<open>None\<close> until it is written. \<open>mprotect\<close> refuses an address that is not on a page
  boundary, as POSIX lets it.
\<close>

record region =
  offset :: nat
  writable :: "bool list"
  bytes :: "char option list"
  cnt :: nat
  faults :: "nat list"

definition mprotect :: "nat \<Rightarrow> nat \<Rightarrow> nat \<Rightarrow> nat \<Rightarrow> bool \<Rightarrow> region \<Rightarrow> region" where
  "mprotect pagesize buffer addr len w s =
     (if addr mod pagesize \<noteq> 0 then s
      else s\<lparr>writable := map (\<lambda>i. if addr \<le> buffer + i * pagesize \<and> buffer + i * pagesize < addr + len then w
                                  else writable s ! i) [0..<length (writable s)]\<rparr>)"

datatype next_step = Exit int region | Again region

definition handler :: "nat \<Rightarrow> nat \<Rightarrow> nat \<Rightarrow> region \<Rightarrow> next_step" where
  "handler pagesize buffer si_addr s =
     (let s1 = mprotect pagesize buffer si_addr pagesize True (s\<lparr>faults := faults s @ [si_addr]\<rparr>);
          s2 = s1\<lparr>cnt := cnt s1 + 1\<rparr>
      in if cnt s2 = 3 then Exit 1 s2 else Again s2)"

text \<open>One try of \<open>*(p++) = 'a'\<close>: the write, or the handler and the instruction again.\<close>

definition write_step :: "nat \<Rightarrow> nat \<Rightarrow> region \<Rightarrow> next_step res" where
  "write_step pagesize buffer s =
     (if length (bytes s) \<le> offset s \<or> length (writable s) \<le> offset s div pagesize then Inl Out_Of_Bounds
      else if writable s ! (offset s div pagesize)
      then Inr (Again (s\<lparr>bytes := (bytes s)[offset s := Some CHR ''a''], offset := offset s + 1\<rparr>))
      else Inr (handler pagesize buffer (buffer + offset s) s))"

partial_function (option) write_loop :: "nat \<Rightarrow> nat \<Rightarrow> region \<Rightarrow> (int \<times> region) res option" where
  "write_loop pagesize buffer s =
     (case write_step pagesize buffer s of
        Inl u \<Rightarrow> Some (Inl u)
      | Inr (Exit k s1) \<Rightarrow> Some (Inr (k, s1))
      | Inr (Again s1) \<Rightarrow> write_loop pagesize buffer s1)"

declare write_loop.simps [code]

text \<open>\<open>main\<close>: the region is what \<open>posix_memalign\<close> answers, \<open>None\<close> when it fails.\<close>

definition demo_main :: "nat \<Rightarrow> nat option \<Rightarrow> (int \<times> region) res option" where
  "demo_main pagesize memalign =
     (case memalign of
        None \<Rightarrow> Some (Inr (1, \<lparr>offset = 0, writable = [], bytes = [], cnt = 0, faults = []\<rparr>))
      | Some buffer \<Rightarrow>
          write_loop pagesize buffer
            (mprotect pagesize buffer buffer (4 * pagesize) False
              \<lparr>offset = 0, writable = [True, True, True, True], bytes = replicate (4 * pagesize) None,
               cnt = 0, faults = []\<rparr>))"

text \<open>The state after k faults when n bytes have been written.\<close>

definition after :: "nat \<Rightarrow> nat \<Rightarrow> nat \<Rightarrow> nat \<Rightarrow> region" where
  "after pagesize buffer k n =
     \<lparr>offset = n, writable = map (\<lambda>i. i < k) [0..<4],
      bytes = replicate n (Some CHR ''a'') @ replicate (4 * pagesize - n) None, cnt = k,
      faults = map (\<lambda>i. buffer + i * pagesize) [0..<k]\<rparr>"

lemma write_step_writes:
  assumes "0 < pagesize" "n < k * pagesize" "k \<le> 4"
  shows "write_step pagesize buffer (after pagesize buffer k n) = Inr (Again (after pagesize buffer k (Suc n)))"
proof -
  have d: "n div pagesize < k" using assms(2) by (rule less_mult_imp_div_less)
  have n: "n < 4 * pagesize" using assms by (meson le_trans less_le_trans mult_le_mono1 order_refl)
  then have "replicate (4 * pagesize - n) None = None # replicate (4 * pagesize - Suc n) (None :: char option)"
    by (metis Suc_diff_Suc replicate_Suc)
  then have "(replicate n (Some CHR ''a'') @ replicate (4 * pagesize - n) None)[n := Some CHR ''a''] =
      replicate (Suc n) (Some CHR ''a'') @ replicate (4 * pagesize - Suc n) None"
    by (simp add: list_update_append replicate_append_same del: replicate_Suc)
      (simp add: replicate_append_same [symmetric])
  then show ?thesis using d n assms(3) by (simp add: write_step_def after_def)
qed

lemma write_loop_writes:
  assumes "0 < pagesize" "k \<le> 4"
  shows "n \<le> k * pagesize \<Longrightarrow>
    write_loop pagesize buffer (after pagesize buffer k n) = write_loop pagesize buffer (after pagesize buffer k (k * pagesize))"
proof (induction "k * pagesize - n" arbitrary: n)
  case (Suc m)
  then have n: "n < k * pagesize" by simp
  have "write_loop pagesize buffer (after pagesize buffer k (Suc n)) =
      write_loop pagesize buffer (after pagesize buffer k (k * pagesize))"
    using Suc(1) [of "Suc n"] Suc(2) n by simp
  then show ?case using write_step_writes [OF assms(1) n assms(2)] by (subst write_loop.simps) simp
qed simp

lemma write_step_faults:
  assumes "0 < pagesize" "buffer mod pagesize = 0" "k < 3"
  shows "write_step pagesize buffer (after pagesize buffer k (k * pagesize)) =
    Inr (if k = 2 then Exit 1 (after pagesize buffer 3 (2 * pagesize))
         else Again (after pagesize buffer (Suc k) (k * pagesize)))"
proof -
  have page: "buffer + k * pagesize \<le> buffer + i * pagesize \<and> buffer + i * pagesize < buffer + k * pagesize + pagesize \<longleftrightarrow> i = k" for i
  proof -
    have "buffer + k * pagesize + pagesize = buffer + Suc k * pagesize" by simp
    then show ?thesis using assms(1) by (simp del: mult_Suc add: less_Suc_eq_le) auto
  qed
  have aligned: "(buffer + k * pagesize) mod pagesize = 0" using assms(2) by simp
  have "map (\<lambda>i. if i = k then True else map (\<lambda>i. i < k) [0..<4] ! i) [0..<4] = map (\<lambda>i. i < Suc k) [0..<4]"
    by (rule map_cong) auto
  then have unprotect: "mprotect pagesize buffer (buffer + k * pagesize) pagesize True s =
      s\<lparr>writable := map (\<lambda>i. i < Suc k) [0..<4]\<rparr>" if "writable s = map (\<lambda>i. i < k) [0..<4]" for s
    using aligned that unfolding mprotect_def page
    by (simp only: length_map length_upt diff_zero if_False simp_thms)
  have three: "[0..<3] = [0..<2] @ [2 :: nat]" by (simp add: upt_rec)
  let ?s = "after pagesize buffer k (k * pagesize)"
  let ?f = "?s\<lparr>faults := faults ?s @ [buffer + k * pagesize]\<rparr>"
  have "mprotect pagesize buffer (buffer + k * pagesize) pagesize True ?f = ?f\<lparr>writable := map (\<lambda>i. i < Suc k) [0..<4]\<rparr>"
    by (rule unprotect) (simp add: after_def)
  then have "handler pagesize buffer (buffer + k * pagesize) ?s =
      (if k = 2 then Exit 1 (after pagesize buffer 3 (2 * pagesize))
       else Again (after pagesize buffer (Suc k) (k * pagesize)))"
    by (simp add: handler_def Let_def) (simp add: after_def three)
  then show ?thesis using assms(1,3) by (simp add: write_step_def after_def)
qed

text \<open>
  C24. The demonstration ends, at its third page fault, with status 1. Its handler has reported the
  starts of the first three pages in order, all bytes of the first two pages are written and none
  of the others, and the third page has been made writable in vain.
\<close>

theorem demo_third_fault:
  assumes "0 < pagesize" "buffer mod pagesize = 0"
  shows "demo_main pagesize (Some buffer) = Some (Inr (1,
    \<lparr>offset = 2 * pagesize, writable = [True, True, True, False],
     bytes = replicate (2 * pagesize) (Some CHR ''a'') @ replicate (2 * pagesize) None, cnt = 3,
     faults = [buffer, buffer + pagesize, buffer + 2 * pagesize]\<rparr>))"
proof -
  have fault: "write_loop pagesize buffer (after pagesize buffer k (k * pagesize)) =
      write_loop pagesize buffer (after pagesize buffer (Suc k) (Suc k * pagesize))" if "k < 2" for k
    using write_step_faults [OF assms, of k] write_loop_writes [OF assms(1), of "Suc k" "k * pagesize" buffer] that
    by (subst write_loop.simps) simp
  have "mprotect pagesize buffer buffer (4 * pagesize) False
      \<lparr>offset = 0, writable = [True, True, True, True], bytes = replicate (4 * pagesize) None, cnt = 0, faults = []\<rparr> =
    after pagesize buffer 0 (0 * pagesize)"
    using assms by (simp add: mprotect_def after_def upt_rec)
  then have "demo_main pagesize (Some buffer) = write_loop pagesize buffer (after pagesize buffer 0 (0 * pagesize))"
    by (simp add: demo_main_def)
  also have "\<dots> = write_loop pagesize buffer (after pagesize buffer 2 (2 * pagesize))"
    using fault [of 0] fault [of 1] by (simp add: numeral_2_eq_2)
  also have "\<dots> = Some (Inr (1, after pagesize buffer 3 (2 * pagesize)))"
    using write_step_faults [OF assms, of 2] by (subst write_loop.simps) simp
  also have "after pagesize buffer 3 (2 * pagesize) =
    \<lparr>offset = 2 * pagesize, writable = [True, True, True, False],
     bytes = replicate (2 * pagesize) (Some CHR ''a'') @ replicate (2 * pagesize) None, cnt = 3,
     faults = [buffer, buffer + pagesize, buffer + 2 * pagesize]\<rparr>"
    by (simp add: after_def upt_rec)
  finally show ?thesis .
qed

theorem demo_third_fault_witness:
  "demo_main 2 (Some 8) = Some (Inr (1,
    \<lparr>offset = 4, writable = [True, True, True, False],
     bytes = replicate 4 (Some CHR ''a'') @ replicate 4 None, cnt = 3, faults = [8, 10, 12]\<rparr>))"
  using demo_third_fault [of 2 8] by simp

end
