(* ===== verification/SignalSamples.thy ===== *)
theory SignalSamples
  imports Runs Posix
begin

text \<open>
  The samples on signals (Lab1/syscallexamples: signal1.c, signal2.c, sigmask.c, sm.c, suspend.c,
  kill.c). A process is a task: where it is in \<open>main\<close>, which signals its handler catches, which are
  blocked or pending, whether an alarm is set. A program is its \<open>main\<close>, one call at a step, and its
  handler; when an alarm expires and when a pending signal is delivered is open. A handler runs as
  one step: the signal it handles is blocked while it runs, and another one that comes meanwhile is
  taken to come after it. Which signals come from outside the process is a parameter (\<open>sent\<close>); of
  these only signals are meant that end a process that does not catch them.
\<close>

section \<open>Signals\<close>

definition SIGINT :: int where "SIGINT = 2"
definition SIGKILL :: int where "SIGKILL = 9"
definition SIGALRM :: int where "SIGALRM = 14"

lemmas signal_numbers = SIGINT_def SIGKILL_def SIGALRM_def

text \<open>What a program prints: a hash sign, the report of the handler, a line, the result of \<open>pause\<close>.\<close>

datatype shown_item = Hash | Caught int | Line string | Result int

text \<open>\<open>hits\<close> is the static variable of the handler; \<open>waiting\<close> is being in \<open>pause\<close>.\<close>

record task =
  fate :: "wstatus option"
  at_line :: nat
  catches :: "int \<Rightarrow> bool"
  blocked :: "int \<Rightarrow> bool"
  pending :: "int \<Rightarrow> bool"
  armed :: bool
  waiting :: bool
  hits :: int
  display :: "shown_item list"

definition new_task :: task where
  "new_task = \<lparr>fate = None, at_line = 0, catches = (\<lambda>s. False), blocked = (\<lambda>s. False), pending = (\<lambda>s. False),
     armed = False, waiting = False, hits = 0, display = []\<rparr>"

definition show_item :: "shown_item \<Rightarrow> task \<Rightarrow> task" where
  "show_item x t = t\<lparr>display := display t @ [x]\<rparr>"

definition goes_to :: "nat \<Rightarrow> task \<Rightarrow> task" where
  "goes_to k t = t\<lparr>at_line := k\<rparr>"

definition sys_sigaction :: "int \<Rightarrow> task \<Rightarrow> task" where
  "sys_sigaction s t = t\<lparr>catches := (catches t)(s := True)\<rparr>"

definition sys_sigblock :: "int \<Rightarrow> task \<Rightarrow> task" where
  "sys_sigblock s t = t\<lparr>blocked := (blocked t)(s := True)\<rparr>"

definition sys_alarm :: "task \<Rightarrow> task" where
  "sys_alarm t = t\<lparr>armed := True\<rparr>"

definition task_exit :: "int \<Rightarrow> task \<Rightarrow> task" where
  "task_exit k t = t\<lparr>fate := Some (Exited k)\<rparr>"

text \<open>A signal arrives: the handler, after which \<open>pause\<close> returns, or the end of the process.\<close>

definition deliver :: "(int \<Rightarrow> task \<Rightarrow> task) \<Rightarrow> int \<Rightarrow> task \<Rightarrow> task" where
  "deliver h s t =
     (let t1 = t\<lparr>pending := (pending t)(s := False)\<rparr>
      in if catches t s \<and> s \<noteq> SIGKILL then (h s t1)\<lparr>waiting := False\<rparr> else t1\<lparr>fate := Some (Signaled s)\<rparr>)"

inductive task_step :: "(task \<Rightarrow> task) \<Rightarrow> (int \<Rightarrow> task \<Rightarrow> task) \<Rightarrow> (int \<Rightarrow> bool) \<Rightarrow> task \<Rightarrow> task \<Rightarrow> bool" for main h sent where
  main_goes: "fate t = None \<Longrightarrow> \<not> waiting t \<Longrightarrow> task_step main h sent t (main t)"
| alarm_expires: "fate t = None \<Longrightarrow> armed t \<Longrightarrow>
    task_step main h sent t (t\<lparr>armed := False, pending := (pending t)(SIGALRM := True)\<rparr>)"
| signal_sent: "fate t = None \<Longrightarrow> sent s \<Longrightarrow> task_step main h sent t (t\<lparr>pending := (pending t)(s := True)\<rparr>)"
| signal_delivered: "fate t = None \<Longrightarrow> pending t s \<Longrightarrow> \<not> blocked t s \<or> s = SIGKILL \<Longrightarrow>
    task_step main h sent t (deliver h s t)"

inductive_cases task_stepE: "task_step main h sent t t'"

section \<open>The programs\<close>

definition no_handler :: "int \<Rightarrow> task \<Rightarrow> task" where
  "no_handler s t = t"

definition hash_loop :: "task \<Rightarrow> task" where
  "hash_loop t = show_item Hash t"

definition signal1_main :: "task \<Rightarrow> task" where
  "signal1_main t = (if at_line t = 0 then goes_to 1 (sys_alarm t) else hash_loop t)"

definition signal2_handler :: "int \<Rightarrow> task \<Rightarrow> task" where
  "signal2_handler s t =
     (let t1 = show_item (Caught s) t; t2 = t1\<lparr>hits := hits t1 + 1\<rparr>
      in if hits t1 = 2 then task_exit 0 t2 else sys_alarm t2)"

definition signal2_main :: "task \<Rightarrow> task" where
  "signal2_main t =
     (if at_line t = 0 then goes_to 1 (sys_sigaction SIGALRM t)
      else if at_line t = 1 then goes_to 2 (sys_alarm t)
      else hash_loop t)"

definition sigmask_main :: "task \<Rightarrow> task" where
  "sigmask_main t =
     (if at_line t = 0 then goes_to 1 (sys_sigblock SIGALRM t)
      else if at_line t = 1 then goes_to 2 (sys_alarm t)
      else hash_loop t)"

definition sm_handler :: "int \<Rightarrow> task \<Rightarrow> task" where
  "sm_handler s t =
     (let t1 = show_item (Caught s) t
      in if s = SIGINT then task_exit 0 (show_item (Line ''See you next time'') t1) else t1)"

definition sm_main :: "task \<Rightarrow> task" where
  "sm_main t =
     (if at_line t = 0 then goes_to 1 (sys_sigaction SIGALRM t)
      else if at_line t = 1 then goes_to 2 (sys_sigaction SIGINT t)
      else if at_line t = 2 then goes_to 3 (sys_alarm t)
      else if at_line t = 3 then goes_to 4 (sys_sigblock SIGALRM t)
      else hash_loop t)"

definition suspend_handler :: "int \<Rightarrow> task \<Rightarrow> task" where
  "suspend_handler s t = show_item (Caught s) t"

definition suspend_main :: "task \<Rightarrow> task" where
  "suspend_main t =
     (if at_line t = 0 then goes_to 1 (sys_sigaction SIGALRM t)
      else if at_line t = 1 then goes_to 2 (sys_alarm t)
      else if at_line t = 2 then goes_to 3 (show_item (Line ''#####'') t)
      else if at_line t = 3 then goes_to 4 (t\<lparr>waiting := True\<rparr>)
      else task_exit 0 (show_item (Result (-1)) t))"

text \<open>
  kill.c: what the process does after \<open>fork\<close> has answered: the one that is not the child sends a
  signal, the child runs \<open>hash_loop\<close>.
\<close>

definition kill_main :: "int \<Rightarrow> (int \<times> int) option" where
  "kill_main child = (if child \<noteq> 0 then Some (child, SIGKILL) else None)"

lemmas task_simps = show_item_def goes_to_def sys_sigaction_def sys_sigblock_def sys_alarm_def task_exit_def
  hash_loop_def deliver_def no_handler_def

section \<open>What they do\<close>

definition times_caught :: "int \<Rightarrow> task \<Rightarrow> nat" where
  "times_caught s t = length (filter (\<lambda>x. x = Caught s) (display t))"

text \<open>An invariant of the steps of a program holds in all its runs.\<close>

lemma task_invariant:
  assumes "run (task_step main h sent) m t t'" "P t"
    and "\<And>t. P t \<Longrightarrow> fate t = None \<Longrightarrow> \<not> waiting t \<Longrightarrow> P (main t)"
    and "\<And>t. P t \<Longrightarrow> fate t = None \<Longrightarrow> armed t \<Longrightarrow> P (t\<lparr>armed := False, pending := (pending t)(SIGALRM := True)\<rparr>)"
    and "\<And>t s. P t \<Longrightarrow> fate t = None \<Longrightarrow> sent s \<Longrightarrow> P (t\<lparr>pending := (pending t)(s := True)\<rparr>)"
    and "\<And>t s. P t \<Longrightarrow> fate t = None \<Longrightarrow> pending t s \<Longrightarrow> \<not> blocked t s \<or> s = SIGKILL \<Longrightarrow> P (deliver h s t)"
  shows "P t'"
  using assms(1,2)
proof (induction rule: run.induct)
  case (run_step m t t1 t2)
  then have "P t1" by simp
  then show ?case using run_step.hyps(2) assms(3-) by (elim task_stepE) auto
qed

text \<open>
  signal2.c: the alarm is set or pending until the third one, which ends the program; another signal
  that is pending was sent.
\<close>

definition signal2_inv :: "(int \<Rightarrow> bool) \<Rightarrow> task \<Rightarrow> bool" where
  "signal2_inv sent t \<longleftrightarrow> \<not> waiting t \<and> (\<forall>s. \<not> blocked t s) \<and> (\<forall>s. catches t s \<longrightarrow> s = SIGALRM) \<and>
     (\<forall>s. pending t s \<longrightarrow> s = SIGALRM \<and> catches t s \<or> sent s) \<and>
     hits t = int (times_caught SIGALRM t) \<and> (armed t \<longrightarrow> catches t SIGALRM) \<and>
     (fate t = None \<longrightarrow> hits t < 3 \<and>
       (at_line t = 0 \<and> \<not> catches t SIGALRM \<or>
        at_line t = 1 \<and> catches t SIGALRM \<or>
        at_line t = 2 \<and> catches t SIGALRM \<and> (armed t \<or> pending t SIGALRM))) \<and>
     (\<forall>w. fate t = Some w \<longrightarrow> hits t = 3 \<and> w = Exited 0 \<or> hits t < 3 \<and> (\<exists>s. sent s \<and> w = Signaled s))"

lemma signal2_delivered:
  "catches t SIGALRM \<Longrightarrow> deliver signal2_handler SIGALRM t =
    t\<lparr>pending := (pending t)(SIGALRM := False), waiting := False, display := display t @ [Caught SIGALRM],
      hits := hits t + 1, fate := (if hits t = 2 then Some (Exited 0) else fate t),
      armed := (if hits t = 2 then armed t else True)\<rparr>"
  by (simp add: deliver_def signal2_handler_def task_simps Let_def signal_numbers)

lemma signal2_deliver_inv:
  assumes "signal2_inv sent t" "fate t = None" "pending t s"
  shows "signal2_inv sent (deliver signal2_handler s t)"
proof (cases "catches t s")
  case True
  then have s: "s = SIGALRM" "catches t SIGALRM" using assms(1) by (auto simp: signal2_inv_def)
  show ?thesis using assms s(2) unfolding s(1) signal2_delivered [OF s(2)]
    by (cases "hits t = 2") (auto simp: signal2_inv_def times_caught_def)
next
  case False
  then have "sent s" using assms(1,3) by (auto simp: signal2_inv_def)
  then show ?thesis using assms False
    by (auto simp: signal2_inv_def deliver_def Let_def times_caught_def)
qed

lemma signal2_main_inv:
  "signal2_inv sent t \<Longrightarrow> fate t = None \<Longrightarrow> signal2_inv sent (signal2_main t)"
  by (auto simp: signal2_inv_def signal2_main_def task_simps times_caught_def)

lemma signal2_run_inv:
  assumes "run (task_step signal2_main signal2_handler sent) m t t'" "signal2_inv sent t"
  shows "signal2_inv sent t'"
  using assms
proof (rule task_invariant, goal_cases)
  case (2 t)
  then show ?case by (auto simp: signal2_inv_def times_caught_def)
next
  case (3 t s)
  then show ?case by (auto simp: signal2_inv_def times_caught_def)
qed (simp_all add: signal2_deliver_inv signal2_main_inv)

lemma signal2_inv_new: "signal2_inv sent new_task"
  by (simp add: signal2_inv_def new_task_def times_caught_def)

definition signal2_left :: "task \<Rightarrow> nat" where
  "signal2_left t = 3 * nat (3 - hits t) + (if pending t SIGALRM then 0 else 1) + (2 - at_line t)"

abbreviation signal2_step :: "(int \<Rightarrow> bool) \<Rightarrow> task \<Rightarrow> task \<Rightarrow> bool" where
  "signal2_step sent \<equiv> task_step signal2_main signal2_handler sent"

text \<open>A run that ends by the third alarm: no signal is sent in it.\<close>

definition ends_well :: "task \<Rightarrow> bool" where
  "ends_well t \<longleftrightarrow> fate t = None \<or> fate t = Some (Exited 0)"

lemma signal2_goes_on:
  assumes "signal2_inv sent t" "fate t = None"
  shows "\<exists>t'. signal2_step sent t t' \<and> signal2_inv sent t' \<and> ends_well t' \<and> signal2_left t' < signal2_left t"
proof -
  have w: "\<not> waiting t" using assms(1) by (simp add: signal2_inv_def)
  consider "at_line t < 2" | "at_line t = 2" "pending t SIGALRM" | "at_line t = 2" "\<not> pending t SIGALRM"
    using assms by (auto simp: signal2_inv_def)
  then show ?thesis
  proof cases
    case 1
    have "signal2_step sent t (signal2_main t)" using assms(2) w by (rule main_goes)
    moreover have "signal2_left (signal2_main t) < signal2_left t" "ends_well (signal2_main t)"
      using 1 assms(2) by (auto simp: signal2_main_def signal2_left_def ends_well_def task_simps)
    moreover note signal2_main_inv [OF assms]
    ultimately show ?thesis by blast
  next
    case 2
    have c: "catches t SIGALRM" "\<not> blocked t SIGALRM" "hits t < 3" using assms 2 by (auto simp: signal2_inv_def)
    then have "signal2_step sent t (deliver signal2_handler SIGALRM t)" using assms(2) 2 by (intro signal_delivered) simp_all
    moreover note signal2_deliver_inv [OF assms 2(2)]
    moreover have "ends_well (deliver signal2_handler SIGALRM t)"
      using assms(2) unfolding signal2_delivered [OF c(1)] by (simp add: ends_well_def)
    moreover have "Suc (3 * nat (3 - (hits t + 1))) < 3 * nat (3 - hits t)" using c(3) by arith
    then have "signal2_left (deliver signal2_handler SIGALRM t) < signal2_left t"
      using 2 unfolding signal2_delivered [OF c(1)] by (simp add: signal2_left_def)
    ultimately show ?thesis by blast
  next
    case 3
    let ?t = "t\<lparr>armed := False, pending := (pending t)(SIGALRM := True)\<rparr>"
    have "signal2_step sent t ?t" using assms 3 by (intro alarm_expires) (auto simp: signal2_inv_def)
    moreover have "signal2_inv sent ?t \<and> ends_well ?t \<and> signal2_left ?t < signal2_left t"
      using assms 3 by (auto simp: signal2_inv_def signal2_left_def times_caught_def ends_well_def)
    ultimately show ?thesis by blast
  qed
qed

lemma signal2_can_end:
  "signal2_inv sent t \<Longrightarrow> fate t = None \<Longrightarrow> \<exists>m t'. run (signal2_step sent) m t t' \<and> fate t' = Some (Exited 0)"
proof (induction "signal2_left t" arbitrary: t rule: less_induct)
  case less
  from signal2_goes_on [OF less.prems] obtain t1 where
    t1: "signal2_step sent t t1" "signal2_inv sent t1" "ends_well t1" "signal2_left t1 < signal2_left t"
    by blast
  have "\<exists>m t'. run (signal2_step sent) m t1 t' \<and> fate t' = Some (Exited 0)"
    using less.hyps [OF t1(4,2)] t1(3) by (cases "fate t1 = None") (auto simp: ends_well_def)
  then show ?case using run_first [where step = "signal2_step sent", OF t1(1)] by blast
qed

text \<open>
  C33. Of itself signal2.c ends at its third alarm and at nothing else: whatever signals are sent to
  it and whatever its hash signs and alarms come in, its handler has reported at most three alarms,
  three of them exactly when it has exited, with status 0; if it has ended in any other way, a signal
  that was sent from outside has killed it, so when none is sent it never ends otherwise; and as long
  as it has not ended, it still can at its third alarm.
\<close>

theorem signal2_three_alarms:
  assumes "run (task_step signal2_main signal2_handler sent) m new_task t"
  shows "times_caught SIGALRM t \<le> 3 \<and> (times_caught SIGALRM t = 3 \<longleftrightarrow> fate t = Some (Exited 0)) \<and>
    (\<forall>w. fate t = Some w \<longrightarrow> w = Exited 0 \<or> (\<exists>s. sent s \<and> w = Signaled s)) \<and>
    (fate t = None \<longrightarrow>
      (\<exists>k t'. run (task_step signal2_main signal2_handler sent) k t t' \<and> fate t' = Some (Exited 0)))"
proof -
  have inv: "signal2_inv sent t" using signal2_run_inv [OF assms signal2_inv_new] .
  then show ?thesis using signal2_can_end [OF inv] by (cases "fate t") (auto simp: signal2_inv_def)
qed

theorem signal2_three_alarms_witness:
  "(\<exists>k t. run (task_step signal2_main signal2_handler (\<lambda>s. s = SIGINT)) k new_task t \<and> times_caught SIGALRM t = 3)"
proof -
  have "fate new_task = None" by (simp add: new_task_def)
  then obtain k t where "run (task_step signal2_main signal2_handler (\<lambda>s. s = SIGINT)) k new_task t" "fate t = Some (Exited 0)"
    using signal2_three_alarms [OF run_refl, of "\<lambda>s. s = SIGINT"] by blast
  then show ?thesis using signal2_three_alarms by blast
qed

text \<open>
  Without a handler the alarm ends the program (signal1.c); blocked, it is pending for ever and
  ends nothing (sigmask.c).
\<close>

lemma signal1_killed:
  assumes "run (task_step signal1_main no_handler (\<lambda>s. False)) m new_task t"
  shows "fate t = None \<or> fate t = Some (Signaled SIGALRM)"
proof -
  have "(fate t = None \<or> fate t = Some (Signaled SIGALRM)) \<and> (\<forall>s. \<not> catches t s) \<and> (\<forall>s. pending t s \<longrightarrow> s = SIGALRM)"
    using assms by (rule task_invariant) (auto simp: new_task_def signal1_main_def task_simps Let_def split: if_splits)
  then show ?thesis by blast
qed

lemma sigmask_never_ends:
  assumes "run (task_step sigmask_main no_handler (\<lambda>s. False)) m new_task t"
  shows "fate t = None \<and> (2 \<le> at_line t \<longrightarrow> armed t \<or> pending t SIGALRM)"
proof -
  have "fate t = None \<and> (2 \<le> at_line t \<longrightarrow> armed t \<or> pending t SIGALRM) \<and> (\<forall>s. pending t s \<longrightarrow> s = SIGALRM) \<and>
      (at_line t = 0 \<longrightarrow> \<not> armed t \<and> \<not> pending t SIGALRM) \<and> (at_line t \<noteq> 0 \<longrightarrow> blocked t SIGALRM)"
    using assms by (rule task_invariant) (auto simp: new_task_def sigmask_main_def task_simps Let_def signal_numbers)
  then show ?thesis by blast
qed

definition sm_inv :: "task \<Rightarrow> bool" where
  "sm_inv t \<longleftrightarrow>
     (fate t = None \<or> fate t = Some (Exited 0) \<and> last (display t) = Line ''See you next time'' \<or>
       fate t = Some (Signaled SIGINT) \<and> display t = []) \<and>
     times_caught SIGALRM t \<le> 1 \<and> (armed t \<or> pending t SIGALRM \<or> at_line t \<le> 2 \<longrightarrow> times_caught SIGALRM t = 0) \<and>
     (armed t \<longrightarrow> \<not> pending t SIGALRM) \<and>
     (at_line t \<le> 2 \<longrightarrow> \<not> armed t \<and> \<not> pending t SIGALRM) \<and>
     (\<not> catches t SIGINT \<longrightarrow> at_line t \<le> 1 \<and> display t = []) \<and> (\<forall>s. pending t s \<longrightarrow> s = SIGALRM \<or> s = SIGINT) \<and>
     (1 \<le> at_line t \<longrightarrow> catches t SIGALRM)"

lemma caught_items [simp]:
  "times_caught s (show_item x t) = times_caught s t + (if x = Caught s then 1 else 0)"
  "times_caught s (t\<lparr>fate := f\<rparr>) = times_caught s t" "times_caught s (t\<lparr>pending := p\<rparr>) = times_caught s t"
  "times_caught s (t\<lparr>at_line := n\<rparr>) = times_caught s t" "times_caught s (t\<lparr>catches := c\<rparr>) = times_caught s t"
  "times_caught s (t\<lparr>blocked := c\<rparr>) = times_caught s t" "times_caught s (t\<lparr>armed := e\<rparr>) = times_caught s t"
  "times_caught s (t\<lparr>waiting := e\<rparr>) = times_caught s t"
  by (simp_all add: times_caught_def show_item_def)

lemma sm_main_inv: "sm_inv t \<Longrightarrow> fate t = None \<Longrightarrow> sm_inv (sm_main t)"
proof -
  assume t: "sm_inv t" "fate t = None"
  consider "at_line t = 0" | "at_line t = 1" | "at_line t = 2" | "at_line t = 3" | "4 \<le> at_line t" by linarith
  then show ?thesis
  proof cases
    case 5
    then show ?thesis using t by (auto simp: sm_inv_def sm_main_def hash_loop_def) (auto simp: show_item_def)
  qed (use t in \<open>simp_all add: sm_inv_def sm_main_def goes_to_def sys_sigaction_def sys_alarm_def sys_sigblock_def SIGINT_def SIGALRM_def\<close>)
qed

lemma sm_delivered:
  "catches t SIGALRM \<Longrightarrow> deliver sm_handler SIGALRM t =
    t\<lparr>pending := (pending t)(SIGALRM := False), waiting := False, display := display t @ [Caught SIGALRM]\<rparr>"
  "catches t SIGINT \<Longrightarrow> deliver sm_handler SIGINT t =
    t\<lparr>pending := (pending t)(SIGINT := False), waiting := False, fate := Some (Exited 0),
      display := display t @ [Caught SIGINT, Line ''See you next time'']\<rparr>"
  "\<not> catches t SIGINT \<Longrightarrow> deliver sm_handler SIGINT t =
    t\<lparr>pending := (pending t)(SIGINT := False), fate := Some (Signaled SIGINT)\<rparr>"
  by (simp_all add: deliver_def sm_handler_def task_simps Let_def signal_numbers)

lemma sm_deliver_inv: "sm_inv t \<Longrightarrow> fate t = None \<Longrightarrow> pending t s \<Longrightarrow> sm_inv (deliver sm_handler s t)"
proof -
  assume t: "sm_inv t" "fate t = None" "pending t s"
  have ne: "SIGALRM \<noteq> SIGINT" by (simp add: signal_numbers)
  consider "s = SIGALRM" "catches t SIGALRM" "catches t SIGINT" "3 \<le> at_line t" | "s = SIGINT" "catches t SIGINT"
    | "s = SIGINT" "\<not> catches t SIGINT"
    using t unfolding sm_inv_def by (metis One_nat_def Suc_leI linorder_not_less not_less_eq_eq numeral_2_eq_2 numeral_3_eq_3 le_SucI)
  then show ?thesis
  proof cases
    case 1
    then show ?thesis using t unfolding 1(1) sm_delivered(1) [OF 1(2)] by (simp add: sm_inv_def times_caught_def) blast
  next
    case 2
    then show ?thesis using t ne unfolding 2(1) sm_delivered(2) [OF 2(2)] by (simp add: sm_inv_def times_caught_def) blast
  next
    case 3
    then show ?thesis using t ne unfolding 3(1) sm_delivered(3) [OF 3(2)] by (simp add: sm_inv_def times_caught_def) blast
  qed
qed

lemma sm_run_inv:
  assumes "run (task_step sm_main sm_handler (\<lambda>s. s = SIGINT)) m new_task t"
  shows "sm_inv t"
proof (rule task_invariant [OF assms])
  show "sm_inv new_task" by (simp add: sm_inv_def new_task_def times_caught_def)
next
  fix t assume "sm_inv t" "fate t = None" "armed t"
  then show "sm_inv (t\<lparr>armed := False, pending := (pending t)(SIGALRM := True)\<rparr>)"
    by (simp add: sm_inv_def times_caught_def) blast
next
  fix t s assume "sm_inv t" "fate t = None" "s = SIGINT"
  then show "sm_inv (t\<lparr>pending := (pending t)(s := True)\<rparr>)" by (simp add: sm_inv_def times_caught_def signal_numbers) blast
qed (simp_all add: sm_main_inv sm_deliver_inv)

text \<open>
  sm.c, to which the user may send interrupts: its alarm is reported at most once, when it comes
  before it is blocked, and the program ends only by an interrupt, with its farewell unless the
  interrupt comes before the handler is in place.
\<close>

lemma sm_ends_by_interrupt:
  assumes "run (task_step sm_main sm_handler (\<lambda>s. s = SIGINT)) m new_task t"
  shows "times_caught SIGALRM t \<le> 1 \<and>
    (fate t = None \<or> fate t = Some (Exited 0) \<and> last (display t) = Line ''See you next time'' \<or>
     fate t = Some (Signaled SIGINT) \<and> display t = [])"
  using sm_run_inv [OF assms] by (simp add: sm_inv_def)

text \<open>
  suspend.c takes it that the alarm comes while it is in \<open>pause\<close>; when it comes before, nothing ends
  the \<open>pause\<close>.
\<close>

lemma suspend_may_hang:
  "\<exists>t. run (task_step suspend_main suspend_handler (\<lambda>s. False)) 6 new_task t \<and> fate t = None \<and>
    stuck (task_step suspend_main suspend_handler (\<lambda>s. False)) t"
proof -
  let ?step = "task_step suspend_main suspend_handler (\<lambda>s. False)"
  define t1 where "t1 = suspend_main new_task"
  define t2 where "t2 = suspend_main t1"
  define t3 where "t3 = t2\<lparr>armed := False, pending := (pending t2)(SIGALRM := True)\<rparr>"
  define t4 where "t4 = deliver suspend_handler SIGALRM t3"
  define t5 where "t5 = suspend_main t4"
  define t6 where "t6 = suspend_main t5"
  note defs = t1_def t2_def t3_def t4_def t5_def t6_def suspend_main_def suspend_handler_def task_simps new_task_def
    signal_numbers Let_def
  have "?step new_task t1" unfolding t1_def by (rule main_goes) (simp_all add: defs)
  then have "run ?step (Suc 0) new_task t1" by (blast intro: run_refl run_step)
  moreover have "?step t1 t2" unfolding t2_def by (rule main_goes) (simp_all add: defs)
  moreover have "?step t2 t3" unfolding t3_def by (rule alarm_expires) (simp_all add: defs)
  moreover have "?step t3 t4" unfolding t4_def by (rule signal_delivered) (simp_all add: defs)
  moreover have "?step t4 t5" unfolding t5_def by (rule main_goes) (simp_all add: defs)
  moreover have "?step t5 t6" unfolding t6_def by (rule main_goes) (simp_all add: defs)
  ultimately have "run ?step (Suc (Suc (Suc (Suc (Suc (Suc 0)))))) new_task t6" by (blast intro: run_step)
  then have "run ?step 6 new_task t6" by (simp add: eval_nat_numeral)
  moreover have "fate t6 = None" "waiting t6" "\<not> armed t6" "\<And>s. \<not> pending t6 s" by (simp_all add: defs)
  ultimately show ?thesis by (intro exI [of _ t6]) (auto simp: stuck_def elim!: task_stepE)
qed

text \<open>
  kill.c does not tell a failed \<open>fork\<close> from a child: it then sends SIGKILL to -1, which is every
  process it may send signals to.
\<close>

lemma kill_failed_fork: "kill_main (-1) = Some (-1, SIGKILL)" "0 < child \<Longrightarrow> kill_main child = Some (child, SIGKILL)"
  by (simp_all add: kill_main_def)

end
