(* ===== verification/FileSamples.thy ===== *)
theory FileSamples
  imports CStrings
begin

text \<open>
  Two of the samples on system calls, which work on the same file: Lab1/syscallexamples/files.c
  writes and reads demo.txt, lseek.c shows pieces of it. A disk has the contents of its files,
  the files that can be opened and created, and the number of bytes a write finds room for. An
  open file is its name with its offset.
\<close>

section \<open>Files\<close>

record disk =
  contents :: "string \<Rightarrow> string option"
  may_create :: "string \<Rightarrow> bool"
  may_open :: "string \<Rightarrow> bool"
  room :: nat
  errno :: nat

type_synonym open_desc = "string \<times> nat"

text \<open>\<open>creat\<close>, which is \<open>open\<close> with \<open>O_WRONLY | O_CREAT | O_TRUNC\<close>.\<close>

definition f_creat :: "string \<Rightarrow> disk \<Rightarrow> open_desc option \<times> disk" where
  "f_creat name d =
     (if may_create d name then (Some (name, 0), d\<lparr>contents := (contents d)(name \<mapsto> [])\<rparr>) else (None, d))"

definition f_open :: "string \<Rightarrow> disk \<Rightarrow> open_desc option" where
  "f_open name d = (if may_open d name \<and> contents d name \<noteq> None then Some (name, 0) else None)"

definition content :: "open_desc \<Rightarrow> disk \<Rightarrow> string" where
  "content fd d = (case contents d (fst fd) of None \<Rightarrow> [] | Some s \<Rightarrow> s)"

definition f_write :: "open_desc \<Rightarrow> string \<Rightarrow> disk \<Rightarrow> open_desc \<times> disk" where
  "f_write fd bs d =
     (let w = take (room d) bs; s = content fd d
      in ((fst fd, snd fd + length w),
          d\<lparr>contents := (contents d)(fst fd \<mapsto> take (snd fd) s @ w @ drop (snd fd + length w) s)\<rparr>))"

definition f_read :: "open_desc \<Rightarrow> nat \<Rightarrow> disk \<Rightarrow> string \<times> open_desc" where
  "f_read fd n d = (let bs = take n (drop (snd fd) (content fd d)) in (bs, (fst fd, snd fd + length bs)))"

text \<open>An array of characters, \<open>None\<close> where nothing has been stored; what \<open>%s\<close> prints of it.\<close>

definition store_bytes :: "string \<Rightarrow> char option list \<Rightarrow> char option list" where
  "store_bytes bs msg = map Some bs @ drop (length bs) msg"

fun text_in :: "char option list \<Rightarrow> string res" where
  "text_in [] = Inl Out_Of_Bounds"
| "text_in (None # cs) = Inl Uninit_Read"
| "text_in (Some c # cs) = (if c = NUL then Inr [] else bind_res (text_in cs) (\<lambda>s. Inr (c # s)))"

text \<open>\<open>error\<close>: what it prints to the standard output, and the exit status.\<close>

definition error_exit :: "string \<Rightarrow> disk \<Rightarrow> int \<times> string" where
  "error_exit out d = (1, out @ ''errno='' @ decimal (errno d) @ [CHR 0x0A])"

section \<open>files.c\<close>

definition hello :: string where "hello = ''Hello World!''"

text \<open>One half of \<open>main\<close>: create a file, write the message, read it back and print it.\<close>

definition write_and_read :: "string \<Rightarrow> char option list \<Rightarrow> string \<Rightarrow> disk
    \<Rightarrow> ((int \<times> string) + (char option list \<times> string)) res \<times> disk" where
  "write_and_read name msg out d =
     (case f_creat name d of
        (None, d1) \<Rightarrow> (Inr (Inl (error_exit out d1)), d1)
      | (Some fd, d1) \<Rightarrow>
          (case text_in msg of
             Inl u \<Rightarrow> (Inl u, d1)
           | Inr s \<Rightarrow>
               (case f_write fd (s @ [NUL]) d1 of (fd1, d2) \<Rightarrow>
                (case f_open name d2 of
                   None \<Rightarrow> (Inr (Inl (error_exit out d2)), d2)
                 | Some fd2 \<Rightarrow>
                     (case f_read fd2 32 d2 of (bs, fd3) \<Rightarrow>
                        let msg1 = store_bytes bs msg
                        in (bind_res (text_in msg1) (\<lambda>s1.
                              Inr (Inr (msg1, out @ decimal (length bs) @ '': '' @ s1 @ [CHR 0x0A]))), d2))))))"

definition files_main :: "disk \<Rightarrow> (int \<times> string) res \<times> disk" where
  "files_main d =
     (case write_and_read ''demo.txt'' (map Some hello @ replicate 20 (Some NUL)) [] d of
        (Inl u, d1) \<Rightarrow> (Inl u, d1)
      | (Inr (Inl e), d1) \<Rightarrow> (Inr e, d1)
      | (Inr (Inr (msg, out)), d1) \<Rightarrow>
          (case write_and_read ''demo2.txt'' msg out d1 of
             (Inl u, d2) \<Rightarrow> (Inl u, d2)
           | (Inr (Inl e), d2) \<Rightarrow> (Inr e, d2)
           | (Inr (Inr (msg1, out1)), d2) \<Rightarrow> (Inr (0, out1), d2)))"

section \<open>lseek.c\<close>

definition CHUNK :: nat where "CHUNK = 16"

text \<open>The body of both loops, at an offset of the file: the message and what is printed.\<close>

definition show_chunk :: "open_desc \<Rightarrow> nat \<Rightarrow> char option list \<Rightarrow> disk \<Rightarrow> (char option list \<times> string) res" where
  "show_chunk fd off msg d =
     (let msg1 = (store_bytes (fst (f_read (fst fd, off) (CHUNK - 1) d)) msg)[CHUNK - 1 := Some NUL]
      in bind_res (text_in msg1) (\<lambda>s. Inr (msg1, s @ [CHR 0x0A])))"

function forward_loop :: "open_desc \<Rightarrow> int \<Rightarrow> int \<Rightarrow> char option list \<Rightarrow> string \<Rightarrow> disk
    \<Rightarrow> (char option list \<times> string) res" where
  "forward_loop fd len pos msg out d =
     (if pos < len - int CHUNK + 1
      then bind_res (show_chunk fd (nat pos) msg d) (\<lambda>(msg1, o1). forward_loop fd len (pos + 1) msg1 (out @ o1) d)
      else Inr (msg, out))"
  by pat_completeness auto
termination by (relation "measure (\<lambda>(fd, len, pos, msg, out, d). nat (len - int CHUNK + 1 - pos))") auto

function backward_loop :: "open_desc \<Rightarrow> int \<Rightarrow> int \<Rightarrow> char option list \<Rightarrow> string \<Rightarrow> disk
    \<Rightarrow> (char option list \<times> string) res" where
  "backward_loop fd len pos msg out d =
     (if pos \<le> len
      then bind_res (show_chunk fd (nat (int (length (content fd d)) - pos)) msg d)
             (\<lambda>(msg1, o1). backward_loop fd len (pos + 1) msg1 (out @ o1) d)
      else Inr (msg, out))"
  by pat_completeness auto
termination by (relation "measure (\<lambda>(fd, len, pos, msg, out, d). nat (len + 1 - pos))") auto

declare forward_loop.simps [simp del] backward_loop.simps [simp del]

text \<open>\<open>main\<close>; the length is converted to an int.\<close>

definition lseek_main :: "disk \<Rightarrow> (int \<times> string) res" where
  "lseek_main d =
     (case f_open ''demo.txt'' d of
        None \<Rightarrow> Inr (error_exit [] d)
      | Some fd \<Rightarrow>
          let len = sint (word_of_nat (length (content fd d)) :: 32 word)
          in bind_res (forward_loop fd len 0 (replicate CHUNK None) (''len='' @ decimal_int len @ [CHR 0x0A]) d)
               (\<lambda>(msg, out).
             bind_res (backward_loop fd len (int CHUNK) msg (out @ ''###############'' @ [CHR 0x0A]) d)
               (\<lambda>(msg1, out1). Inr (0, out1))))"

section \<open>What they print\<close>

text \<open>The pieces of 15 characters of a file, and a printed line.\<close>

definition windows :: "string \<Rightarrow> string list" where
  "windows c = map (\<lambda>p. cstr (take 15 (drop p c))) [0..<length c - 15]"

definition print_line :: "string \<Rightarrow> string" where
  "print_line s = s @ [CHR 0x0A]"

lemma text_in_stored: "text_in (map Some s @ Some NUL # rest) = Inr (cstr s)"
  by (induction s) (simp_all add: cstr_def)

lemma show_chunk_window:
  assumes "content fd d = c" "off < length c - 15" "length msg = 16"
  shows "\<exists>msg1. show_chunk fd off msg d = Inr (msg1, print_line (windows c ! off)) \<and> length msg1 = 16"
proof -
  let ?w = "take 15 (drop off c)"
  have l: "length ?w = 15" using assms(2) by simp
  have rd: "fst (f_read (fst fd, off) (CHUNK - 1) d) = ?w"
    using assms(1) by (simp add: f_read_def CHUNK_def content_def)
  have one: "length (drop 15 msg) = 1" using assms(3) by simp
  have "(map Some ?w @ drop 15 msg)[15 := Some NUL] = map Some ?w @ [Some NUL]"
    using one l by (cases "drop 15 msg") (simp_all add: list_update_append)
  then have "(store_bytes ?w msg)[CHUNK - 1 := Some NUL] = map Some ?w @ [Some NUL]"
    using l by (simp add: store_bytes_def CHUNK_def)
  then have "show_chunk fd off msg d = Inr (map Some ?w @ [Some NUL], cstr ?w @ [CHR 0x0A])"
    unfolding show_chunk_def Let_def rd by (simp add: text_in_stored)
  then show ?thesis using assms(2) l by (simp add: windows_def print_line_def)
qed

lemma forward_loop_windows:
  assumes "content fd d = c" "length msg = 16"
  shows "\<exists>msg1. forward_loop fd (int (length c)) (int k) msg out d =
    Inr (msg1, out @ concat (map print_line (drop k (windows c)))) \<and> length msg1 = 16"
  using assms(2)
proof (induction "length c - 15 - k" arbitrary: k msg out)
  case 0
  then show ?case by (subst forward_loop.simps) (simp add: CHUNK_def windows_def)
next
  case (Suc m)
  then have k: "k < length c - 15" by simp
  obtain msg1 where m: "show_chunk fd k msg d = Inr (msg1, print_line (windows c ! k))" "length msg1 = 16"
    using show_chunk_window [OF assms(1) k Suc(3)] by blast
  have d: "drop k (windows c) = windows c ! k # drop (Suc k) (windows c)"
    using k by (intro Cons_nth_drop_Suc [symmetric]) (simp add: windows_def)
  have g: "int k < int (length c) - int CHUNK + 1" using k by (simp add: CHUNK_def)
  have "int k + 1 = int (Suc k)" by simp
  then show ?case
    using Suc(1) [of "Suc k" msg1 "out @ print_line (windows c ! k)"] Suc(2) m g
    by (subst forward_loop.simps) (simp add: d add.commute)
qed

lemma backward_loop_windows:
  assumes "content fd d = c" "length msg = 16" "k \<le> length c - 15"
  shows "\<exists>msg1. backward_loop fd (int (length c)) (int (length c) - int k + 1) msg out d =
    Inr (msg1, out @ concat (map print_line (rev (take k (windows c)))))"
  using assms(2,3)
proof (induction k arbitrary: msg out)
  case 0
  then show ?case by (subst backward_loop.simps) simp
next
  case (Suc k)
  then have k: "k < length c - 15" by simp
  obtain msg1 where m: "show_chunk fd k msg d = Inr (msg1, print_line (windows c ! k))" "length msg1 = 16"
    using show_chunk_window [OF assms(1) k Suc(2)] by blast
  have t: "take (Suc k) (windows c) = take k (windows c) @ [windows c ! k]"
    using k by (simp add: take_Suc_conv_app_nth windows_def)
  show ?case
    using Suc.IH [of msg1 "out @ print_line (windows c ! k)"] m k assms(1)
    by (subst backward_loop.simps) (simp add: t)
qed

lemma lseek_main_files:
  assumes "may_open d ''demo.txt''" "contents d ''demo.txt'' = Some c" "length c < 2 ^ 31"
  shows "lseek_main d = Inr (0, ''len='' @ decimal (length c) @ [CHR 0x0A] @ concat (map print_line (windows c)) @
    ''###############'' @ [CHR 0x0A] @ concat (map print_line (rev (windows c))))"
proof -
  let ?fd = "(''demo.txt'', 0 :: nat)"
  have op: "f_open ''demo.txt'' d = Some ?fd" "content ?fd d = c"
    using assms(1,2) by (simp_all add: f_open_def content_def)
  have len: "sint (word_of_nat (length c) :: 32 word) = int (length c)"
    using assms(3) by (simp add: signed_of_nat signed_take_bit_int_eq_self)
  let ?o1 = "''len='' @ decimal (length c) @ [CHR 0x0A]"
  obtain msg1 where f: "forward_loop ?fd (int (length c)) 0 (replicate 16 None) ?o1 d =
      Inr (msg1, ?o1 @ concat (map print_line (windows c)))" "length msg1 = 16"
    using forward_loop_windows [OF op(2), of "replicate 16 None" 0 ?o1] by auto
  have b: "\<exists>msg2. backward_loop ?fd (int (length c)) 16 msg1 out d =
      Inr (msg2, out @ concat (map print_line (rev (windows c))))" for out
  proof (cases "15 \<le> length c")
    case True
    then have "int (length c) - int (length c - 15) + 1 = 16" by simp
    then show ?thesis
      using backward_loop_windows [OF op(2) f(2), of "length c - 15" out] by (simp add: windows_def)
  next
    case False
    then show ?thesis by (subst backward_loop.simps) (simp add: windows_def)
  qed
  obtain msg2 where "backward_loop ?fd (int (length c)) 16 msg1
      ((?o1 @ concat (map print_line (windows c))) @ ''###############'' @ [CHR 0x0A]) d =
      Inr (msg2, ((?o1 @ concat (map print_line (windows c))) @ ''###############'' @ [CHR 0x0A]) @
        concat (map print_line (rev (windows c))))"
    using b by blast
  then show ?thesis
    unfolding lseek_main_def op option.case Let_def len
    using f(1) by (simp add: CHUNK_def decimal_int_def)
qed

text \<open>
  lseek.c shows every piece of 15 characters of its file twice: first from the start to the end
  and, below the line, in the reverse order. A file of fewer than 16 characters has no piece shown.
\<close>

theorem lseek_shows_windows:
  assumes "may_open d ''demo.txt''" "contents d ''demo.txt'' = Some c" "length c < 2 ^ 31"
  shows "lseek_main d = Inr (0, ''len='' @ decimal (length c) @ [CHR 0x0A] @ concat (map print_line (windows c)) @
    ''###############'' @ [CHR 0x0A] @ concat (map print_line (rev (windows c))))"
  using assms by (rule lseek_main_files)

text \<open>
  files.c writes the message to demo.txt and demo2.txt and reads exactly what it wrote, NUL
  included, back from both: run on its disk afterwards, lseek.c finds 13 characters, which are too
  few for a piece.
\<close>

theorem files_roundtrip:
  assumes "\<forall>f. may_create d f \<and> may_open d f" "13 \<le> room d"
  shows "\<exists>d1. files_main d = (Inr (0, ''13: Hello World!'' @ [CHR 0x0A] @ ''13: Hello World!'' @ [CHR 0x0A]), d1) \<and>
    contents d1 = (contents d)(''demo.txt'' \<mapsto> hello @ [NUL], ''demo2.txt'' \<mapsto> hello @ [NUL]) \<and>
    lseek_main d1 = Inr (0, ''len=13'' @ [CHR 0x0A] @ ''###############'' @ [CHR 0x0A])"
proof -
  let ?msg = "map Some hello @ replicate 20 (Some NUL)"
  have thirteen: "decimal 13 = ''13''"
  proof -
    have "char_of (49 :: nat) = CHR ''1''" "char_of (51 :: nat) = CHR ''3''" by code_simp+
    then show ?thesis by (simp add: decimal.simps)
  qed
  have h: "cstr hello = hello" "length hello = 12" by (simp_all add: hello_def cstr_def NUL_def)
  have r20: "replicate 20 (Some NUL) = Some NUL # replicate 19 (Some NUL)" by (simp flip: replicate_Suc)
  have whole: "text_in ?msg = Inr hello"
    using text_in_stored [of hello] h(1) r20 by simp
  have one: "write_and_read name ?msg out e =
      (Inr (Inr (?msg, out @ ''13: Hello World!'' @ [CHR 0x0A])), e\<lparr>contents := (contents e)(name \<mapsto> hello @ [NUL])\<rparr>)"
    if e: "may_create e name" "may_open e name" "13 \<le> room e" for name out e
  proof -
    have "take (room e) (hello @ [NUL]) = hello @ [NUL]" using e(3) h(2) by simp
    then have w: "f_write (name, 0) (hello @ [NUL]) (e\<lparr>contents := (contents e)(name \<mapsto> [])\<rparr>) =
        ((name, 13), e\<lparr>contents := (contents e)(name \<mapsto> hello @ [NUL])\<rparr>)"
      using h(2) by (simp add: f_write_def content_def Let_def)
    have rd: "f_read (name, 0) 32 (e\<lparr>contents := (contents e)(name \<mapsto> hello @ [NUL])\<rparr>) = (hello @ [NUL], (name, 13))"
      using h(2) by (simp add: f_read_def content_def)
    have s: "store_bytes (hello @ [NUL]) ?msg = ?msg" using h(2) r20 by (simp add: store_bytes_def)
    show ?thesis
      using e whole h thirteen
      by (simp add: write_and_read_def f_creat_def f_open_def w rd s) (simp add: hello_def)
  qed
  let ?d1 = "d\<lparr>contents := (contents d)(''demo.txt'' \<mapsto> hello @ [NUL])\<rparr>"
  let ?d2 = "?d1\<lparr>contents := (contents ?d1)(''demo2.txt'' \<mapsto> hello @ [NUL])\<rparr>"
  have "files_main d = (Inr (0, ''13: Hello World!'' @ [CHR 0x0A] @ ''13: Hello World!'' @ [CHR 0x0A]), ?d2)"
    using one [of d "''demo.txt''" "[]"] one [of ?d1 "''demo2.txt''"] assms by (simp add: files_main_def)
  moreover have "windows (hello @ [NUL]) = []" using h(2) by (simp add: windows_def)
  then have "lseek_main ?d2 = Inr (0, ''len=13'' @ [CHR 0x0A] @ ''###############'' @ [CHR 0x0A])"
    using lseek_main_files assms h(2) thirteen by simp
  ultimately show ?thesis by auto
qed

section \<open>Witnesses\<close>

definition sample_disk :: disk where
  "sample_disk = \<lparr>contents = [''demo.txt'' \<mapsto> ''abcdefghijklmnopq''], may_create = (\<lambda>f. True),
     may_open = (\<lambda>f. True), room = 100, errno = 0\<rparr>"

theorem lseek_shows_windows_witness:
  "lseek_main sample_disk = Inr (0, ''len=17'' @ [CHR 0x0A] @
    ''abcdefghijklmno'' @ [CHR 0x0A] @ ''bcdefghijklmnop'' @ [CHR 0x0A] @ ''###############'' @ [CHR 0x0A] @
    ''bcdefghijklmnop'' @ [CHR 0x0A] @ ''abcdefghijklmno'' @ [CHR 0x0A])"
proof -
  have "decimal (length ''abcdefghijklmnopq'') = ''17''"
  proof -
    have "char_of (49 :: nat) = CHR ''1''" "char_of (55 :: nat) = CHR ''7''" by code_simp+
    then show ?thesis by (simp add: decimal.simps)
  qed
  moreover have "windows ''abcdefghijklmnopq'' = [''abcdefghijklmno'', ''bcdefghijklmnop'']"
    by (simp add: windows_def cstr_def NUL_def upt_rec)
  ultimately show ?thesis
    using lseek_shows_windows [of sample_disk "''abcdefghijklmnopq''"]
    by (simp add: sample_disk_def print_line_def)
qed

theorem files_roundtrip_witness:
  "\<exists>d1. files_main sample_disk = (Inr (0, ''13: Hello World!'' @ [CHR 0x0A] @ ''13: Hello World!'' @ [CHR 0x0A]), d1) \<and>
    lseek_main d1 = Inr (0, ''len=13'' @ [CHR 0x0A] @ ''###############'' @ [CHR 0x0A])"
proof -
  have "\<forall>f. may_create sample_disk f \<and> may_open sample_disk f" "13 \<le> room sample_disk"
    by (simp_all add: sample_disk_def)
  from files_roundtrip [OF this] show ?thesis by blast
qed

end
