(* ===== verification/PipeSamples.thy ===== *)
theory PipeSamples
  imports Runs Posix FileSamples
begin

text \<open>
  The samples on pipes and processes (Lab1/syscallexamples). pipe.c and fcntl.c: a parent that
  writes a message to a pipe and a child that reads and prints it, in fcntl.c without blocking and
  in a loop, as one step relation. fork.c and fork2.c: what \<open>waitpid\<close> tells of the child. stdio.c:
  what is typed is read into an array and printed. brk.c: the data segment grows until it may not.
\<close>

section \<open>pipe.c and fcntl.c\<close>

text \<open>
  Where the processes are, the child with its array \<open>msg\<close>. A child that was not forked is \<open>C_Absent\<close>.
\<close>

datatype parent_at = P_Close | P_Write | P_Wait | P_Gone | P_Killed
datatype child_at = C_Absent | C_Close | C_Read "char option list" | C_Print "char option list" | C_Wait | C_Gone

record talk =
  writer :: parent_at
  reader :: child_at
  channel :: "char option list"
  printed :: string
  bad :: "ub option"

definition greeting :: string where "greeting = ''Hello world!'' @ [CHR 0x0A]"
definition blank :: "char option list" where "blank = replicate 256 None"

text \<open>The parent's array after \<open>sprintf\<close>; all its 256 bytes are written.\<close>

definition message :: "char option list" where "message = store_bytes (greeting @ [NUL]) blank"

definition reader_alive :: "talk \<Rightarrow> bool" where
  "reader_alive s \<longleftrightarrow> reader s \<noteq> C_Absent \<and> reader s \<noteq> C_Gone"

text \<open>
  The parent closes its read end, so that the child is the only reader: a write without one kills
  it. A pipe has room for a message.
\<close>

definition talk_parent :: "talk \<Rightarrow> talk option" where
  "talk_parent s =
     (case writer s of
        P_Close \<Rightarrow> Some (s\<lparr>writer := P_Write\<rparr>)
      | P_Write \<Rightarrow>
          if reader_alive s then Some (s\<lparr>writer := P_Wait, channel := channel s @ message\<rparr>)
          else Some (s\<lparr>writer := P_Killed\<rparr>)
      | P_Wait \<Rightarrow> if reader_alive s then None else Some (s\<lparr>writer := P_Gone\<rparr>)
      | _ \<Rightarrow> None)"

definition talk_child :: "bool \<Rightarrow> talk \<Rightarrow> talk option" where
  "talk_child nonblock s =
     (case reader s of
        C_Close \<Rightarrow> Some (s\<lparr>reader := C_Read blank\<rparr>)
      | C_Read msg \<Rightarrow>
          if channel s \<noteq> []
          then Some (s\<lparr>reader := C_Print (take 256 (channel s) @ drop (length (channel s)) msg), channel := drop 256 (channel s)\<rparr>)
          else if nonblock then Some (s\<lparr>printed := printed s @ ''#''\<rparr>)
          else if writer s = P_Gone \<or> writer s = P_Killed then Some (s\<lparr>reader := C_Print msg\<rparr>)
          else None
      | C_Print msg \<Rightarrow>
          (case text_in msg of
             Inl e \<Rightarrow> Some (s\<lparr>reader := C_Gone, bad := Some e\<rparr>)
           | Inr t \<Rightarrow> Some (s\<lparr>reader := C_Wait, printed := printed s @ t\<rparr>))
      | C_Wait \<Rightarrow> Some (s\<lparr>reader := C_Gone\<rparr>)
      | _ \<Rightarrow> None)"

inductive talk_step :: "bool \<Rightarrow> talk \<Rightarrow> talk \<Rightarrow> bool" for nonblock where
  parent_step: "talk_parent s = Some s' \<Longrightarrow> talk_step nonblock s s'"
| child_step: "talk_child nonblock s = Some s' \<Longrightarrow> talk_step nonblock s s'"

inductive_cases talk_stepE: "talk_step nonblock s s'"

text \<open>
  The start of \<open>main\<close>, up to the \<open>fork\<close>: without a pipe it returns EXIT_FAILURE, after its message to
  the standard error; the answer of \<open>fork\<close> is compared with 0 only.
\<close>

definition forked_talk :: "bool \<Rightarrow> talk" where
  "forked_talk fork_ok = \<lparr>writer = P_Close, reader = (if fork_ok then C_Close else C_Absent), channel = [], printed = [],
     bad = None\<rparr>"

definition talk_start :: "bool \<Rightarrow> bool \<Rightarrow> (int \<times> string) + talk" where
  "talk_start piped fork_ok =
     (if \<not> piped then Inl (1, ''Could not make pipe'' @ [CHR 0x0A]) else Inr (forked_talk fork_ok))"

lemma talk_start_cases:
  "talk_start piped fork_ok = Inr s \<longleftrightarrow> piped \<and> s = forked_talk fork_ok"
  "talk_start piped fork_ok = Inl e \<longleftrightarrow> \<not> piped \<and> e = (1, ''Could not make pipe'' @ [CHR 0x0A])"
  by (auto simp: talk_start_def)

fun parent_rank :: "parent_at \<Rightarrow> nat" where
  "parent_rank P_Close = 0"
| "parent_rank P_Write = 1"
| "parent_rank P_Wait = 2"
| "parent_rank _ = 3"

fun child_rank :: "child_at \<Rightarrow> nat" where
  "child_rank (C_Read msg) = 1"
| "child_rank (C_Print msg) = 2"
| "child_rank C_Wait = 3"
| "child_rank C_Gone = 4"
| "child_rank _ = 0"

definition talk_rank :: "talk \<Rightarrow> nat" where
  "talk_rank s = parent_rank (writer s) + child_rank (reader s)"

definition has_printed :: "child_at \<Rightarrow> bool" where
  "has_printed c \<longleftrightarrow> c = C_Wait \<or> c = C_Gone"

text \<open>The invariant, with the number of hash signs the child has printed.\<close>

definition talk_ok :: "nat \<Rightarrow> talk \<Rightarrow> bool" where
  "talk_ok h s \<longleftrightarrow> bad s = None \<and> printed s = replicate h (CHR ''#'') @ (if has_printed (reader s) then greeting else []) \<and>
     ((writer s = P_Close \<or> writer s = P_Write) \<and> channel s = [] \<and> (reader s = C_Close \<or> reader s = C_Read blank) \<or>
      writer s = P_Wait \<and> channel s = message \<and> (reader s = C_Close \<or> reader s = C_Read blank) \<or>
      writer s = P_Wait \<and> channel s = [] \<and> (reader s = C_Print message \<or> has_printed (reader s)) \<or>
      writer s = P_Gone \<and> channel s = [] \<and> reader s = C_Gone)"

lemma message_facts [simp]: "length message = 256" "message \<noteq> []" "[] \<noteq> message" "length blank = 256" "text_in message = Inr greeting"
proof -
  show l: "length message = 256" "length blank = 256" by (simp_all add: message_def store_bytes_def blank_def greeting_def)
  then have ne: "message \<noteq> []" by force
  show "message \<noteq> []" by (rule ne)
  show "[] \<noteq> message" by (rule ne [symmetric])
  show "text_in message = Inr greeting"
    unfolding message_def store_bytes_def greeting_def by (simp add: NUL_def)
qed

lemma talk_step_ok:
  assumes "talk_ok h s" "talk_step nonblock s s'"
  shows "talk_ok h s' \<and> talk_rank s' = Suc (talk_rank s) \<or>
    nonblock \<and> talk_ok (Suc h) s' \<and> talk_rank s' = talk_rank s"
  using assms(2)
proof cases
  case parent_step
  show ?thesis
  proof (cases "writer s")
    case P_Close
    then have s': "s' = s\<lparr>writer := P_Write\<rparr>" using parent_step by (simp add: talk_parent_def)
    show ?thesis unfolding s' using assms(1) P_Close by (simp add: talk_ok_def talk_rank_def)
  next
    case P_Write
    then have c: "reader s = C_Close \<or> reader s = C_Read blank" "channel s = []" using assms(1) by (auto simp: talk_ok_def)
    then have s': "s' = s\<lparr>writer := P_Wait, channel := message\<rparr>"
      using parent_step P_Write by (auto simp: talk_parent_def reader_alive_def)
    show ?thesis unfolding s' using assms(1) P_Write c(1) by (simp add: talk_ok_def talk_rank_def)
  next
    case P_Wait
    then have c: "reader s = C_Gone"
      using assms(1) parent_step by (auto simp: talk_ok_def talk_parent_def reader_alive_def has_printed_def split: if_splits)
    then have s': "s' = s\<lparr>writer := P_Gone\<rparr>" using parent_step P_Wait by (simp add: talk_parent_def reader_alive_def)
    show ?thesis unfolding s' using assms(1) P_Wait c by (simp add: talk_ok_def talk_rank_def)
  qed (use parent_step in \<open>simp_all add: talk_parent_def\<close>)
next
  case child_step
  show ?thesis
  proof (cases "reader s")
    case C_Close
    then have s': "s' = s\<lparr>reader := C_Read blank\<rparr>" using child_step by (simp add: talk_child_def)
    show ?thesis unfolding s' using assms(1) C_Close by (auto simp: talk_ok_def talk_rank_def has_printed_def)
  next
    case (C_Read msg)
    then have msg: "msg = blank" "channel s = [] \<or> channel s = message" "channel s = message \<longrightarrow> writer s = P_Wait"
      "writer s \<noteq> P_Gone" "writer s \<noteq> P_Killed"
      using assms(1) by (auto simp: talk_ok_def has_printed_def)
    show ?thesis
    proof (cases "channel s = []")
      case True
      then have s': "nonblock" "s' = s\<lparr>printed := printed s @ ''#''\<rparr>"
        using child_step C_Read msg(4,5) by (auto simp: talk_child_def split: if_splits)
      show ?thesis unfolding s'(2) using assms(1) C_Read s'(1)
        by (simp add: talk_ok_def talk_rank_def has_printed_def replicate_append_same)
    next
      case False
      then have s': "s' = s\<lparr>reader := C_Print message, channel := []\<rparr>"
        using child_step C_Read msg(1,2) by (auto simp: talk_child_def)
      show ?thesis unfolding s' using assms(1) C_Read msg(3) msg(2) False
        by (simp add: talk_ok_def talk_rank_def has_printed_def)
    qed
  next
    case (C_Print msg)
    then have "msg = message" using assms(1) by (auto simp: talk_ok_def has_printed_def)
    then have s': "s' = s\<lparr>reader := C_Wait, printed := printed s @ greeting\<rparr>"
      using child_step C_Print by (simp add: talk_child_def)
    show ?thesis unfolding s' using assms(1) C_Print by (simp add: talk_ok_def talk_rank_def has_printed_def)
  next
    case C_Wait
    then have s': "s' = s\<lparr>reader := C_Gone\<rparr>" using child_step by (simp add: talk_child_def)
    show ?thesis unfolding s' using assms(1) C_Wait by (simp add: talk_ok_def talk_rank_def has_printed_def)
  qed (use child_step in \<open>simp_all add: talk_child_def\<close>)
qed

lemma talk_goes_on:
  assumes "talk_ok h s" "writer s \<noteq> P_Gone"
  shows "\<exists>s'. talk_step nonblock s s' \<and> talk_ok h s' \<and> talk_rank s' = Suc (talk_rank s)"
proof -
  have "(\<exists>s'. talk_parent s = Some s' \<and> talk_ok h s' \<and> talk_rank s' = Suc (talk_rank s)) \<or>
      (\<exists>s'. talk_child nonblock s = Some s' \<and> talk_ok h s' \<and> talk_rank s' = Suc (talk_rank s))"
    using assms
    by (auto simp: talk_parent_def talk_child_def talk_ok_def talk_rank_def has_printed_def reader_alive_def)
  then show ?thesis by (blast intro: talk_step.intros)
qed

lemma talk_rank_bound: "talk_ok h s \<Longrightarrow> talk_rank s \<le> 7 \<and> (talk_rank s = 7 \<longleftrightarrow> writer s = P_Gone)"
  by (auto simp: talk_ok_def talk_rank_def has_printed_def)

lemma talk_start_ok: "talk_ok 0 (forked_talk True)" "talk_rank (forked_talk True) = 0"
  by (simp_all add: talk_ok_def forked_talk_def talk_rank_def has_printed_def)

interpretation talking: progressing "talk_step False" "\<lambda>k s. talk_ok 0 s \<and> k = talk_rank s" "\<lambda>s. writer s = P_Gone" 7
proof (unfold_locales, goal_cases)
  case (1 k s s')
  then show ?case using talk_step_ok [of 0 s False s'] by auto
next
  case (2 k s)
  then show ?case using talk_rank_bound by blast
next
  case (3 k s)
  then show ?case using talk_goes_on [of 0 s False] by blast
next
  case (4 k s)
  then show ?case using talk_rank_bound [of 0 s] by simp
qed

lemma talk_run_ok:
  "run (talk_step nonblock) m s s' \<Longrightarrow> talk_ok h s \<Longrightarrow> \<exists>g. talk_ok g s' \<and> talk_rank s' + g = talk_rank s + h + m \<and> h \<le> g \<and>
    (\<not> nonblock \<longrightarrow> g = h)"
proof (induction rule: run.induct)
  case (run_step m s s1 s2)
  then obtain g where g: "talk_ok g s1" "talk_rank s1 + g = talk_rank s + h + m" "h \<le> g" "\<not> nonblock \<longrightarrow> g = h" by blast
  from talk_step_ok [OF g(1) run_step.hyps(2)] show ?case
  proof
    assume "talk_ok g s2 \<and> talk_rank s2 = Suc (talk_rank s1)"
    then show ?thesis using g by (intro exI [of _ g]) simp
  next
    assume "nonblock \<and> talk_ok (Suc g) s2 \<and> talk_rank s2 = talk_rank s1"
    then show ?thesis using g by (intro exI [of _ "Suc g"]) simp
  qed
qed auto

lemma talk_can_end: "talk_ok h s \<Longrightarrow> \<exists>s'. run (talk_step nonblock) (7 - talk_rank s) s s' \<and> talk_ok h s' \<and> writer s' = P_Gone"
proof (induction "7 - talk_rank s" arbitrary: s)
  case 0
  then have "talk_rank s = 7" using talk_rank_bound [of h s] by simp
  then show ?case using 0 talk_rank_bound [of h s] by (auto intro: run_refl)
next
  case (Suc n)
  then have "writer s \<noteq> P_Gone" using talk_rank_bound [of h s] by auto
  then obtain s1 where s1: "talk_step nonblock s s1" "talk_ok h s1" "talk_rank s1 = Suc (talk_rank s)"
    using talk_goes_on Suc.prems by blast
  then obtain s' where s': "run (talk_step nonblock) (7 - talk_rank s1) s1 s'" "talk_ok h s'" "writer s' = P_Gone"
    using Suc.hyps(1) [of s1] Suc.hyps(2) by force
  have "7 - talk_rank s = Suc (7 - talk_rank s1)" using Suc.hyps(2) s1(3) by simp
  then show ?case using run_first [where step = "talk_step nonblock", OF s1(1) s'(1)] s'(2,3) by auto
qed

text \<open>Neither program looks at a failed \<open>fork\<close>: the parent is then killed when it writes.\<close>

lemma unforked_run:
  "run (talk_step nonblock) m s s' \<Longrightarrow> s = forked_talk False \<Longrightarrow>
    m = 0 \<and> s' = s \<or> m = 1 \<and> s' = s\<lparr>writer := P_Write\<rparr> \<or> m = 2 \<and> s' = s\<lparr>writer := P_Killed\<rparr>"
proof (induction rule: run.induct)
  case (run_step m s s1 s2)
  then have "m = 0 \<and> s1 = s \<or> m = 1 \<and> s1 = s\<lparr>writer := P_Write\<rparr> \<or> m = 2 \<and> s1 = s\<lparr>writer := P_Killed\<rparr>" by simp
  with run_step.hyps(2) run_step.prems show ?case
    by (auto elim!: talk_stepE simp: talk_parent_def talk_child_def forked_talk_def reader_alive_def)
qed simp

lemma unforked_goes_on:
  "talk_step nonblock (forked_talk False) (forked_talk False\<lparr>writer := P_Write\<rparr>)"
  "talk_step nonblock (forked_talk False\<lparr>writer := P_Write\<rparr>) (forked_talk False\<lparr>writer := P_Killed\<rparr>)"
  by (rule parent_step, simp add: talk_parent_def forked_talk_def reader_alive_def)+

lemma unforked_stuck:
  assumes "run (talk_step nonblock) m (forked_talk False) s" "stuck (talk_step nonblock) s"
  shows "m = 2 \<and> writer s = P_Killed \<and> printed s = []"
  using unforked_run [OF assms(1) refl] assms(2) unforked_goes_on [of nonblock]
  by (auto simp: stuck_def) (simp add: forked_talk_def)

lemma talk_fork_fails:
  "\<exists>s. run (talk_step nonblock) 2 (forked_talk False) s \<and> writer s = P_Killed \<and> printed s = []"
proof -
  have "run (talk_step nonblock) (Suc (Suc 0)) (forked_talk False) (forked_talk False\<lparr>writer := P_Killed\<rparr>)"
    using unforked_goes_on [of nonblock] by (blast intro: run.intros)
  then show ?thesis
    by (intro exI [of _ "forked_talk False\<lparr>writer := P_Killed\<rparr>"]) (simp add: numeral_2_eq_2 forked_talk_def)
qed

lemma forked_stuck:
  assumes "run (talk_step False) m (forked_talk True) s" "stuck (talk_step False) s"
  shows "m = 7 \<and> printed s = greeting \<and> bad s = None \<and> writer s = P_Gone \<and> reader s = C_Gone \<and> channel s = []"
proof -
  have start: "talk_ok 0 (forked_talk True) \<and> 0 = talk_rank (forked_talk True)" using talk_start_ok by simp
  from talking.stuck_run [OF assms(1) start assms(2)] have fin: "writer s = P_Gone" "m = 7" by simp_all
  moreover have "talk_ok 0 s" using talking.run_inv [OF assms(1) start] by simp
  ultimately show ?thesis by (auto simp: talk_ok_def has_printed_def)
qed

text \<open>
  C32. When its \<open>pipe\<close> and its \<open>fork\<close> succeed, every run of pipe.c that can go on no further, whatever
  the order of its processes, has made seven steps, the child has printed the greeting and read
  nothing it was not sent, both processes are gone and the pipe is empty. When only \<open>fork\<close> fails,
  every such run has made two steps, at the second of which the parent was killed, and nothing was
  printed; without a pipe there is no run, for \<open>main\<close> returns EXIT_FAILURE at once
  (\<open>talk_start_cases\<close>).
\<close>

theorem pipe_delivers:
  assumes "talk_start piped fork_ok = Inr s0" "run (talk_step False) m s0 s" "stuck (talk_step False) s"
  shows "piped \<and>
    (if fork_ok
     then m = 7 \<and> printed s = greeting \<and> bad s = None \<and> writer s = P_Gone \<and> reader s = C_Gone \<and> channel s = []
     else m = 2 \<and> writer s = P_Killed \<and> printed s = [])"
proof -
  have "piped" "run (talk_step False) m (forked_talk fork_ok) s" using assms(1,2) by (simp_all add: talk_start_cases)
  then show ?thesis using forked_stuck unforked_stuck assms(3) by (cases fork_ok) simp_all
qed

theorem pipe_delivers_witness:
  "\<exists>s0 s. talk_start True True = Inr s0 \<and> run (talk_step False) 7 s0 s \<and> printed s = greeting"
proof -
  have start: "talk_ok 0 (forked_talk True) \<and> 0 = talk_rank (forked_talk True)" using talk_start_ok by simp
  from talking.run_completes [OF start] obtain s where s: "run (talk_step False) 7 (forked_talk True) s" "writer s = P_Gone" by auto
  then have "stuck (talk_step False) s" using talking.final_stuck [OF talking.run_inv [OF s(1) start]] by simp
  then show ?thesis using pipe_delivers [of True True "forked_talk True" 7 s] s(1) by (auto simp: talk_start_cases)
qed

lemma forked_fcntl:
  assumes "run (talk_step True) m (forked_talk True) s"
  shows "\<exists>h. printed s = replicate h (CHR ''#'') @ (if has_printed (reader s) then greeting else []) \<and>
    bad s = None \<and> writer s \<noteq> P_Killed \<and>
    (\<exists>k s'. k \<le> 7 \<and> run (talk_step True) k s s' \<and> writer s' = P_Gone \<and> reader s' = C_Gone \<and>
       printed s' = replicate h (CHR ''#'') @ greeting)"
proof -
  obtain h where h: "talk_ok h s" using talk_run_ok [OF assms talk_start_ok(1)] by blast
  obtain s' where s': "run (talk_step True) (7 - talk_rank s) s s'" "talk_ok h s'" "writer s' = P_Gone"
    using talk_can_end [OF h] by blast
  then have "reader s' = C_Gone" "printed s' = replicate h (CHR ''#'') @ greeting"
    by (auto simp: talk_ok_def has_printed_def)
  then show ?thesis using h s'
    by (intro exI [of _ h] conjI exI [of _ "7 - talk_rank s"] exI [of _ s']) (auto simp: talk_ok_def)
qed

text \<open>
  C31. fcntl.c, once its pipe is made. When its \<open>fork\<close> succeeds it may print hash signs for as long as
  the parent does not write, but nothing else goes wrong with it: in every state it gets to it has
  printed hash signs, followed by the greeting once the child has read it, no process is killed and
  no uninitialised byte was printed, and it can still end, with no more hash signs, in at most seven
  steps. When its \<open>fork\<close> fails it prints nothing, and is killed at its second step.
\<close>

theorem fcntl_delivers:
  assumes "talk_start piped fork_ok = Inr s0" "run (talk_step True) m s0 s"
  shows "if fork_ok
    then \<exists>h. printed s = replicate h (CHR ''#'') @ (if has_printed (reader s) then greeting else []) \<and>
      bad s = None \<and> writer s \<noteq> P_Killed \<and>
      (\<exists>k s'. k \<le> 7 \<and> run (talk_step True) k s s' \<and> writer s' = P_Gone \<and> reader s' = C_Gone \<and>
         printed s' = replicate h (CHR ''#'') @ greeting)
    else printed s = [] \<and> m \<le> 2 \<and> (m = 2 \<longleftrightarrow> writer s = P_Killed)"
proof (cases fork_ok)
  case True
  then have "run (talk_step True) m (forked_talk True) s" using assms by (simp add: talk_start_cases)
  from forked_fcntl [OF this] show ?thesis using True by (simp only: if_True)
next
  case False
  then have "run (talk_step True) m (forked_talk False) s" using assms by (simp add: talk_start_cases)
  from unforked_run [OF this refl] show ?thesis using False by (auto simp: forked_talk_def)
qed

theorem fcntl_delivers_witness:
  "\<exists>h k s0 s'. talk_start True True = Inr s0 \<and> run (talk_step True) k s0 s' \<and> printed s' = replicate h (CHR ''#'') @ greeting"
proof -
  have "talk_start True True = Inr (forked_talk True)" by (simp add: talk_start_def)
  from fcntl_delivers [OF this run_refl] this show ?thesis by auto
qed

section \<open>fork.c and fork2.c\<close>

text \<open>
  The word \<open>waitpid\<close> stores: the low byte of the exit status shifted, or the signal, with 128 when a
  core was dumped.
\<close>

definition status_word :: "bool \<Rightarrow> wstatus \<Rightarrow> int" where
  "status_word core w = (case w of Exited k \<Rightarrow> (k mod 256) * 256 | Signaled n \<Rightarrow> n + (if core then 128 else 0))"

datatype fork_line = Parent_Line int int | Child_Line int int int int | Status_Line int int

text \<open>The parent, with what \<open>fork\<close> answered it and how the child ended: its status and its lines.\<close>

definition fork_parent :: "int \<Rightarrow> int \<Rightarrow> bool \<Rightarrow> wstatus \<Rightarrow> int \<times> fork_line list" where
  "fork_parent pid child core w =
     (if child < 0 then (1, [])
      else (0, [Parent_Line pid child,
                Status_Line (status_word core w div 256) (status_word core w mod 256)]))"

text \<open>The children: the one of fork.c prints and exits with 99, the one of fork2.c writes to address 42.\<close>

definition fork_child :: "int \<Rightarrow> int \<Rightarrow> int \<Rightarrow> wstatus \<times> fork_line list" where
  "fork_child pid parent ppid = (Exited 99, [Child_Line pid 0 parent ppid])"

definition fork2_child :: "int \<Rightarrow> wstatus \<times> fork_line list" where
  "fork2_child SIGSEGV = (Signaled SIGSEGV, [])"

lemma fork_statuses:
  "0 < child \<Longrightarrow> fork_parent pid child core (fst (fork_child child pid ppid)) = (0, [Parent_Line pid child, Status_Line 99 0])"
  "0 < child \<Longrightarrow> 0 < n \<Longrightarrow> n < 128 \<Longrightarrow> fork_parent pid child core (fst (fork2_child n)) =
     (0, [Parent_Line pid child, Status_Line 0 (n + (if core then 128 else 0))])"
  by (simp_all add: fork_parent_def fork_child_def fork2_child_def status_word_def)

section \<open>stdio.c\<close>

text \<open>
  What is printed of what was typed, which is read into the uninitialised array: the number of
  characters \<open>read\<close> answers, and the array as a string. \<open>None\<close>: \<open>read\<close> fails.
\<close>

definition stdio_main :: "string option \<Rightarrow> (int \<times> string) res" where
  "stdio_main typed =
     (case typed of
        None \<Rightarrow> bind_res (text_in blank) (\<lambda>s. Inr (-1, s))
      | Some cs \<Rightarrow> bind_res (text_in (store_bytes (take 256 cs) blank)) (\<lambda>s. Inr (int (length (take 256 cs)), s)))"

lemma text_in_map: "text_in (map Some cs @ ds) = (if NUL \<in> set cs then Inr (cstr cs) else
    bind_res (text_in ds) (\<lambda>s. Inr (cs @ s)))"
  by (induction cs) (auto simp: cstr_def bind_res_def split: sum.split)

text \<open>
  The array is not ended by a NUL: unless one was typed, what is printed behind the characters is
  memory that was never written, or, after 256 characters, is not even the array's.
\<close>

lemma stdio_prints_garbage:
  "NUL \<notin> set (take 256 cs) \<Longrightarrow> stdio_main (Some cs) = Inl (if length cs < 256 then Uninit_Read else Out_Of_Bounds)"
  "stdio_main None = Inl Uninit_Read"
proof -
  assume n: "NUL \<notin> set (take 256 cs)"
  have "drop (length (take 256 cs)) blank = replicate (256 - length cs) None" by (simp add: blank_def min_def)
  moreover have "text_in (replicate k None) = Inl (if 0 < k then Uninit_Read else Out_Of_Bounds)" for k by (cases k) auto
  ultimately show "stdio_main (Some cs) = Inl (if length cs < 256 then Uninit_Read else Out_Of_Bounds)"
    using n by (auto simp: stdio_main_def store_bytes_def text_in_map)
next
  show "stdio_main None = Inl Uninit_Read" by (simp add: stdio_main_def blank_def numeral_eq_Suc)
qed

section \<open>brk.c\<close>

text \<open>
  The loop, with the answers of \<open>brk\<close> for the growth in MB: what is printed, each line the answer and
  the size.
\<close>

partial_function (option) brk_loop :: "(nat \<Rightarrow> bool) \<Rightarrow> nat \<Rightarrow> (int \<times> nat) list \<Rightarrow> (int \<times> nat) list option" where
  "brk_loop grows mb out =
     (let ok = (if grows mb then 0 else -1); out1 = out @ [(ok, mb)]
      in if ok = 0 then brk_loop grows (Suc mb) out1 else Some out1)"

lemma brk_reports:
  assumes "\<And>i. i < most \<Longrightarrow> grows i" "\<not> grows most"
  shows "brk_loop grows 0 [] = Some (map (\<lambda>i. (0, i)) [0..<most] @ [(-1, most)])"
proof -
  have "mb \<le> most \<Longrightarrow> brk_loop grows mb out = Some (out @ map (\<lambda>i. (0, i)) [mb..<most] @ [(-1, most)])" for mb out
  proof (induction "most - mb" arbitrary: mb out)
    case 0
    then show ?case using assms(2) by (subst brk_loop.simps) simp
  next
    case (Suc n)
    then have "mb < most" by simp
    then show ?case using Suc assms(1) by (subst brk_loop.simps) (simp add: upt_conv_Cons)
  qed
  from this [of 0 "[]"] show ?thesis by simp
qed

end
