(* ===== verification/SmallSamples.thy ===== *)
theory SmallSamples
  imports Posix "HOL-Library.Word"
begin

text \<open>
  The samples of Lab1/syscallexamples that make one system call: dup.c, execvp.c, suicide.c,
  group.c, stat.c, domount.c and dounmount.c, and the skeleton Lab2/vsm_pingpong.c. What \<open>printf\<close> has got is in a buffer: on a
  terminal it is shown up to the last newline, otherwise only when the program exits (the
  buffer is larger than what these programs print); a program that is replaced or killed takes its
  buffer with it.
\<close>

section \<open>Standard output\<close>

record stdout_stream =
  terminal :: bool
  shown_text :: string
  pending :: string

definition printf_to :: "string \<Rightarrow> stdout_stream \<Rightarrow> stdout_stream" where
  "printf_to text s =
     (let b = pending s @ text;
          lines = rev (dropWhile (\<lambda>c. c \<noteq> CHR 0x0A) (rev b));
          rest = rev (takeWhile (\<lambda>c. c \<noteq> CHR 0x0A) (rev b))
      in if terminal s then s\<lparr>shown_text := shown_text s @ lines, pending := rest\<rparr> else s\<lparr>pending := b\<rparr>)"

definition flush_out :: "stdout_stream \<Rightarrow> stdout_stream" where
  "flush_out s = s\<lparr>shown_text := shown_text s @ pending s, pending := []\<rparr>"

definition drop_out :: "stdout_stream \<Rightarrow> stdout_stream" where
  "drop_out s = s\<lparr>pending := []\<rparr>"

datatype program_end = Exit_Status int | Killed_By nat | Replaced_By "string list"

definition text_line :: "string \<Rightarrow> string" where
  "text_line t = t @ [CHR 0x0A]"

lemma lines_of_line [simp]:
  "rev (dropWhile (\<lambda>c. c \<noteq> CHR 0x0A) (rev (text_line t))) = text_line t"
  "rev (takeWhile (\<lambda>c. c \<noteq> CHR 0x0A) (rev (text_line t))) = []"
  by (simp_all add: text_line_def)

lemma printf_line:
  "pending s = [] \<Longrightarrow> printf_to (text_line t) s =
     (if terminal s then s\<lparr>shown_text := shown_text s @ text_line t, pending := []\<rparr> else s\<lparr>pending := text_line t\<rparr>)"
  by (simp add: printf_to_def Let_def)

section \<open>execvp.c and suicide.c\<close>

definition execvp_main :: "bool \<Rightarrow> stdout_stream \<Rightarrow> program_end \<times> stdout_stream" where
  "execvp_main found s =
     (let newargv = [''ls'', ''-l''];
          s1 = printf_to (text_line (''The output of '' @ [CHR 0x27] @ ''ls -l'' @ [CHR 0x27] @ '' is:'')) s
      in if found then (Replaced_By newargv, drop_out s1)
         else (Exit_Status 0, flush_out (printf_to (text_line ''Houston we have a problem'') s1)))"

definition suicide_main :: "stdout_stream \<Rightarrow> program_end \<times> stdout_stream" where
  "suicide_main s = (Killed_By 9, drop_out (printf_to (text_line ''####'') s))"

text \<open>What they print before they go is seen on a terminal only.\<close>

lemma printed_then_gone:
  assumes "pending s = []"
  shows "shown_text (snd (suicide_main s)) = shown_text s @ (if terminal s then text_line ''####'' else [])"
    and "shown_text (snd (execvp_main True s)) = shown_text s @
      (if terminal s then text_line (''The output of '' @ [CHR 0x27] @ ''ls -l'' @ [CHR 0x27] @ '' is:'') else [])"
  by (simp_all only: suicide_main_def execvp_main_def Let_def printf_line [OF assms] drop_out_def if_True snd_conv)
    simp_all

section \<open>dup.c\<close>

definition sys_dup :: "int \<Rightarrow> fdtable \<Rightarrow> int \<times> fdtable" where
  "sys_dup fd t = (case get_fd fd t of None \<Rightarrow> (-1, t) | Some f \<Rightarrow> new_fd f t)"

text \<open>What has been written where, in order; a \<open>write\<close> to a descriptor that is not open writes nothing.\<close>

definition write_fd :: "int \<Rightarrow> string \<Rightarrow> fdtable \<Rightarrow> (open_file \<times> string) list \<Rightarrow> (open_file \<times> string) list" where
  "write_fd fd bytes t log = (case get_fd fd t of None \<Rightarrow> log | Some f \<Rightarrow> log @ [(f, bytes)])"

definition dup_sample :: "fdtable \<Rightarrow> int \<times> (open_file \<times> string) list" where
  "dup_sample t =
     (let msg = text_line ''Hello world!'' @ [CHR 0x00];
          (newfd, t1) = sys_dup 1 t
      in (0, write_fd newfd msg t1 (write_fd 1 msg t1 [])))"

lemma dup_sample_twice:
  assumes "slots t 1 = Some f" "slots t m = None" "m < limit t"
  shows "dup_sample t = (0, [(f, text_line ''Hello world!'' @ [CHR 0x00]), (f, text_line ''Hello world!'' @ [CHR 0x00])])"
proof -
  obtain n where n: "lowest_free t = Some n" using lowest_free_exists [OF assms(2,3)] .
  have g: "get_fd 1 u = slots u 1" for u using get_fd_int [of 1 u] by simp
  have "n \<noteq> 1" using n assms(1) by (auto simp: lowest_free_Some)
  then show ?thesis
    using n assms(1) by (simp add: dup_sample_def sys_dup_def write_fd_def g new_fd_Some Let_def)
qed

section \<open>group.c\<close>

text \<open>\<open>setsid\<close> makes a process the leader of a new group, unless it is the leader of one already.\<close>

definition setsid :: "int \<Rightarrow> int \<Rightarrow> int \<times> int" where
  "setsid pid pgrp = (if pgrp = pid then (-1, pgrp) else (pid, pid))"

definition group_main :: "int \<Rightarrow> int \<Rightarrow> (string \<times> int) list" where
  "group_main pid pgrp = [(''getpid'', pid), (''getpgrp'', pgrp), (''getpgrp'', snd (setsid pid pgrp))]"

lemma group_becomes_leader: "group_main pid pgrp ! 2 = (''getpgrp'', pid)"
  by (simp add: group_main_def setsid_def)

section \<open>stat.c\<close>

record file_status =
  st_dev :: "64 word"
  st_ino :: "64 word"
  st_mode :: "64 word"
  st_nlink :: "64 word"
  st_uid :: "64 word"
  st_gid :: "64 word"
  st_size :: "64 word"
  st_atime :: "64 word"
  st_mtime :: "64 word"

definition to_int :: "64 word \<Rightarrow> int" where
  "to_int x = sint (ucast x :: 32 word)"

definition stat_error :: "int \<Rightarrow> int \<times> (string \<times> int) list" where
  "stat_error errno = (1, [(''errno'', errno)])"

definition stat_main :: "int + file_status \<Rightarrow> int \<times> (string \<times> int) list" where
  "stat_main answer =
     (case answer of
        Inl errno \<Rightarrow> stat_error errno
      | Inr filestatus \<Rightarrow> (0,
          [(''st_dev'', to_int (st_dev filestatus)), (''st_ino'', to_int (st_ino filestatus)),
           (''st_mode'', to_int (st_mode filestatus)), (''st_nlink'', to_int (st_nlink filestatus)),
           (''st_uid'', to_int (st_uid filestatus)), (''st_gid'', to_int (st_gid filestatus)),
           (''st_size'', to_int (st_size filestatus)), (''st_atime'', to_int (st_atime filestatus)),
           (''st_mtime'', to_int (st_mtime filestatus))]))"

text \<open>The casts keep what fits an \<open>int\<close>; a file of 3 GB is said to have a negative size.\<close>

lemma to_int_fits:
  assumes "uint x < 2 ^ 31"
  shows "to_int x = uint x"
proof -
  have "to_int x = signed_take_bit 31 (uint x)" unfolding to_int_def ucast_eq by (simp only: signed_of_int) simp
  also have "\<dots> = uint x"
  proof (rule signed_take_bit_int_eq_self)
    have "- (2 ^ 31) \<le> (0 :: int)" "0 \<le> uint x" by simp_all
    then show "- (2 ^ 31) \<le> uint x" by (rule order_trans)
  qed (use assms in simp)
  finally show ?thesis .
qed

lemma large_size_negative: "to_int 3221225472 = -1073741824"
  by (simp add: to_int_def)

section \<open>domount.c and dounmount.c\<close>

text \<open>The lines on the two outputs are pairs of the text and whether it is standard error.\<close>

definition domount_main :: "int \<Rightarrow> int \<Rightarrow> int \<times> (bool \<times> string) list" where
  "domount_main euid mounted =
     (if euid \<noteq> 0 then (1, [(True, ''Sorry, only root can do this!'')])
      else if mounted < 0 then (1, [(True, ''mount failed'')])
      else (0, [(False, ''mounted /dev/c0d0p1s0 on /home/arnold/examples/mnt'')]))"

definition dounmount_main :: "int \<Rightarrow> int \<Rightarrow> int \<times> (bool \<times> string) list" where
  "dounmount_main euid unmounted =
     (if euid \<noteq> 0 then (1, [(True, ''Sorry, only root can do this!'')])
      else if unmounted < 0 then (1, [(True, ''unmount failed'')])
      else (0, [(False, ''unmounted /dev/c0d0p1s0'')]))"

lemma mounts_as_root:
  "fst (domount_main euid r) = 0 \<longleftrightarrow> euid = 0 \<and> 0 \<le> r" "fst (dounmount_main euid r) = 0 \<longleftrightarrow> euid = 0 \<and> 0 \<le> r"
  by (auto simp: domount_main_def dounmount_main_def)

section \<open>vsm_pingpong.c\<close>

text \<open>
  The skeleton starts two children, and no process does anything. As committed it does not
  compile: both parameters of \<open>main\<close> are called \<open>argv\<close>; they are not used, and the first one is read as
  another name. The answers of the two forks decide which processes exit with what.
\<close>

datatype vsm_process = Vsm_Parent | Vsm_Child nat

definition printPingPong :: "int \<Rightarrow> string" where
  "printPingPong whoAmI = (if whoAmI \<noteq> 0 then text_line ''Ping'' else text_line ''...Pong'')"

definition vsm_main :: "int \<Rightarrow> int \<Rightarrow> (vsm_process \<times> int) list" where
  "vsm_main child1 child2 =
     (if child1 < 0 then [(Vsm_Parent, 1)]
      else (Vsm_Child 1, 0) #
        (if child2 < 0 then [(Vsm_Parent, 1)] else [(Vsm_Child 2, 0), (Vsm_Parent, 0)]))"

lemma vsm_statuses: "(\<forall>(p, status) \<in> set (vsm_main child1 child2). status = 0) \<longleftrightarrow> 0 \<le> child1 \<and> 0 \<le> child2"
  by (auto simp: vsm_main_def)

end
