(* ===== verification/Spec2Isabelle.thy ===== *)
theory Spec2Isabelle
  imports Iwish Session Dataflow DynamicString PointerArray PmCalls KernelMain RingSystem DuplicatesRewrite PingPong Execute
    ParserTest Demo SignalSamples PipeSamples SmallSamples
begin

text \<open>
  A verification development of the programs of three operating system courseworks: the shell iwish
  and its forerunners (Lab2), the programs on processes, pipes and files (Lab1, Lab2), and the
  changes to MINIX (Lab3). All of them are C; the theories model the C code, not a cleaned-up
  version of it, so undefined behaviour, refused memory, failing system calls and wrap-around are
  values and branches of the definitions.

  \<^bold>\<open>How C is modelled.\<close> CPrelude: undefined behaviour is an element of \<open>ub\<close> on the left of
  \<open>ub + 'a\<close>; the allocator is a record of live blocks with an oracle \<open>grants\<close> that refuses what it
  likes (theorems quantify over it, or ask for a \<open>generous\<close> heap where the property needs memory);
  memory is a list of bytes that may be indeterminate; \<open>size_t\<close> is a word of 64 bits. CStrings has
  the functions of the C library more than one program calls. Posix has the descriptor table of a
  process (a new descriptor is the lowest free one) and an environment record with the answers of
  the system calls. Runs has the finite runs of a step relation and the locale \<open>progressing\<close>:
  an invariant that counts the steps, so that runs are finite and end only in the final state; it
  is interpreted for the ring (\<open>ringrun\<close>), the ping-pong (\<open>game\<close>) and the shell (\<open>sess\<close>). \<open>refining\<close> extends it by
  a finer program whose steps are steps of the coarser one or counted extra ones; it makes the finer
  program \<open>progressing\<close> too, and is interpreted for the ring program (\<open>ringsys\<close>). Growable has the locale
  \<open>growable\<close>, the contract of an append: it is interpreted for the byte array (\<open>dba\<close>), the dynamic
  string (\<open>ds\<close>) and the pointer array (\<open>dynarr\<close>), and its clients are proved inside it.

  \<^bold>\<open>The shell\<close> (Lab2/iwish/src).
  \<^item> DynamicByteArray (DynamicByteArray.c): the array with its byte loop; \<open>dba_inv\<close> and the append
    on each branch. A floating point number is the word of its bits.
  \<^item> ParserTokens (parsertokens.c): the syntax tree; a pointer to a node is the node with its
    block, so that destructors free blocks.
  \<^item> Syntax: what the tree stands for (\<open>abs_list\<close>), how a pipeline is written (\<open>write_list\<close>) and
    read (\<open>read_list\<close>), and the productions of bash.txt as they stand (\<open>g_simple_list\<close>, \<open>g_word\<close>), whose
    words are fewer than those of the parser.
  \<^item> Parser, ParserMemory, ParserCorrect (parser.c): the recursive descent parser; its memory
    safety under any refusal; its equivalence with \<open>read_list\<close> when memory is granted.
  \<^item> Interpreter, CommandRun, Pipelines (interpreter.c, SafelyFork.c): each process of a job is
    followed on its own, with the copy of the descriptors it has at the fork. CommandRun is about
    one command, Pipelines about the loop that starts them: what runs, with which ends of which
    pipes, what is closed, what is waited for. \<open>interpretSimpleList\<close> is \<open>start_job\<close>, which leaves the
    process in its waiting loop or about to leave, and then that loop (\<open>wait_body\<close>, \<open>handler_runs\<close>).
  \<^item> Dataflow: the programs of a job at work. Programs are arbitrary machines over the descriptors
    \<open>interpretSimpleList\<close> leaves them; \<open>own_ends\<close> says which ends of which pipes a process may hold, and
    from it follows that a job never deadlocks.
  \<^item> Input, Iwish (iwish.c): reading a line, cutting it with \<open>strtok\<close>, a turn of the shell, its
    main loop. \<open>readInput\<close> and \<open>main\<close> may run for ever and are \<open>partial_function (option)\<close>; the
    liveness properties say when they return. A job is started in a child, and the shell waits for
    it unless the line ends with an ampersand.
  \<^item> Session (iwish.c, SafelyFork.c): the shell, the processes of its jobs and their programs at
    once, as a step relation (\<open>sess\<close>): a turn of the shell, the end of a process and of waiting are
    steps. A handler is where \<open>start_job\<close> leaves it and goes on as \<open>wait_body\<close> says; which programs end by
    themselves and which survive SIGTERM is open, and so is whether \<open>waitpid\<close> waits for all children,
    as documented for a process that ignores their statuses, or for the one named. \<open>session_inv\<close>
    counts what is left to do; \<open>prompt_ok\<close> says who waits for whom, \<open>lines_ok\<close> which line a job is of.

  \<^bold>\<open>The forerunners.\<close> DynamicString and PointerArray (Lab2/depricated, Lab1/DynamicArray.c).
  ParserTest (Lab2/depricated/parser_test.c): the test program that shows the tree it has parsed;
  every tree the parser leaves behind is \<open>printable\<close>, and what is printed of a pipeline is \<open>show_list\<close>.

  \<^bold>\<open>Processes and files.\<close>
  \<^item> RingSetup (Lab1/ring.c up to \<open>cycleNumber\<close>): the argument, the pipes, the forks, and which
    descriptors each process keeps. Ring (the rest of it): all processes at once, one system call a
    step. The phases of \<open>in_phase\<close> say where the number is; a step moves it or is one of the
    steps a process makes on its own, so \<open>phase_num\<close> and \<open>ranks\<close> grow by one together, and
    every complete run has 150 + 7 n steps. A pipe takes \<open>cap\<close> numbers; one is enough.
    RingSystem (the whole program): processes with descriptor tables of their own, which fork and
    close one call at a step, in any order; whether a pipe has a reader or a writer is what the
    tables say. \<open>sys_abs\<close> forgets the tables, \<open>sys_extra\<close> counts the forks and closes that are no
    steps of Ring, \<open>sys_ok\<close> says what each process has where it is; so every run from \<open>main\<close> on is
    a run of Ring with n (2 n - 1) more steps. \<open>ring_fork_failure\<close> is what happens when a fork fails.
  \<^item> PingPong (Lab2/pingpong.c): both players and the parent, in the same style.
  \<^item> CompareFiles (Lab1/duplicates_backup.c, Lab1/duplicates.c): \<open>compareFiles\<close>, the same in both programs,
    call by call over a table of descriptors, with every failure of its calls; \<open>compare_spec\<close> says what
    it comes to. Duplicates (Lab1/duplicates_backup.c): the directory is a tree of entries as
    \<open>readdir\<close> yields them; a path longer than its buffer of 256 characters is undefined behaviour.
    DuplicatesRewrite (Lab1/duplicates.c): its rewrite over the dynamic array of Lab1, with the
    undeclared name that keeps it from compiling read as the variable meant.
  \<^item> Execute (Lab1/execute.c): the words of the argument become the arguments of \<open>execvp\<close>.
  \<^item> Demo (Lab2/demo.c): a loop over protected pages and the handler of its faults. FileSamples
    (Lab1/syscallexamples, files.c and lseek.c): reading and writing one disk.
  \<^item> SignalSamples (Lab1/syscallexamples): programs as tasks with handlers, blocked and pending signals
    and an alarm, over one relation \<open>task_step\<close>; when an alarm expires and a signal is delivered is
    open, and so is which signals come from outside. PipeSamples (the same directory): a parent and a child over a pipe, blocking (pipe.c, the
    interpretation \<open>talking\<close>) or not (fcntl.c); what \<open>waitpid\<close> tells, reading into an array, \<open>brk\<close>.
    SmallSamples: the samples of one system call, with the buffer of \<open>printf\<close>, and the skeleton
    Lab2/vsm_pingpong.c.

  \<^bold>\<open>MINIX.\<close>
  \<^item> PmTime (servers/pm/time.c, libc/sys-minix/utctime.c): the time calls on words of 32 bits; the
    answers of the kernel calls are arguments. PmCalls (servers/pm/table.c, minix/callnr.h): the
    call table, the added call as a whole, and the program that tries it (test.c). The leap seconds are compared with the calendar.
  \<^item> Kernel (kernel/main.c): \<open>cstart\<close> and the look-up of boot parameters. The constants of headers
    that are not in the repository are the record \<open>build\<close>. KernelBoot (kernel/main.c): the loop of
    \<open>kmain\<close> that sets up the processes of the boot image, and the loop of \<open>bsp_finish_booting\<close>
    that lets them go; functions of the kernel that are defined elsewhere are arguments. KernelStart
    (kernel/main.c): the names of the IPC calls, the end of \<open>kmain\<close>, the shutdown. KernelMain
    (kernel/main.c): \<open>kmain\<close> and \<open>bsp_finish_booting\<close> as a whole, from the entry to user mode, over the
    variables they write; it puts the other three together. The functions of other files are the list
    of the calls, in order, each with the right to allocate memory the kernel had at it.

  \<^bold>\<open>Not modelled.\<close> The heap of a child of the interpreter after its last command: it exits or
  is replaced, and its heap goes with it. What the programs print besides the numbers, pairs and
  names modelled (prompts, usage, \<open>perror\<close>). \<open>pipe\<close> is taken to succeed in PingPong. Of kernel/main.c
  what the functions of other files do with hardware and tables of theirs (they are calls). In Dataflow the
  programs start when the job has made all its processes. In Session what programs start in their turn
  is not followed. time.h and proto.h only declare.
\<close>

end
